(* ===== verification/GW_Prelude.thy ===== *)
theory GW_Prelude
  imports Main "HOL-Library.Word"
begin

text \<open>
  Shared vocabulary of the development: C's undefined behaviour as an error value, the
  32-bit \<open>int\<close> of the target, byte buffers with checked accesses, the little-endian
  encoding of the ARM target, and C strings.  Nothing in this theory models a file of the
  repository; it models the fragment of the C language and of its library the program uses.
\<close>

named_theorems res_simps \<open>evaluation rules of the result type\<close>
named_theorems buf_simps \<open>reads and writes of byte buffers\<close>

section \<open>Results: a value or undefined behaviour\<close>

text \<open>
  \<open>ub\<close> lists the ways in which the program's C code can run into undefined behaviour.
  A function whose C body can do so returns \<open>'a res\<close>; \<open>Inl\<close> carries the cause.
\<close>

datatype ub =
    NullDeref
  | OutOfBounds
  | SignedOverflow
  | OverlapCopy
  | UseAfterFree
  | UnlockNotOwner
  | Uninitialised

type_synonym 'a res = "ub + 'a"

definition res_bind :: "'a res \<Rightarrow> ('a \<Rightarrow> 'b res) \<Rightarrow> 'b res" where
  "res_bind m f = (case m of Inl e \<Rightarrow> Inl e | Inr x \<Rightarrow> f x)"

lemma res_bind_Inl [simp, res_simps]: "res_bind (Inl e) f = Inl e"
  by (simp add: res_bind_def)

lemma res_bind_Inr [simp, res_simps]: "res_bind (Inr x) f = f x"
  by (simp add: res_bind_def)

lemma res_bind_eq_Inr:
  "res_bind m f = Inr y \<longleftrightarrow> (\<exists>x. m = Inr x \<and> f x = Inr y)"
  by (cases m) auto

lemma res_bind_assoc: "res_bind (res_bind m f) g = res_bind m (\<lambda>x. res_bind (f x) g)"
  by (cases m) auto

lemma res_bind_right [simp, res_simps]: "res_bind m Inr = m"
  by (cases m) auto

lemma res_bind_cong [fundef_cong]:
  "m = m' \<Longrightarrow> (\<And>x. m' = Inr x \<Longrightarrow> f x = f' x) \<Longrightarrow> res_bind m f = res_bind m' f'"
  by (cases m') auto

section \<open>Error numbers\<close>

definition EIO :: int where [simp]: "EIO = 5"
definition ENOMEM :: int where [simp]: "ENOMEM = 12"
definition EEXIST :: int where [simp]: "EEXIST = 17"
definition ENODEV :: int where [simp]: "ENODEV = 19"
definition EINVAL :: int where [simp]: "EINVAL = 22"
definition ENOTEMPTY :: int where [simp]: "ENOTEMPTY = 39"
definition ETIMEDOUT :: int where [simp]: "ETIMEDOUT = 110"

section \<open>The target's \<open>int\<close>\<close>

definition INT_MIN :: int where "INT_MIN = - 2147483648"

definition INT_MAX :: int where "INT_MAX = 2147483647"

definition int32 :: "int \<Rightarrow> bool" where
  "int32 v \<longleftrightarrow> INT_MIN \<le> v \<and> v \<le> INT_MAX"

text \<open>Signed arithmetic: a result outside the type is undefined behaviour.\<close>

definition chk32 :: "int \<Rightarrow> int res" where
  "chk32 v = (if int32 v then Inr v else Inl SignedOverflow)"

lemma int32_simps [simp]:
  "int32 v \<longleftrightarrow> - 2147483648 \<le> v \<and> v \<le> 2147483647"
  by (simp add: int32_def INT_MIN_def INT_MAX_def)

lemma chk32_Inr [simp, res_simps]: "int32 v \<Longrightarrow> chk32 v = Inr v"
  by (simp add: chk32_def)

lemma chk32_eq_Inr: "chk32 v = Inr w \<longleftrightarrow> v = w \<and> int32 v"
  by (auto simp: chk32_def)

section \<open>Bytes and byte buffers\<close>

text \<open>A C \<open>char\<close> is HOL's 8-bit \<open>char\<close>, so literals such as \<open>''abc''\<close> are byte strings.\<close>

type_synonym byte = char
type_synonym bytes = "char list"

abbreviation NUL :: byte where "NUL \<equiv> CHR 0x00"

definition rd :: "bytes \<Rightarrow> int \<Rightarrow> int \<Rightarrow> bytes res" where
  "rd b off n =
     (if 0 \<le> off \<and> 0 \<le> n \<and> off + n \<le> int (length b)
      then Inr (take (nat n) (drop (nat off) b)) else Inl OutOfBounds)"

definition wr :: "bytes \<Rightarrow> int \<Rightarrow> bytes \<Rightarrow> bytes res" where
  "wr b off d =
     (if 0 \<le> off \<and> off + int (length d) \<le> int (length b)
      then Inr (take (nat off) b @ d @ drop (nat off + length d) b) else Inl OutOfBounds)"

text \<open>
  \<open>memcpy\<close> inside one buffer.  ISO C leaves overlapping ranges undefined; \<open>ovl\<close> says
  whether the platform's routine copies upwards, so that a copy to a lower address is exact
  even when the ranges overlap.
\<close>

definition overlap :: "int \<Rightarrow> int \<Rightarrow> int \<Rightarrow> bool" where
  "overlap dst src n \<longleftrightarrow> 0 < n \<and> dst < src + n \<and> src < dst + n"

definition memcpy_in :: "bool \<Rightarrow> bytes \<Rightarrow> int \<Rightarrow> int \<Rightarrow> int \<Rightarrow> bytes res" where
  "memcpy_in ovl b dst src n =
     (if overlap dst src n \<and> \<not> (ovl \<and> dst \<le> src) then Inl OverlapCopy
      else res_bind (rd b src n) (\<lambda>d. wr b dst d))"

lemma rd_Inr [buf_simps]:
  "0 \<le> off \<Longrightarrow> 0 \<le> n \<Longrightarrow> off + n \<le> int (length b) \<Longrightarrow>
     rd b off n = Inr (take (nat n) (drop (nat off) b))"
  by (simp add: rd_def)

lemma wr_Inr [buf_simps]:
  "0 \<le> off \<Longrightarrow> off + int (length d) \<le> int (length b) \<Longrightarrow>
     wr b off d = Inr (take (nat off) b @ d @ drop (nat off + length d) b)"
  by (simp add: wr_def)

lemma rd_mid [buf_simps]:
  "off = int (length pre) \<Longrightarrow> n = int (length xs) \<Longrightarrow> rd (pre @ xs @ ys) off n = Inr xs"
  by (simp add: rd_def)

lemma wr_mid [buf_simps]:
  "off = int (length pre) \<Longrightarrow> length d = length xs \<Longrightarrow> wr (pre @ xs @ ys) off d = Inr (pre @ d @ ys)"
  by (simp add: wr_def)

lemma wr_length: "wr b off d = Inr b' \<Longrightarrow> length b' = length b"
  by (auto simp: wr_def min_def split: if_splits)

lemma rd_length: "rd b off n = Inr d \<Longrightarrow> int (length d) = n"
  by (auto simp: rd_def min_def split: if_splits)

lemma memcpy_in_length: "memcpy_in ovl b dst src n = Inr b' \<Longrightarrow> length b' = length b"
  by (auto simp: memcpy_in_def res_bind_eq_Inr dest: wr_length split: if_splits)

section \<open>Little-endian 32-bit integers\<close>

definition le32 :: "int \<Rightarrow> bytes" where
  "le32 v = [char_of v, char_of (v div 256), char_of (v div 65536), char_of (v div 16777216)]"

fun un_le32 :: "bytes \<Rightarrow> int" where
  "un_le32 (a # b # c # d # _) =
     (let u = of_char a + 256 * of_char b + 65536 * of_char c + 16777216 * (of_char d :: int)
      in if u < 2147483648 then u else u - 4294967296)"
| "un_le32 _ = 0"

lemma length_le32 [simp]: "length (le32 v) = 4"
  by (simp add: le32_def)

lemma of_char_int_range: "0 \<le> (of_char c :: int)" "(of_char c :: int) < 256"
  by (metis of_char_mod_256 pos_mod_sign pos_mod_bound zero_less_numeral)+

lemma un_le32_app [simp]: "length a = 4 \<Longrightarrow> un_le32 (a @ b) = un_le32 a"
  by (cases a rule: un_le32.cases) simp_all

lemma mod_bytes:
  "(v::int) mod 256 + 256 * (v div 256 mod 256) + 65536 * (v div 65536 mod 256)
     + 16777216 * (v div 16777216 mod 256) = v mod 4294967296"
proof -
  have 1: "v mod 4294967296 = 256 * (v div 256 mod 16777216) + v mod 256"
    using zmod_zmult2_eq [of 16777216 v 256] by simp
  have 2: "(v div 256) mod 16777216 = 256 * (v div 65536 mod 65536) + v div 256 mod 256"
    using zmod_zmult2_eq [of 65536 "v div 256" 256] zdiv_zmult2_eq [of 256 v 256] by simp
  have 3: "(v div 65536) mod 65536 = 256 * (v div 16777216 mod 256) + v div 65536 mod 256"
    using zmod_zmult2_eq [of 256 "v div 65536" 256] zdiv_zmult2_eq [of 256 v 65536] by simp
  from 1 2 3 show ?thesis by linarith
qed

lemma un_le32_le32_mod:
  "un_le32 (le32 v) =
     (if v mod 4294967296 < 2147483648 then v mod 4294967296
      else v mod 4294967296 - 4294967296)"
  unfolding le32_def un_le32.simps Let_def of_char_of mod_bytes ..

lemma un_le32_le32: "int32 v \<Longrightarrow> un_le32 (le32 v) = v"
proof (cases "0 \<le> v")
  case False
  assume v: "int32 v"
  have "v mod 4294967296 = (v + 4294967296) mod 4294967296" by simp
  also have "\<dots> = v + 4294967296" using False v by (intro mod_pos_pos_trivial) simp_all
  finally show ?thesis using False v by (simp add: un_le32_le32_mod)
qed (simp add: un_le32_le32_mod)

lemma un_le32_range: "int32 (un_le32 bs)"
proof (cases bs rule: un_le32.cases)
  case (1 a b c d e)
  have r: "0 \<le> u \<Longrightarrow> u < 4294967296 \<Longrightarrow>
      int32 (if u < 2147483648 then u else u - 4294967296)" for u :: int by auto
  show ?thesis unfolding 1 un_le32.simps Let_def
    using of_char_int_range [of a] of_char_int_range [of b] of_char_int_range [of c]
      of_char_int_range [of d]
    by (intro r; linarith)
qed simp_all

section \<open>C strings\<close>

text \<open>\<open>cstr b\<close> is the string a \<open>char*\<close> to the start of \<open>b\<close> denotes.\<close>

definition cstr :: "bytes \<Rightarrow> bytes" where
  "cstr b = takeWhile (\<lambda>c. c \<noteq> NUL) b"

lemma cstr_NUL [simp]: "NUL \<notin> set s \<Longrightarrow> cstr (s @ NUL # r) = s"
  unfolding cstr_def by (subst takeWhile_append2) auto

lemma cstr_no_NUL: "NUL \<notin> set (cstr b)"
  by (auto simp: cstr_def dest: set_takeWhileD)

fun strstr :: "bytes \<Rightarrow> bytes \<Rightarrow> bool" where
  "strstr s pat = (take (length pat) s = pat \<or> (case s of [] \<Rightarrow> False | _ # t \<Rightarrow> strstr t pat))"

declare strstr.simps [simp del]

section \<open>Formatting\<close>

text \<open>\<open>%d\<close>, and \<open>snprintf\<close> into a buffer of \<open>n > 0\<close> bytes: at most \<open>n - 1\<close> characters are kept.\<close>

definition digit :: "nat \<Rightarrow> byte" where
  "digit n = char_of (n + 48)"

fun dec_nat :: "nat \<Rightarrow> bytes" where
  "dec_nat n = (if n < 10 then [digit n] else dec_nat (n div 10) @ [digit (n mod 10)])"

declare dec_nat.simps [simp del]

definition dec_int :: "int \<Rightarrow> bytes" where
  "dec_int v = (if v < 0 then CHR ''-'' # dec_nat (nat (- v)) else dec_nat (nat v))"

definition snprintf :: "nat \<Rightarrow> bytes \<Rightarrow> bytes" where
  "snprintf n s = take (n - 1) s"

lemma snprintf_fits [simp]: "length s < n \<Longrightarrow> snprintf n s = s"
  by (simp add: snprintf_def)

lemma length_snprintf: "0 < n \<Longrightarrow> length (snprintf n s) < n"
  by (simp add: snprintf_def)

lemma of_char_digit: "n < 10 \<Longrightarrow> (of_char (digit n) :: nat) = n + 48"
  by (simp add: digit_def)

lemma dec_nat_digits: "set (dec_nat n) \<subseteq> digit ` {0..<10}"
proof (induction n rule: dec_nat.induct)
  case (1 n)
  show ?case
  proof (cases "n < 10")
    case False
    then have "set (dec_nat n) = insert (digit (n mod 10)) (set (dec_nat (n div 10)))"
      by (subst dec_nat.simps) simp
    with 1 [OF False] show ?thesis by auto
  qed (subst dec_nat.simps, simp)
qed

lemma dec_nat_not_Nil [simp]: "dec_nat n \<noteq> []"
  by (subst dec_nat.simps) simp

lemma notin_dec_nat:
  assumes "(of_char c :: nat) < 48 \<or> 57 < (of_char c :: nat)"
  shows "c \<notin> set (dec_nat n)"
proof
  assume "c \<in> set (dec_nat n)"
  with dec_nat_digits [of n] obtain k where "k < 10" "c = digit k" by auto
  with assms of_char_digit [of k] show False by auto
qed

end
