(* ===== verification/GW_Json.thy ===== *)
theory GW_Json
  imports GW_Prelude
begin

text \<open>
  \<open>src/code/dependence/cjson/cJSON.c\<close>, the tree: construction, look-up, editing, duplication
  and comparison of JSON values.

  An item owns its name, its text and its list of children; the pointers between siblings
  are the order of the list \<open>cj_child\<close>, and a pointer to a child of a given item is the
  child's index.
  Allocation is taken to succeed.  Doubles are a type parameter with the
  operations the code uses, the argument \<open>D\<close>.
\<close>

unbundle bit_operations_syntax

section \<open>Data\<close>

definition cJSON_Invalid :: int where [simp]: "cJSON_Invalid = 0"
definition cJSON_False :: int where [simp]: "cJSON_False = 1"
definition cJSON_True :: int where [simp]: "cJSON_True = 2"
definition cJSON_NULL :: int where [simp]: "cJSON_NULL = 4"
definition cJSON_Number :: int where [simp]: "cJSON_Number = 8"
definition cJSON_String :: int where [simp]: "cJSON_String = 16"
definition cJSON_Array :: int where [simp]: "cJSON_Array = 32"
definition cJSON_Object :: int where [simp]: "cJSON_Object = 64"
definition cJSON_Raw :: int where [simp]: "cJSON_Raw = 128"
definition cJSON_IsReference :: int where [simp]: "cJSON_IsReference = 256"
definition cJSON_StringIsConst :: int where [simp]: "cJSON_StringIsConst = 512"

datatype 'd cJSON =
  CJ (cj_type: int) (cj_valuestring: "bytes option") (cj_valueint: int) (cj_valuedouble: 'd)
     (cj_string: "bytes option") (cj_child: "'d cJSON list")

text \<open>
  The operations on doubles: zero, \<open>strtod\<close> (value and number of characters read), the
  comparisons with \<open>INT_MAX\<close> and \<open>INT_MIN\<close>, the conversion to \<open>int\<close>, the test for NaN and
  infinity, the formats \<open>%1.15g\<close> and \<open>%1.17g\<close>, \<open>sscanf\<close> with \<open>%lg\<close>, and \<open>==\<close>.
\<close>

record 'd dbl =
  d_zero :: 'd
  d_strtod :: "bytes \<Rightarrow> 'd \<times> nat"
  d_ge_max :: "'d \<Rightarrow> bool"
  d_le_min :: "'d \<Rightarrow> bool"
  d_trunc :: "'d \<Rightarrow> int"
  d_nonfinite :: "'d \<Rightarrow> bool"
  d_fmt15 :: "'d \<Rightarrow> bytes"
  d_fmt17 :: "'d \<Rightarrow> bytes"
  d_scan :: "bytes \<Rightarrow> 'd option"
  d_eq :: "'d \<Rightarrow> 'd \<Rightarrow> bool"

definition with_type :: "int \<Rightarrow> 'd cJSON \<Rightarrow> 'd cJSON" where
  "with_type t i = CJ t (cj_valuestring i) (cj_valueint i) (cj_valuedouble i) (cj_string i) (cj_child i)"

definition with_string :: "bytes option \<Rightarrow> 'd cJSON \<Rightarrow> 'd cJSON" where
  "with_string s i = CJ (cj_type i) (cj_valuestring i) (cj_valueint i) (cj_valuedouble i) s (cj_child i)"

definition with_child :: "'d cJSON list \<Rightarrow> 'd cJSON \<Rightarrow> 'd cJSON" where
  "with_child c i = CJ (cj_type i) (cj_valuestring i) (cj_valueint i) (cj_valuedouble i) (cj_string i) c"

lemma with_simps [simp]:
  "cj_type (with_type t i) = t" "cj_string (with_type t i) = cj_string i" "cj_child (with_type t i) = cj_child i"
  "cj_type (with_string s i) = cj_type i" "cj_string (with_string s i) = s" "cj_child (with_string s i) = cj_child i"
  "cj_type (with_child c i) = cj_type i" "cj_string (with_child c i) = cj_string i" "cj_child (with_child c i) = c"
  "cj_valuestring (with_type t i) = cj_valuestring i" "cj_valuestring (with_string s i) = cj_valuestring i"
  "cj_valuestring (with_child c i) = cj_valuestring i"
  by (simp_all add: with_type_def with_string_def with_child_def)

section \<open>Creating items\<close>

definition cJSON_New_Item :: "'d dbl \<Rightarrow> 'd cJSON" where
  "cJSON_New_Item D = CJ 0 None 0 (d_zero D) None []"

definition cJSON_CreateNull :: "'d dbl \<Rightarrow> 'd cJSON" where
  "cJSON_CreateNull D = with_type cJSON_NULL (cJSON_New_Item D)"

definition cJSON_CreateTrue :: "'d dbl \<Rightarrow> 'd cJSON" where
  "cJSON_CreateTrue D = with_type cJSON_True (cJSON_New_Item D)"

definition cJSON_CreateFalse :: "'d dbl \<Rightarrow> 'd cJSON" where
  "cJSON_CreateFalse D = with_type cJSON_False (cJSON_New_Item D)"

definition cJSON_CreateBool :: "'d dbl \<Rightarrow> bool \<Rightarrow> 'd cJSON" where
  "cJSON_CreateBool D b = with_type (if b then cJSON_True else cJSON_False) (cJSON_New_Item D)"

definition saturate :: "'d dbl \<Rightarrow> 'd \<Rightarrow> int" where
  "saturate D d = (if d_ge_max D d then INT_MAX else if d_le_min D d then INT_MIN else d_trunc D d)"

definition cJSON_CreateNumber :: "'d dbl \<Rightarrow> 'd \<Rightarrow> 'd cJSON" where
  "cJSON_CreateNumber D num = CJ cJSON_Number None (saturate D num) num None []"

definition cJSON_SetNumberHelper :: "'d dbl \<Rightarrow> 'd cJSON \<Rightarrow> 'd \<Rightarrow> 'd \<times> 'd cJSON" where
  "cJSON_SetNumberHelper D obj num =
     (num, CJ (cj_type obj) (cj_valuestring obj) (saturate D num) num (cj_string obj) (cj_child obj))"

definition cJSON_strdup :: "bytes option \<Rightarrow> bytes option" where
  "cJSON_strdup s = (case s of None \<Rightarrow> None | Some x \<Rightarrow> Some x)"

text \<open>A null text gives no item.\<close>

definition cJSON_CreateString :: "'d dbl \<Rightarrow> bytes option \<Rightarrow> 'd cJSON option" where
  "cJSON_CreateString D s =
     (case cJSON_strdup s of None \<Rightarrow> None | Some x \<Rightarrow> Some (CJ cJSON_String (Some x) 0 (d_zero D) None []))"

definition cJSON_CreateStringReference :: "'d dbl \<Rightarrow> bytes option \<Rightarrow> 'd cJSON" where
  "cJSON_CreateStringReference D s = CJ (cJSON_String OR cJSON_IsReference) s 0 (d_zero D) None []"

definition cJSON_CreateObjectReference :: "'d dbl \<Rightarrow> 'd cJSON list \<Rightarrow> 'd cJSON" where
  "cJSON_CreateObjectReference D child = with_child child (with_type (cJSON_Object OR cJSON_IsReference) (cJSON_New_Item D))"

definition cJSON_CreateArrayReference :: "'d dbl \<Rightarrow> 'd cJSON list \<Rightarrow> 'd cJSON" where
  "cJSON_CreateArrayReference D child = with_child child (with_type (cJSON_Array OR cJSON_IsReference) (cJSON_New_Item D))"

definition cJSON_CreateRaw :: "'d dbl \<Rightarrow> bytes option \<Rightarrow> 'd cJSON option" where
  "cJSON_CreateRaw D s =
     (case cJSON_strdup s of None \<Rightarrow> None | Some x \<Rightarrow> Some (CJ cJSON_Raw (Some x) 0 (d_zero D) None []))"

definition cJSON_CreateArray :: "'d dbl \<Rightarrow> 'd cJSON" where
  "cJSON_CreateArray D = with_type cJSON_Array (cJSON_New_Item D)"

definition cJSON_CreateObject :: "'d dbl \<Rightarrow> 'd cJSON" where
  "cJSON_CreateObject D = with_type cJSON_Object (cJSON_New_Item D)"

text \<open>The array builders: the elements read are the first \<open>count\<close>; \<open>conv\<close> converts one.\<close>

definition create_number_array :: "'d dbl \<Rightarrow> ('n \<Rightarrow> 'd) \<Rightarrow> 'n list option \<Rightarrow> int \<Rightarrow> 'd cJSON option res" where
  "create_number_array D conv numbers count =
     (case numbers of
        None \<Rightarrow> Inr None
      | Some ns \<Rightarrow>
          if count < 0 then Inr None
          else if length ns < nat count then Inl OutOfBounds
          else Inr (Some (with_child (map (\<lambda>n. cJSON_CreateNumber D (conv n)) (take (nat count) ns)) (cJSON_CreateArray D))))"

fun create_strings :: "'d dbl \<Rightarrow> bytes option list \<Rightarrow> 'd cJSON list option" where
  "create_strings D [] = Some []"
| "create_strings D (s # ss) =
     (case cJSON_CreateString D s of
        None \<Rightarrow> None
      | Some n \<Rightarrow> (case create_strings D ss of None \<Rightarrow> None | Some ns \<Rightarrow> Some (n # ns)))"

definition cJSON_CreateStringArray :: "'d dbl \<Rightarrow> bytes option list option \<Rightarrow> int \<Rightarrow> 'd cJSON option res" where
  "cJSON_CreateStringArray D strings count =
     (case strings of
        None \<Rightarrow> Inr None
      | Some ss \<Rightarrow>
          if count < 0 then Inr None
          else if length ss < nat count then Inl OutOfBounds
          else Inr (map_option (\<lambda>c. with_child c (cJSON_CreateArray D)) (create_strings D (take (nat count) ss))))"

section \<open>Looking up\<close>

definition tolower :: "byte \<Rightarrow> int" where
  "tolower c = (if (65::int) \<le> of_char c \<and> (of_char c :: int) \<le> 90 then of_char c + 32 else of_char c)"

fun case_insensitive_loop :: "bytes \<Rightarrow> bytes \<Rightarrow> int" where
  "case_insensitive_loop [] [] = 0"
| "case_insensitive_loop [] (b # bs) = - tolower b"
| "case_insensitive_loop (a # as) [] = tolower a"
| "case_insensitive_loop (a # as) (b # bs) =
     (if tolower a = tolower b then case_insensitive_loop as bs else tolower a - tolower b)"

definition case_insensitive_strcmp :: "bytes option \<Rightarrow> bytes option \<Rightarrow> int" where
  "case_insensitive_strcmp s1 s2 =
     (case (s1, s2) of (Some a, Some b) \<Rightarrow> case_insensitive_loop a b | _ \<Rightarrow> 1)"

definition cJSON_GetArraySize :: "'d cJSON option \<Rightarrow> int" where
  "cJSON_GetArraySize arr = (case arr of None \<Rightarrow> 0 | Some a \<Rightarrow> int (length (cj_child a)))"

definition get_array_item :: "'d cJSON option \<Rightarrow> nat \<Rightarrow> nat option" where
  "get_array_item arr index =
     (case arr of None \<Rightarrow> None | Some a \<Rightarrow> if index < length (cj_child a) then Some index else None)"

definition cJSON_GetArrayItem :: "'d cJSON option \<Rightarrow> int \<Rightarrow> nat option" where
  "cJSON_GetArrayItem arr index = (if index < 0 then None else get_array_item arr (nat index))"

text \<open>\<open>strcmp\<close> with a child that has no name dereferences a null pointer.\<close>

fun find_name :: "bytes \<Rightarrow> bool \<Rightarrow> 'd cJSON list \<Rightarrow> nat \<Rightarrow> nat option res" where
  "find_name name sens [] k = Inr None"
| "find_name name sens (c # cs) k =
     (if sens then
        (case cj_string c of
           None \<Rightarrow> Inl NullDeref
         | Some s \<Rightarrow> if s = name then Inr (Some k) else find_name name sens cs (Suc k))
      else if case_insensitive_strcmp (Some name) (cj_string c) = 0 then Inr (Some k)
      else find_name name sens cs (Suc k))"

definition get_object_item :: "'d cJSON option \<Rightarrow> bytes option \<Rightarrow> bool \<Rightarrow> nat option res" where
  "get_object_item obj name sens =
     (case (obj, name) of (Some ob, Some n) \<Rightarrow> find_name n sens (cj_child ob) 0 | _ \<Rightarrow> Inr None)"

definition cJSON_GetObjectItem :: "'d cJSON option \<Rightarrow> bytes option \<Rightarrow> nat option res" where
  "cJSON_GetObjectItem obj s = get_object_item obj s False"

definition cJSON_GetObjectItemCaseSensitive :: "'d cJSON option \<Rightarrow> bytes option \<Rightarrow> nat option res" where
  "cJSON_GetObjectItemCaseSensitive obj s = get_object_item obj s True"

definition cJSON_HasObjectItem :: "'d cJSON option \<Rightarrow> bytes option \<Rightarrow> int res" where
  "cJSON_HasObjectItem obj s = res_bind (cJSON_GetObjectItem obj s) (\<lambda>i. Inr (if i \<noteq> None then 1 else 0))"

definition child_at :: "'d cJSON option \<Rightarrow> nat option \<Rightarrow> 'd cJSON option" where
  "child_at obj i = (case (obj, i) of (Some ob, Some k) \<Rightarrow> Some (cj_child ob ! k) | _ \<Rightarrow> None)"

section \<open>Tests of the type\<close>

definition type_is :: "int \<Rightarrow> 'd cJSON option \<Rightarrow> bool" where
  "type_is t item = (case item of None \<Rightarrow> False | Some i \<Rightarrow> cj_type i AND 0xFF = t)"

definition cJSON_IsInvalid :: "'d cJSON option \<Rightarrow> bool" where "cJSON_IsInvalid item = type_is cJSON_Invalid item"
definition cJSON_IsFalse :: "'d cJSON option \<Rightarrow> bool" where "cJSON_IsFalse item = type_is cJSON_False item"
definition cJSON_IsTrue :: "'d cJSON option \<Rightarrow> bool" where "cJSON_IsTrue item = type_is cJSON_True item"
definition cJSON_IsBool :: "'d cJSON option \<Rightarrow> bool" where
  "cJSON_IsBool item = (case item of None \<Rightarrow> False | Some i \<Rightarrow> cj_type i AND (cJSON_True OR cJSON_False) \<noteq> 0)"
definition cJSON_IsNull :: "'d cJSON option \<Rightarrow> bool" where "cJSON_IsNull item = type_is cJSON_NULL item"
definition cJSON_IsNumber :: "'d cJSON option \<Rightarrow> bool" where "cJSON_IsNumber item = type_is cJSON_Number item"
definition cJSON_IsString :: "'d cJSON option \<Rightarrow> bool" where "cJSON_IsString item = type_is cJSON_String item"
definition cJSON_IsArray :: "'d cJSON option \<Rightarrow> bool" where "cJSON_IsArray item = type_is cJSON_Array item"
definition cJSON_IsObject :: "'d cJSON option \<Rightarrow> bool" where "cJSON_IsObject item = type_is cJSON_Object item"
definition cJSON_IsRaw :: "'d cJSON option \<Rightarrow> bool" where "cJSON_IsRaw item = type_is cJSON_Raw item"

definition cJSON_GetStringValue :: "'d cJSON option \<Rightarrow> bytes option" where
  "cJSON_GetStringValue item =
     (if \<not> cJSON_IsString item then None else case item of None \<Rightarrow> None | Some i \<Rightarrow> cj_valuestring i)"

section \<open>Adding\<close>

definition create_reference :: "'d cJSON option \<Rightarrow> 'd cJSON option" where
  "create_reference item =
     map_option (\<lambda>i. with_string None (with_type (cj_type i OR cJSON_IsReference) i)) item"

text \<open>The flag is the returned value; the array or object comes back changed.\<close>

definition add_item_to_array :: "'d cJSON option \<Rightarrow> 'd cJSON option \<Rightarrow> bool \<times> 'd cJSON option" where
  "add_item_to_array arr item =
     (case (arr, item) of
        (Some a, Some i) \<Rightarrow> (True, Some (with_child (cj_child a @ [i]) a))
      | _ \<Rightarrow> (False, arr))"

definition add_item_to_object ::
    "'d cJSON option \<Rightarrow> bytes option \<Rightarrow> 'd cJSON option \<Rightarrow> bool \<Rightarrow> bool \<times> 'd cJSON option" where
  "add_item_to_object obj s item constant_key =
     (case (obj, s, item) of
        (Some ob, Some name, Some i) \<Rightarrow>
          (let new_type = (if constant_key then cj_type i OR cJSON_StringIsConst
                           else cj_type i AND NOT cJSON_StringIsConst)
           in add_item_to_array obj (Some (with_type new_type (with_string (Some name) i))))
      | _ \<Rightarrow> (False, obj))"

definition cJSON_AddItemToArray :: "'d cJSON option \<Rightarrow> 'd cJSON option \<Rightarrow> 'd cJSON option" where
  "cJSON_AddItemToArray arr item = snd (add_item_to_array arr item)"

definition cJSON_AddItemToObject :: "'d cJSON option \<Rightarrow> bytes option \<Rightarrow> 'd cJSON option \<Rightarrow> 'd cJSON option" where
  "cJSON_AddItemToObject obj s item = snd (add_item_to_object obj s item False)"

definition cJSON_AddItemToObjectCS :: "'d cJSON option \<Rightarrow> bytes option \<Rightarrow> 'd cJSON option \<Rightarrow> 'd cJSON option" where
  "cJSON_AddItemToObjectCS obj s item = snd (add_item_to_object obj s item True)"

definition cJSON_AddItemReferenceToArray :: "'d cJSON option \<Rightarrow> 'd cJSON option \<Rightarrow> 'd cJSON option" where
  "cJSON_AddItemReferenceToArray arr item = snd (add_item_to_array arr (create_reference item))"

definition cJSON_AddItemReferenceToObject :: "'d cJSON option \<Rightarrow> bytes option \<Rightarrow> 'd cJSON option \<Rightarrow> 'd cJSON option" where
  "cJSON_AddItemReferenceToObject obj s item = snd (add_item_to_object obj s (create_reference item) False)"

text \<open>The family \<open>cJSON_Add<kind>ToObject\<close>: create, add, give the item back or drop it.\<close>

definition add_created :: "'d cJSON option \<Rightarrow> bytes option \<Rightarrow> 'd cJSON option \<Rightarrow> bool \<times> 'd cJSON option" where
  "add_created obj name item = add_item_to_object obj name item False"

definition cJSON_AddNullToObject :: "'d dbl \<Rightarrow> 'd cJSON option \<Rightarrow> bytes option \<Rightarrow> bool \<times> 'd cJSON option" where
  "cJSON_AddNullToObject D obj name = add_created obj name (Some (cJSON_CreateNull D))"
definition cJSON_AddTrueToObject :: "'d dbl \<Rightarrow> 'd cJSON option \<Rightarrow> bytes option \<Rightarrow> bool \<times> 'd cJSON option" where
  "cJSON_AddTrueToObject D obj name = add_created obj name (Some (cJSON_CreateTrue D))"
definition cJSON_AddFalseToObject :: "'d dbl \<Rightarrow> 'd cJSON option \<Rightarrow> bytes option \<Rightarrow> bool \<times> 'd cJSON option" where
  "cJSON_AddFalseToObject D obj name = add_created obj name (Some (cJSON_CreateFalse D))"
definition cJSON_AddBoolToObject :: "'d dbl \<Rightarrow> 'd cJSON option \<Rightarrow> bytes option \<Rightarrow> bool \<Rightarrow> bool \<times> 'd cJSON option" where
  "cJSON_AddBoolToObject D obj name b = add_created obj name (Some (cJSON_CreateBool D b))"
definition cJSON_AddNumberToObject :: "'d dbl \<Rightarrow> 'd cJSON option \<Rightarrow> bytes option \<Rightarrow> 'd \<Rightarrow> bool \<times> 'd cJSON option" where
  "cJSON_AddNumberToObject D obj name num = add_created obj name (Some (cJSON_CreateNumber D num))"
definition cJSON_AddStringToObject :: "'d dbl \<Rightarrow> 'd cJSON option \<Rightarrow> bytes option \<Rightarrow> bytes option \<Rightarrow> bool \<times> 'd cJSON option" where
  "cJSON_AddStringToObject D obj name s = add_created obj name (cJSON_CreateString D s)"
definition cJSON_AddRawToObject :: "'d dbl \<Rightarrow> 'd cJSON option \<Rightarrow> bytes option \<Rightarrow> bytes option \<Rightarrow> bool \<times> 'd cJSON option" where
  "cJSON_AddRawToObject D obj name raw = add_created obj name (cJSON_CreateRaw D raw)"
definition cJSON_AddObjectToObject :: "'d dbl \<Rightarrow> 'd cJSON option \<Rightarrow> bytes option \<Rightarrow> bool \<times> 'd cJSON option" where
  "cJSON_AddObjectToObject D obj name = add_created obj name (Some (cJSON_CreateObject D))"
definition cJSON_AddArrayToObject :: "'d dbl \<Rightarrow> 'd cJSON option \<Rightarrow> bytes option \<Rightarrow> bool \<times> 'd cJSON option" where
  "cJSON_AddArrayToObject D obj name = add_created obj name (Some (cJSON_CreateArray D))"

definition cJSON_CreateIntArray :: "'d dbl \<Rightarrow> (int \<Rightarrow> 'd) \<Rightarrow> int list option \<Rightarrow> int \<Rightarrow> 'd cJSON option res" where
  "cJSON_CreateIntArray D int2d numbers count = create_number_array D int2d numbers count"
definition cJSON_CreateFloatArray :: "'d dbl \<Rightarrow> ('f \<Rightarrow> 'd) \<Rightarrow> 'f list option \<Rightarrow> int \<Rightarrow> 'd cJSON option res" where
  "cJSON_CreateFloatArray D float2d numbers count = create_number_array D float2d numbers count"
definition cJSON_CreateDoubleArray :: "'d dbl \<Rightarrow> 'd list option \<Rightarrow> int \<Rightarrow> 'd cJSON option res" where
  "cJSON_CreateDoubleArray D numbers count = create_number_array D (\<lambda>d. d) numbers count"

section \<open>Taking out, inserting and replacing\<close>

text \<open>The item is given by its index in the parent; the result is the item and the parent without it.\<close>

definition cJSON_DetachItemViaPointer ::
    "'d cJSON option \<Rightarrow> nat option \<Rightarrow> 'd cJSON option \<times> 'd cJSON option" where
  "cJSON_DetachItemViaPointer parent item =
     (case (parent, item) of
        (Some p, Some k) \<Rightarrow>
          (Some (cj_child p ! k), Some (with_child (take k (cj_child p) @ drop (Suc k) (cj_child p)) p))
      | _ \<Rightarrow> (None, parent))"

definition cJSON_DetachItemFromArray :: "'d cJSON option \<Rightarrow> int \<Rightarrow> 'd cJSON option \<times> 'd cJSON option" where
  "cJSON_DetachItemFromArray arr which =
     (if which < 0 then (None, arr) else cJSON_DetachItemViaPointer arr (get_array_item arr (nat which)))"

definition cJSON_DeleteItemFromArray :: "'d cJSON option \<Rightarrow> int \<Rightarrow> 'd cJSON option" where
  "cJSON_DeleteItemFromArray arr which = snd (cJSON_DetachItemFromArray arr which)"

definition cJSON_DetachItemFromObject ::
    "'d cJSON option \<Rightarrow> bytes option \<Rightarrow> ('d cJSON option \<times> 'd cJSON option) res" where
  "cJSON_DetachItemFromObject obj s =
     res_bind (cJSON_GetObjectItem obj s) (\<lambda>i. Inr (cJSON_DetachItemViaPointer obj i))"

definition cJSON_DetachItemFromObjectCaseSensitive ::
    "'d cJSON option \<Rightarrow> bytes option \<Rightarrow> ('d cJSON option \<times> 'd cJSON option) res" where
  "cJSON_DetachItemFromObjectCaseSensitive obj s =
     res_bind (cJSON_GetObjectItemCaseSensitive obj s) (\<lambda>i. Inr (cJSON_DetachItemViaPointer obj i))"

definition cJSON_DeleteItemFromObject :: "'d cJSON option \<Rightarrow> bytes option \<Rightarrow> 'd cJSON option res" where
  "cJSON_DeleteItemFromObject obj s = res_bind (cJSON_DetachItemFromObject obj s) (\<lambda>r. Inr (snd r))"

definition cJSON_DeleteItemFromObjectCaseSensitive :: "'d cJSON option \<Rightarrow> bytes option \<Rightarrow> 'd cJSON option res" where
  "cJSON_DeleteItemFromObjectCaseSensitive obj s =
     res_bind (cJSON_DetachItemFromObjectCaseSensitive obj s) (\<lambda>r. Inr (snd r))"

definition cJSON_InsertItemInArray :: "'d cJSON option \<Rightarrow> int \<Rightarrow> 'd cJSON option \<Rightarrow> 'd cJSON option res" where
  "cJSON_InsertItemInArray arr which newitem =
     (if which < 0 then Inr arr
      else case get_array_item arr (nat which) of
             None \<Rightarrow> Inr (snd (add_item_to_array arr newitem))
           | Some k \<Rightarrow>
               (case (arr, newitem) of
                  (Some a, Some n) \<Rightarrow> Inr (Some (with_child (take k (cj_child a) @ n # drop k (cj_child a)) a))
                | _ \<Rightarrow> Inl NullDeref))"

definition cJSON_ReplaceItemViaPointer ::
    "'d cJSON option \<Rightarrow> nat option \<Rightarrow> 'd cJSON option \<Rightarrow> bool \<times> 'd cJSON option" where
  "cJSON_ReplaceItemViaPointer parent item replacement =
     (case (parent, item, replacement) of
        (Some p, Some k, Some r) \<Rightarrow> (True, Some (with_child ((cj_child p)[k := r]) p))
      | _ \<Rightarrow> (False, parent))"

definition cJSON_ReplaceItemInArray :: "'d cJSON option \<Rightarrow> int \<Rightarrow> 'd cJSON option \<Rightarrow> 'd cJSON option" where
  "cJSON_ReplaceItemInArray arr which newitem =
     (if which < 0 then arr else snd (cJSON_ReplaceItemViaPointer arr (get_array_item arr (nat which)) newitem))"

definition replace_item_in_object ::
    "'d cJSON option \<Rightarrow> bytes option \<Rightarrow> 'd cJSON option \<Rightarrow> bool \<Rightarrow> (bool \<times> 'd cJSON option) res" where
  "replace_item_in_object obj s replacement sens =
     (case (replacement, s) of
        (Some r, Some name) \<Rightarrow>
          (let r' = with_type (cj_type r AND NOT cJSON_StringIsConst) (with_string (cJSON_strdup (Some name)) r)
           in res_bind (get_object_item obj s sens) (\<lambda>i.
                Inr (True, snd (cJSON_ReplaceItemViaPointer obj i (Some r')))))
      | _ \<Rightarrow> Inr (False, obj))"

definition cJSON_ReplaceItemInObject :: "'d cJSON option \<Rightarrow> bytes option \<Rightarrow> 'd cJSON option \<Rightarrow> 'd cJSON option res" where
  "cJSON_ReplaceItemInObject obj s newitem = res_bind (replace_item_in_object obj s newitem False) (\<lambda>r. Inr (snd r))"

definition cJSON_ReplaceItemInObjectCaseSensitive ::
    "'d cJSON option \<Rightarrow> bytes option \<Rightarrow> 'd cJSON option \<Rightarrow> 'd cJSON option res" where
  "cJSON_ReplaceItemInObjectCaseSensitive obj s newitem =
     res_bind (replace_item_in_object obj s newitem True) (\<lambda>r. Inr (snd r))"

section \<open>Duplicating\<close>

fun duplicate_rec :: "'d cJSON \<Rightarrow> 'd cJSON" where
  "duplicate_rec (CJ t vs vi vd nm cs) =
     CJ (t AND NOT cJSON_IsReference) (cJSON_strdup vs) vi vd
       (if t AND cJSON_StringIsConst \<noteq> 0 then nm else cJSON_strdup nm) (map duplicate_rec cs)"

definition cJSON_Duplicate :: "'d cJSON option \<Rightarrow> bool \<Rightarrow> 'd cJSON option" where
  "cJSON_Duplicate item recurse =
     (case item of
        None \<Rightarrow> None
      | Some i \<Rightarrow> if recurse then Some (duplicate_rec i) else Some (duplicate_rec (with_child [] i)))"

section \<open>Comparing\<close>

text \<open>
  \<open>n\<close> bounds the depth of the recursion; \<open>None\<close> is an exhausted bound (\<open>cJSON_Compare\<close> gives
  enough, see below).  The recursion swaps the two items for the second pass over an object.
\<close>

fun compare_children ::
    "('d cJSON \<Rightarrow> 'd cJSON \<Rightarrow> bool res option) \<Rightarrow> 'd cJSON list \<Rightarrow> 'd cJSON list \<Rightarrow> bool res option" where
  "compare_children cmp [] [] = Some (Inr True)"
| "compare_children cmp (a # as) (b # bs) =
     (case cmp a b of
        Some (Inr True) \<Rightarrow> compare_children cmp as bs
      | r \<Rightarrow> r)"
| "compare_children cmp _ _ = Some (Inr False)"

fun compare_members ::
    "('d cJSON \<Rightarrow> 'd cJSON \<Rightarrow> bool res option) \<Rightarrow> bool \<Rightarrow> 'd cJSON \<Rightarrow> 'd cJSON list \<Rightarrow> bool res option" where
  "compare_members cmp sens b [] = Some (Inr True)"
| "compare_members cmp sens b (a # as) =
     (case get_object_item (Some b) (cj_string a) sens of
        Inl e \<Rightarrow> Some (Inl e)
      | Inr None \<Rightarrow> Some (Inr False)
      | Inr (Some k) \<Rightarrow>
          (case cmp a (cj_child b ! k) of
             Some (Inr True) \<Rightarrow> compare_members cmp sens b as
           | r \<Rightarrow> r))"

fun compare_rec :: "nat \<Rightarrow> 'd dbl \<Rightarrow> bool \<Rightarrow> 'd cJSON \<Rightarrow> 'd cJSON \<Rightarrow> bool res option" where
  "compare_rec 0 D sens a b = None"
| "compare_rec (Suc n) D sens a b =
     (let t = cj_type a AND 0xFF
      in if t \<noteq> cj_type b AND 0xFF \<or> cJSON_IsInvalid (Some a) then Some (Inr False)
         else if t \<notin> {cJSON_False, cJSON_True, cJSON_NULL, cJSON_Number, cJSON_String, cJSON_Raw, cJSON_Array, cJSON_Object}
         then Some (Inr False)
         else if t = cJSON_False \<or> t = cJSON_True \<or> t = cJSON_NULL then Some (Inr True)
         else if t = cJSON_Number then Some (Inr (d_eq D (cj_valuedouble a) (cj_valuedouble b)))
         else if t = cJSON_String \<or> t = cJSON_Raw then
           Some (Inr (cj_valuestring a \<noteq> None \<and> cj_valuestring a = cj_valuestring b))
         else if t = cJSON_Array then compare_children (compare_rec n D sens) (cj_child a) (cj_child b)
         else (case compare_members (compare_rec n D sens) sens b (cj_child a) of
                 Some (Inr True) \<Rightarrow> compare_members (compare_rec n D sens) sens a (cj_child b)
               | r \<Rightarrow> r))"

text \<open>
  \<open>same\<close> says that both arguments are one object; children of distinct items are distinct, so the recursion
  never meets equal pointers.
\<close>

definition cJSON_Compare :: "'d dbl \<Rightarrow> bool \<Rightarrow> 'd cJSON option \<Rightarrow> 'd cJSON option \<Rightarrow> bool \<Rightarrow> bool res option" where
  "cJSON_Compare D same a b sens =
     (case (a, b) of
        (Some x, Some y) \<Rightarrow>
          if same \<and> \<not> cJSON_IsInvalid (Some x) \<and>
            cj_type x AND 0xFF \<in> {cJSON_False, cJSON_True, cJSON_NULL, cJSON_Number, cJSON_String, cJSON_Raw, cJSON_Array, cJSON_Object}
          then Some (Inr True)
          else compare_rec (Suc (size x + size y)) D sens x y
      | _ \<Rightarrow> Some (Inr False))"

section \<open>Minifying\<close>

text \<open>
  The text is the string before its terminating zero.  A pointer that steps past the zero is
  \<open>OutOfBounds\<close>.  \<open>minify_str\<close> copies a literal from behind its opening quote, \<open>skip_block\<close>
  skips a comment from its first character.
\<close>

fun minify_str :: "bytes \<Rightarrow> (bytes \<times> bytes) res" where
  "minify_str [] = Inl OutOfBounds"
| "minify_str (c # r) =
     (if c = CHR 0x22 then Inr ([c], r)
      else if c = CHR 0x5C then
        (case r of
           [] \<Rightarrow> Inl OutOfBounds
         | d # r' \<Rightarrow> res_bind (minify_str r') (\<lambda>(t, rest). Inr (c # d # t, rest)))
      else res_bind (minify_str r) (\<lambda>(t, rest). Inr (c # t, rest)))"

fun skip_block :: "bytes \<Rightarrow> bytes res" where
  "skip_block [] = Inl OutOfBounds"
| "skip_block (c # r) =
     (if c = CHR ''*'' \<and> (case r of [] \<Rightarrow> False | d # _ \<Rightarrow> d = CHR ''/'') then Inr (drop 1 r) else skip_block r)"

lemma minify_str_length: "minify_str r = Inr (t, rest) \<Longrightarrow> length rest < length r"
proof (induction r arbitrary: t rule: minify_str.induct)
  case (2 c r)
  then show ?case
    by (auto simp: res_bind_eq_Inr split: if_splits list.splits) (force+)
qed simp

lemma skip_block_length: "skip_block r = Inr rest \<Longrightarrow> length rest < length r"
  by (induction r) (auto split: if_splits)

function cJSON_Minify :: "bytes \<Rightarrow> bytes res" where
  "cJSON_Minify [] = Inr []"
| "cJSON_Minify (c # r) =
     (if c = CHR '' '' \<or> c = CHR 0x09 \<or> c = CHR 0x0D \<or> c = CHR 0x0A then cJSON_Minify r
      else if c = CHR ''/'' \<and> take 1 r = ''/'' then cJSON_Minify (dropWhile (\<lambda>x. x \<noteq> CHR 0x0A) r)
      else if c = CHR ''/'' \<and> take 1 r = ''*'' then
        (case skip_block (c # r) of Inl e \<Rightarrow> Inl e | Inr rest \<Rightarrow> cJSON_Minify rest)
      else if c = CHR 0x22 then
        (case minify_str r of Inl e \<Rightarrow> Inl e
         | Inr tr \<Rightarrow> res_bind (cJSON_Minify (snd tr)) (\<lambda>u. Inr (c # fst tr @ u)))
      else res_bind (cJSON_Minify r) (\<lambda>u. Inr (c # u)))"
  by pat_completeness auto

termination
proof (relation "measure length")
  fix c :: byte and r rest :: bytes
  show "skip_block (c # r) = Inr rest \<Longrightarrow> (rest, c # r) \<in> measure length"
    using skip_block_length by fastforce
next
  fix c :: byte and r :: bytes and tr
  show "minify_str r = Inr tr \<Longrightarrow> (snd tr, c # r) \<in> measure length"
    using minify_str_length [of r "fst tr" "snd tr"] by simp
qed (auto simp: le_imp_less_Suc length_dropWhile_le)

section \<open>Looking up by name\<close>

definition ci_eq :: "bytes \<Rightarrow> bytes \<Rightarrow> bool" where
  "ci_eq a b \<longleftrightarrow> case_insensitive_loop a b = 0"

lemma tolower_pos: "c \<noteq> NUL \<Longrightarrow> 0 < tolower c"
  using of_char_int_range [of c] of_char_eq_iff [of c NUL, where 'a = int]
  by (auto simp: tolower_def order_less_le)

lemma case_insensitive_map:
  "NUL \<notin> set a \<Longrightarrow> NUL \<notin> set b \<Longrightarrow> case_insensitive_loop a b = 0 \<longleftrightarrow> map tolower a = map tolower b"
proof (induction a b rule: case_insensitive_loop.induct)
  case (2 b bs)
  then show ?case using tolower_pos [of b] by auto
next
  case (3 a as)
  then show ?case using tolower_pos [of a] by auto
qed auto

lemma ci_loop_refl [simp]: "case_insensitive_loop a a = 0"
  by (induction a) auto

fun index_of :: "('a \<Rightarrow> bool) \<Rightarrow> 'a list \<Rightarrow> nat option" where
  "index_of P [] = None"
| "index_of P (x # xs) = (if P x then Some 0 else map_option Suc (index_of P xs))"

lemma plus_0_id: "(+) (0::nat) = id"
  by (simp add: fun_eq_iff)

lemma index_of_append:
  "index_of P (xs @ ys) = (case index_of P xs of Some k \<Rightarrow> Some k | None \<Rightarrow> map_option ((+) (length xs)) (index_of P ys))"
proof (induction xs)
  case Nil
  show ?case by (simp add: plus_0_id option.map_id)
next
  case (Cons x xs)
  then show ?case by (cases "index_of P xs"; cases "index_of P ys") auto
qed

lemma index_of_Some: "index_of P xs = Some k \<Longrightarrow> k < length xs \<and> P (xs ! k)"
  by (induction xs arbitrary: k) (auto split: if_splits)

lemma index_of_None: "index_of P xs = None \<longleftrightarrow> (\<forall>x\<in>set xs. \<not> P x)"
  by (induction xs) auto

definition name_is :: "bytes \<Rightarrow> 'd cJSON \<Rightarrow> bool" where
  "name_is n c \<longleftrightarrow> case_insensitive_strcmp (Some n) (cj_string c) = 0"

lemma find_name_insensitive:
  "find_name n False cs k = Inr (map_option ((+) k) (index_of (name_is n) cs))"
proof (induction cs arbitrary: k)
  case (Cons c cs)
  then show ?case by (cases "index_of (name_is n) cs") (auto simp: name_is_def [symmetric])
qed simp

lemma get_object_item_insensitive [simp]:
  "get_object_item (Some ob) (Some n) False = Inr (index_of (name_is n) (cj_child ob))"
  by (simp add: get_object_item_def find_name_insensitive plus_0_id option.map_id)

lemma find_name_bound: "find_name n sens cs k = Inr (Some j) \<Longrightarrow> k \<le> j \<and> j < k + length cs"
  by (induction cs arbitrary: k) (force split: if_splits option.splits)+

section \<open>The interface: a dictionary whose first entry wins\<close>

locale dictionary =
  fixes get :: "'o \<Rightarrow> 'k \<Rightarrow> 'v option"
    and put :: "'k \<Rightarrow> 'v \<Rightarrow> 'o \<Rightarrow> 'o"
    and tag :: "'k \<Rightarrow> 'v \<Rightarrow> 'v"
    and same :: "'k \<Rightarrow> 'k \<Rightarrow> bool"
  assumes get_put: "get (put k v ob) k' =
      (case get ob k' of Some w \<Rightarrow> Some w | None \<Rightarrow> if same k' k then Some (tag k v) else None)"
begin

fun put_all :: "('k \<times> 'v) list \<Rightarrow> 'o \<Rightarrow> 'o" where
  "put_all [] ob = ob"
| "put_all ((k, v) # kvs) ob = put_all kvs (put k v ob)"

fun first_entry :: "('k \<times> 'v) list \<Rightarrow> 'k \<Rightarrow> 'v option" where
  "first_entry [] k' = None"
| "first_entry ((k, v) # kvs) k' = (if same k' k then Some (tag k v) else first_entry kvs k')"

lemma get_put_all:
  "get (put_all kvs ob) k' = (case get ob k' of Some w \<Rightarrow> Some w | None \<Rightarrow> first_entry kvs k')"
proof (induction kvs arbitrary: ob)
  case Nil
  show ?case by (simp split: option.split)
next
  case (Cons kv kvs)
  then show ?case by (cases kv) (auto simp: get_put split: option.split)
qed

end

definition obj_get :: "'d cJSON \<Rightarrow> bytes \<Rightarrow> 'd cJSON option" where
  "obj_get ob n = map_option ((!) (cj_child ob)) (index_of (name_is n) (cj_child ob))"

definition obj_put :: "bytes \<Rightarrow> 'd cJSON \<Rightarrow> 'd cJSON \<Rightarrow> 'd cJSON" where
  "obj_put n i ob = the (cJSON_AddItemToObject (Some ob) (Some n) (Some i))"

definition named :: "bytes \<Rightarrow> 'd cJSON \<Rightarrow> 'd cJSON" where
  "named n i = with_type (cj_type i AND NOT cJSON_StringIsConst) (with_string (Some n) i)"

lemma add_item_to_object_Some:
  "add_item_to_object (Some ob) (Some n) (Some i) False = (True, Some (with_child (cj_child ob @ [named n i]) ob))"
  by (simp add: add_item_to_object_def add_item_to_array_def named_def Let_def)

lemma obj_put_child: "cj_child (obj_put n i ob) = cj_child ob @ [named n i]"
  by (simp add: obj_put_def cJSON_AddItemToObject_def add_item_to_object_Some)

lemma name_is_named [simp]: "name_is k' (named k i) \<longleftrightarrow> ci_eq k' k"
  by (simp add: name_is_def named_def case_insensitive_strcmp_def ci_eq_def)

lemma obj_get_put:
  "obj_get (obj_put k v ob) k' =
     (case obj_get ob k' of Some w \<Rightarrow> Some w | None \<Rightarrow> if ci_eq k' k then Some (named k v) else None)"
proof (cases "index_of (name_is k') (cj_child ob)")
  case None
  then show ?thesis by (simp add: obj_get_def obj_put_child index_of_append)
next
  case (Some i)
  with index_of_Some [OF Some] show ?thesis
    by (simp add: obj_get_def obj_put_child index_of_append nth_append)
qed

interpretation dict: dictionary obj_get obj_put named ci_eq
  by unfold_locales (rule obj_get_put)

section \<open>The bound of \<open>cJSON_Compare\<close> is enough\<close>

lemma size_child: "c \<in> set (cj_child x) \<Longrightarrow> size c < size x"
  by (cases x) (auto dest: size_list_estimation' [where f = size, OF _ order_refl] simp: less_Suc_eq_le trans_le_add2)

lemma compare_children_total:
  "(\<And>x y. x \<in> set as \<Longrightarrow> y \<in> set bs \<Longrightarrow> cmp x y \<noteq> None) \<Longrightarrow> compare_children cmp as bs \<noteq> None"
  by (induction cmp as bs rule: compare_children.induct) (force split: option.splits sum.splits bool.splits)+

lemma compare_members_total:
  assumes "\<And>x y. x \<in> set as \<Longrightarrow> y \<in> set (cj_child b) \<Longrightarrow> cmp x y \<noteq> None"
  shows "compare_members cmp sens b as \<noteq> None"
  using assms
proof (induction as)
  case (Cons a as)
  have "cmp a (cj_child b ! k) \<noteq> None" if "get_object_item (Some b) (cj_string a) sens = Inr (Some k)" for k
  proof -
    from that have "k < length (cj_child b)"
      by (auto simp: get_object_item_def dest: find_name_bound split: option.splits)
    with Cons.prems show ?thesis by simp
  qed
  with Cons show ?case by (auto split: sum.split option.split bool.split)
qed simp

lemma compare_rec_total: "size a + size b < n \<Longrightarrow> compare_rec n D sens a b \<noteq> None"
proof (induction n arbitrary: a b)
  case (Suc n)
  have c: "compare_rec n D sens x y \<noteq> None"
    if "x \<in> set (cj_child a) \<and> y \<in> set (cj_child b) \<or> x \<in> set (cj_child b) \<and> y \<in> set (cj_child a)" for x y
    using that size_child [of x a] size_child [of y b] size_child [of x b] size_child [of y a] Suc.prems
    by (intro Suc.IH) linarith
  have 1: "compare_children (compare_rec n D sens) (cj_child a) (cj_child b) \<noteq> None"
    by (rule compare_children_total) (use c in blast)
  have 2: "compare_members (compare_rec n D sens) sens b (cj_child a) \<noteq> None"
    by (rule compare_members_total) (use c in blast)
  have 3: "compare_members (compare_rec n D sens) sens a (cj_child b) \<noteq> None"
    by (rule compare_members_total) (use c in blast)
  from 1 2 3 show ?case by (auto simp: Let_def split: option.split sum.split bool.split)
qed simp

section \<open>A duplicate compares equal\<close>

definition names_ok :: "'d cJSON list \<Rightarrow> bool" where
  "names_ok cs \<longleftrightarrow> list_all (\<lambda>i. case cj_string (cs ! i) of None \<Rightarrow> False
     | Some n \<Rightarrow> index_of (name_is n) cs = Some i) [0..<length cs]"

fun json_wf :: "'d dbl \<Rightarrow> 'd cJSON \<Rightarrow> bool" where
  "json_wf D (CJ t vs vi vd nm cs) \<longleftrightarrow>
     t AND 255 \<in> {1, 2, 4, 8, 16, 32, 64, 128} \<and> (t AND 255 = 8 \<longrightarrow> d_eq D vd vd) \<and>
     (t AND 255 = 16 \<or> t AND 255 = 128 \<longrightarrow> vs \<noteq> None) \<and> (t AND 255 = 64 \<longrightarrow> names_ok cs) \<and>
     list_all (json_wf D) cs"

lemma cJSON_strdup_id [simp]: "cJSON_strdup s = s"
  by (simp add: cJSON_strdup_def split: option.split)

lemma duplicate_sel [simp]:
  "cj_string (duplicate_rec x) = cj_string x" "cj_valuestring (duplicate_rec x) = cj_valuestring x"
  "cj_valuedouble (duplicate_rec x) = cj_valuedouble x" "cj_child (duplicate_rec x) = map duplicate_rec (cj_child x)"
  "cj_type (duplicate_rec x) = cj_type x AND NOT 256"
  by (cases x; simp)+

lemma type_mask [simp]: "(t AND NOT 256) AND 255 = t AND (255 :: int)"
  by (simp add: and.assoc)

lemma type_mask_numeral [simp]: "(t AND -257) AND 255 = t AND (255 :: int)"
  by (simp add: and.assoc)

lemma name_is_duplicate [simp]: "name_is n (duplicate_rec c) = name_is n c"
  by (simp add: name_is_def)

lemma index_of_map [simp]: "index_of P (map f xs) = index_of (\<lambda>x. P (f x)) xs"
  by (induction xs) auto

lemma compare_children_map:
  "(\<And>a. a \<in> set as \<Longrightarrow> cmp a (f a) = Some (Inr True)) \<Longrightarrow> compare_children cmp as (map f as) = Some (Inr True)"
  "(\<And>a. a \<in> set as \<Longrightarrow> cmp (f a) a = Some (Inr True)) \<Longrightarrow> compare_children cmp (map f as) as = Some (Inr True)"
  by (induction as) auto

lemma compare_members_all:
  "(\<And>a. a \<in> set as \<Longrightarrow> \<exists>n k. cj_string a = Some n \<and> index_of (name_is n) (cj_child b) = Some k \<and>
      cmp a (cj_child b ! k) = Some (Inr True)) \<Longrightarrow> compare_members cmp False b as = Some (Inr True)"
proof (induction as)
  case (Cons a as)
  from Cons.prems [of a] obtain n k where
    "cj_string a = Some n" "index_of (name_is n) (cj_child b) = Some k" "cmp a (cj_child b ! k) = Some (Inr True)" by auto
  with Cons show ?case by simp
qed simp

lemma compare_objects_dup:
  assumes "names_ok cs" and "\<And>c. c \<in> set cs \<Longrightarrow> cmp c (duplicate_rec c) = Some (Inr True)"
    and "\<And>c. c \<in> set cs \<Longrightarrow> cmp (duplicate_rec c) c = Some (Inr True)"
    and "cj_child x = cs" and "cj_child y = map duplicate_rec cs"
  shows "compare_members cmp False y cs = Some (Inr True)"
    and "compare_members cmp False x (map duplicate_rec cs) = Some (Inr True)"
proof -
  have nm: "\<exists>n i. i < length cs \<and> c = cs ! i \<and> cj_string c = Some n \<and> index_of (name_is n) cs = Some i"
    if "c \<in> set cs" for c
    using that assms(1) by (fastforce simp: in_set_conv_nth names_ok_def list_all_iff split: option.splits)
  show "compare_members cmp False y cs = Some (Inr True)"
    by (rule compare_members_all) (use nm assms(2,5) in fastforce)
  show "compare_members cmp False x (map duplicate_rec cs) = Some (Inr True)"
    by (rule compare_members_all) (use nm assms(3,4) in fastforce)
qed

lemma compare_rec_dup:
  "size x < n \<Longrightarrow> json_wf D x \<Longrightarrow>
     compare_rec n D False x (duplicate_rec x) = Some (Inr True) \<and>
     compare_rec n D False (duplicate_rec x) x = Some (Inr True)"
proof (induction n arbitrary: x)
  case (Suc n)
  obtain t vs vi vd nm cs where x: "x = CJ t vs vi vd nm cs" by (cases x)
  have c: "compare_rec n D False c (duplicate_rec c) = Some (Inr True)"
    "compare_rec n D False (duplicate_rec c) c = Some (Inr True)" if "c \<in> set cs" for c
    using Suc.IH [of c] that size_child [of c x] Suc.prems by (auto simp: x list_all_iff)
  have ch: "compare_children (compare_rec n D False) cs (map duplicate_rec cs) = Some (Inr True)"
    "compare_children (compare_rec n D False) (map duplicate_rec cs) cs = Some (Inr True)"
    by (rule compare_children_map, use c in blast)+
  have ob: "compare_members (compare_rec n D False) False (duplicate_rec x) cs = Some (Inr True)"
    "compare_members (compare_rec n D False) False x (map duplicate_rec cs) = Some (Inr True)" if "t AND 255 = 64"
    by (rule compare_objects_dup [where x = x and y = "duplicate_rec x" and cs = cs]; use c Suc.prems(2) that in \<open>simp add: x\<close>)+
  define m where "m = t AND 255"
  define y where "y = duplicate_rec x"
  have sel: "cj_type x AND 255 = m" "cj_child x = cs" "cj_valuestring x = vs" "cj_valuedouble x = vd"
    by (simp_all add: x m_def)
  have selY: "cj_type y AND 255 = m" "cj_child y = map duplicate_rec cs" "cj_valuestring y = vs" "cj_valuedouble y = vd"
    unfolding y_def using sel by simp_all
  have m: "m \<in> {1, 2, 4, 8, 16, 32, 64, 128}" and wf: "m = 8 \<longrightarrow> d_eq D vd vd"
    "m = 16 \<or> m = 128 \<longrightarrow> vs \<noteq> None" using Suc.prems(2) by (auto simp: x m_def)
  note ob' = ob [folded m_def y_def]
  have inv: "\<not> cJSON_IsInvalid (Some x)" "\<not> cJSON_IsInvalid (Some y)"
    using m sel(1) selY(1) by (auto simp: cJSON_IsInvalid_def type_is_def)
  show ?case unfolding y_def [symmetric] compare_rec.simps(2) Let_def
    using m wf ch ob' inv by (simp add: sel selY) (elim disjE; simp)
qed simp

section \<open>Properties\<close>

text \<open>Doubles as integers, for the concrete cases.\<close>

definition int_dbl :: "int dbl" where
  "int_dbl = \<lparr>d_zero = 0, d_strtod = (\<lambda>_. (0, 0)), d_ge_max = (\<lambda>d. d \<ge> INT_MAX), d_le_min = (\<lambda>d. d \<le> INT_MIN),
     d_trunc = (\<lambda>d. d), d_nonfinite = (\<lambda>_. False), d_fmt15 = dec_int, d_fmt17 = dec_int,
     d_scan = (\<lambda>_. None), d_eq = (=)\<rparr>"

definition jstr :: "bytes \<Rightarrow> int cJSON" where
  "jstr s = CJ cJSON_String (Some s) 0 0 None []"



definition ex_json :: "int cJSON" where
  "ex_json = with_child [named ''dst'' (jstr ''rf''), named ''n'' (CJ cJSON_Number None 3 3 None [])]
     (cJSON_CreateObject int_dbl)"


lemma with_child_with_child [simp]: "with_child c (with_child d i) = with_child c i"
  by (simp add: with_child_def)

lemma with_child_same [simp]: "with_child (cj_child i) i = i"
  by (simp add: with_child_def)

text \<open>
  Inserting into an array at any position up to its size puts the item there and
  shifts the rest, replacing it changes that position only, and detaching it gives the item back
  and restores the array.
\<close>
lemma array_insert_detach:
  assumes "k \<le> length (cj_child a)"
  shows "\<exists>a'. cJSON_InsertItemInArray (Some a) (int k) (Some i) = Inr (Some a') \<and>
    cj_child a' = take k (cj_child a) @ i # drop k (cj_child a) \<and>
    cJSON_GetArraySize (Some a') = cJSON_GetArraySize (Some a) + 1 \<and>
    cJSON_GetArrayItem (Some a') (int k) = Some k \<and>
    map_option cj_child (cJSON_ReplaceItemInArray (Some a') (int k) (Some r)) =
      Some (take k (cj_child a) @ r # drop k (cj_child a)) \<and>
    cJSON_DetachItemFromArray (Some a') (int k) = (Some i, Some a)"
proof -
  let ?a' = "with_child (take k (cj_child a) @ i # drop k (cj_child a)) a"
  have "cJSON_InsertItemInArray (Some a) (int k) (Some i) = Inr (Some ?a')"
    using assms by (auto simp: cJSON_InsertItemInArray_def get_array_item_def add_item_to_array_def)
  moreover have "cJSON_DetachItemFromArray (Some ?a') (int k) = (Some i, Some a)"
    using assms by (simp add: cJSON_DetachItemFromArray_def get_array_item_def cJSON_DetachItemViaPointer_def nth_append)
  moreover have "map_option cj_child (cJSON_ReplaceItemInArray (Some ?a') (int k) (Some r)) =
      Some (take k (cj_child a) @ r # drop k (cj_child a))"
    using assms by (simp add: cJSON_ReplaceItemInArray_def get_array_item_def cJSON_ReplaceItemViaPointer_def list_update_append)
  ultimately show ?thesis
    using assms by (intro exI [of _ ?a']) (simp add: cJSON_GetArraySize_def cJSON_GetArrayItem_def get_array_item_def)
qed

lemma array_insert_detach_witness:
  "\<exists>a'. cJSON_InsertItemInArray (Some ex_json) (int 1) (Some (jstr ''x'')) = Inr (Some a') \<and>
    cJSON_DetachItemFromArray (Some a') (int 1) = (Some (jstr ''x''), Some ex_json)"
  using array_insert_detach [of 1 ex_json "jstr ''x''" "jstr ''y''"] by (auto simp: ex_json_def)

lemma skip_block_open: "\<not> strstr s ''*/'' \<Longrightarrow> skip_block s = Inl OutOfBounds"
proof (induction s)
  case (Cons c r)
  then have "\<not> strstr r ''*/''" "\<not> (c = CHR ''*'' \<and> take 1 r = ''/'')" by (subst (asm) (1 2) strstr.simps, simp)+
  with Cons.IH show ?case by (cases r) auto
qed simp

lemma minify_str_open: "CHR 0x22 \<notin> set r \<Longrightarrow> minify_str r = Inl OutOfBounds"
  by (induction r rule: minify_str.induct) (auto split: list.split)

lemma minify_str_sum: "minify_str r = Inr (t, rest) \<Longrightarrow> length t + length rest \<le> length r"
proof (induction r arbitrary: t rule: minify_str.induct)
  case (2 c r)
  then show ?case by (auto simp: res_bind_eq_Inr split: if_splits list.splits)
qed simp

lemma cJSON_Minify_length: "cJSON_Minify s = Inr out \<Longrightarrow> length out \<le> length s"
proof (induction s arbitrary: out rule: cJSON_Minify.induct)
  case (2 c r)
  consider (ws) "c = CHR '' '' \<or> c = CHR 0x09 \<or> c = CHR 0x0D \<or> c = CHR 0x0A"
    | (line) "\<not> (c = CHR '' '' \<or> c = CHR 0x09 \<or> c = CHR 0x0D \<or> c = CHR 0x0A)" "c = CHR ''/'' \<and> take 1 r = ''/''"
    | (block) "\<not> (c = CHR '' '' \<or> c = CHR 0x09 \<or> c = CHR 0x0D \<or> c = CHR 0x0A)"
        "\<not> (c = CHR ''/'' \<and> take 1 r = ''/'')" "c = CHR ''/'' \<and> take 1 r = ''*''"
    | (str) "\<not> (c = CHR '' '' \<or> c = CHR 0x09 \<or> c = CHR 0x0D \<or> c = CHR 0x0A)"
        "\<not> (c = CHR ''/'' \<and> take 1 r = ''/'')" "\<not> (c = CHR ''/'' \<and> take 1 r = ''*'')" "c = CHR 0x22"
    | (other) "\<not> (c = CHR '' '' \<or> c = CHR 0x09 \<or> c = CHR 0x0D \<or> c = CHR 0x0A)"
        "\<not> (c = CHR ''/'' \<and> take 1 r = ''/'')" "\<not> (c = CHR ''/'' \<and> take 1 r = ''*'')" "c \<noteq> CHR 0x22"
    by blast
  then show ?case
  proof cases
    case ws
    then show ?thesis using 2(1) 2(6) by force
  next
    case line
    then show ?thesis using 2(2) [OF line] 2(6) length_dropWhile_le [of "\<lambda>x. x \<noteq> CHR 0x0A" r] by force
  next
    case block
    then obtain rest where r: "skip_block (c # r) = Inr rest" "cJSON_Minify rest = Inr out"
      using 2(6) by (auto simp del: skip_block.simps split: sum.splits)
    from 2(3) [OF block r] skip_block_length [OF r(1)] show ?thesis by simp
  next
    case str
    then obtain t rest u where t: "minify_str r = Inr (t, rest)" "cJSON_Minify rest = Inr u" "out = c # t @ u"
      using 2(6) by (auto simp: res_bind_eq_Inr split: sum.splits)
    from 2(4) [OF str t(1), of u] t(2,3) minify_str_sum [OF t(1)] show ?thesis by simp
  next
    case other
    then obtain u where "cJSON_Minify r = Inr u" "out = c # u" using 2(6) by (auto simp: res_bind_eq_Inr)
    with 2(5) [OF other] show ?thesis by simp
  qed
qed simp

text \<open>
  Property C38: \<open>cJSON_Minify\<close> rewrites a text in place without growing it, but it trusts the
  text: a comment that is not closed and a string that is not closed make it step over the
  terminating zero and read on behind the buffer.
\<close>
lemma minify_overruns_open_text:
  "(cJSON_Minify s = Inr out \<longrightarrow> length out \<le> length s) \<and>
   (\<not> strstr (CHR ''*'' # r) ''*/'' \<longrightarrow> cJSON_Minify (''/*'' @ r) = Inl OutOfBounds) \<and>
   (CHR 0x22 \<notin> set r \<longrightarrow> cJSON_Minify (CHR 0x22 # r) = Inl OutOfBounds)"
proof -
  have "cJSON_Minify (''/*'' @ r) = Inl OutOfBounds" if "\<not> strstr (CHR ''*'' # r) ''*/''"
    using skip_block_open [OF that] by simp
  moreover have "cJSON_Minify (CHR 0x22 # r) = Inl OutOfBounds" if "CHR 0x22 \<notin> set r"
    using minify_str_open [OF that] by simp
  ultimately show ?thesis using cJSON_Minify_length by blast
qed

lemma minify_overruns_open_text_witness:
  "cJSON_Minify ''/* no end'' = Inl OutOfBounds \<and> cJSON_Minify (CHR 0x22 # ''abc'') = Inl OutOfBounds"
proof -
  have "\<not> strstr (CHR ''*'' # '' no end'') ''*/''" by code_simp
  with minify_overruns_open_text [of "[]" "[]" "'' no end''"] minify_overruns_open_text [of "[]" "[]" "''abc''"]
  show ?thesis by auto
qed

end
