(* ===== verification/GW_JsonParse.thy ===== *)
theory GW_JsonParse
  imports GW_Json
begin

text \<open>
  \<open>src/code/dependence/cjson/cJSON.c\<close>, the parser, on a zero-terminated text.

  Positions are offsets into \<open>content\<close>, and every access is checked against its length.  The
  nesting of values is bounded by a number, as are the turns of the loops; \<open>None\<close> is an exhausted bound
  and the bounds given (\<open>CJSON_NESTING_LIMIT\<close> and the
  length of the text) are proved to be enough.  A result pairs
  the item, or nothing for the returned \<open>false\<close>, with the buffer.
\<close>

section \<open>The buffer\<close>

record parse_buffer =
  content :: bytes
  pb_offset :: nat
  pb_depth :: nat

definition CJSON_NESTING_LIMIT :: nat where [simp]: "CJSON_NESTING_LIMIT = 1000"

definition byte_at :: "bytes \<Rightarrow> nat \<Rightarrow> byte res" where
  "byte_at s i = (if i < length s then Inr (s ! i) else Inl OutOfBounds)"

definition can_read :: "parse_buffer \<Rightarrow> nat \<Rightarrow> bool" where
  "can_read p n \<longleftrightarrow> pb_offset p + n \<le> length (content p)"

definition can_access_at_index :: "parse_buffer \<Rightarrow> nat \<Rightarrow> bool" where
  "can_access_at_index p i \<longleftrightarrow> pb_offset p + i < length (content p)"

definition advance :: "nat \<Rightarrow> parse_buffer \<Rightarrow> parse_buffer" where
  "advance n p = p\<lparr>pb_offset := pb_offset p + n\<rparr>"

definition step_back :: "parse_buffer \<Rightarrow> parse_buffer" where
  "step_back p = p\<lparr>pb_offset := pb_offset p - 1\<rparr>"

text \<open>\<open>here p c\<close>: the test \<open>can_access_at_index(p, 0) && buffer_at_offset(p)[0] == c\<close>.\<close>

definition here :: "parse_buffer \<Rightarrow> byte \<Rightarrow> bool" where
  "here p c \<longleftrightarrow> can_access_at_index p 0 \<and> content p ! pb_offset p = c"

definition starts :: "parse_buffer \<Rightarrow> bytes \<Rightarrow> bool" where
  "starts p w \<longleftrightarrow> can_read p (length w) \<and> take (length w) (drop (pb_offset p) (content p)) = w"

definition ws :: "byte \<Rightarrow> bool" where
  "ws c \<longleftrightarrow> (of_char c :: nat) \<le> 32"

definition buffer_skip_whitespace :: "parse_buffer \<Rightarrow> parse_buffer" where
  "buffer_skip_whitespace p =
     (let off = pb_offset p + length (takeWhile ws (drop (pb_offset p) (content p)))
      in p\<lparr>pb_offset := (if off = length (content p) then off - 1 else off)\<rparr>)"

definition skip_utf8_bom :: "parse_buffer \<Rightarrow> parse_buffer option" where
  "skip_utf8_bom p =
     (if pb_offset p \<noteq> 0 then None
      else if can_access_at_index p 4 \<and> take 3 (content p) = [CHR 0xEF, CHR 0xBB, CHR 0xBF]
      then Some (advance 3 p) else Some p)"

section \<open>Numbers\<close>

definition number_char :: "byte \<Rightarrow> bool" where
  "number_char c \<longleftrightarrow> c \<in> set ''0123456789+-eE.''"

definition parse_number :: "'d dbl \<Rightarrow> 'd cJSON \<Rightarrow> parse_buffer \<Rightarrow> 'd cJSON option \<times> parse_buffer" where
  "parse_number D item p =
     (let number_c_string = takeWhile number_char (take 63 (drop (pb_offset p) (content p)));
          (number, n) = d_strtod D number_c_string
      in if n = 0 then (None, p)
         else (Some (CJ cJSON_Number (cj_valuestring item) (saturate D number) number (cj_string item) (cj_child item)),
               advance n p))"

section \<open>Strings\<close>

fun hex_val :: "byte \<Rightarrow> nat option" where
  "hex_val c =
     (let v = of_char c :: nat
      in if 48 \<le> v \<and> v \<le> 57 then Some (v - 48)
         else if 65 \<le> v \<and> v \<le> 70 then Some (10 + v - 65)
         else if 97 \<le> v \<and> v \<le> 102 then Some (10 + v - 97)
         else None)"

fun hex_loop :: "nat \<Rightarrow> bytes \<Rightarrow> nat" where
  "hex_loop h [] = h"
| "hex_loop h (c # cs) =
     (case hex_val c of
        None \<Rightarrow> 0
      | Some v \<Rightarrow> hex_loop (if cs \<noteq> [] then (h + v) * 16 else h + v) cs)"

definition parse_hex4 :: "bytes \<Rightarrow> nat" where
  "parse_hex4 input = hex_loop 0 (take 4 input)"

fun utf8_tail :: "nat \<Rightarrow> nat \<Rightarrow> nat \<times> bytes" where
  "utf8_tail 0 cp = (cp, [])"
| "utf8_tail (Suc n) cp =
     (let (cp', bs) = utf8_tail n (drop_bit 6 cp)
      in (cp', bs @ [char_of ((cp OR 0x80) AND 0xBF)]))"

definition utf8_encode :: "nat \<Rightarrow> bytes option" where
  "utf8_encode cp =
     (let lm = (if cp < 0x80 then Some (1, 0) else if cp < 0x800 then Some (2, 0xC0)
                else if cp < 0x10000 then Some (3, 0xE0) else if cp \<le> 0x10FFFF then Some (4, 0xF0) else None)
      in case lm of
           None \<Rightarrow> None
         | Some (utf8_length, mark) \<Rightarrow>
             (let (cp', bs) = utf8_tail (utf8_length - 1) cp
              in Some (char_of (if utf8_length > 1 then (cp' OR mark) AND 0xFF else cp' AND 0x7F) # bs)))"

text \<open>
  \<open>utf16_literal_to_utf8\<close> at position \<open>i\<close> of a literal that ends at \<open>e\<close>: the length of the
  sequence, 0 for a failure, and the bytes written.
\<close>

definition utf16_literal_to_utf8 :: "bytes \<Rightarrow> nat \<Rightarrow> nat \<Rightarrow> nat \<times> bytes" where
  "utf16_literal_to_utf8 s i e =
     (if e < i + 6 then (0, [])
      else let first_code = parse_hex4 (drop (i + 2) s)
      in if 0xDC00 \<le> first_code \<and> first_code \<le> 0xDFFF then (0, [])
         else let seq_cp =
            (if 0xD800 \<le> first_code \<and> first_code \<le> 0xDBFF then
               (if e < i + 12 then None
                else if s ! (i + 6) \<noteq> CHR 0x5C \<or> s ! (i + 7) \<noteq> CHR ''u'' then None
                else let second_code = parse_hex4 (drop (i + 8) s)
                     in if second_code < 0xDC00 \<or> 0xDFFF < second_code then None
                        else Some (12, 0x10000 + (push_bit 10 (first_code AND 0x3FF) OR (second_code AND 0x3FF))))
             else Some (6, first_code))
         in case seq_cp of
              None \<Rightarrow> (0, [])
            | Some (seq, cp) \<Rightarrow> (case utf8_encode cp of None \<Rightarrow> (0, []) | Some bs \<Rightarrow> (seq, bs)))"

text \<open>The first pass: the position of the closing quote and the number of escapes.\<close>

function scan_string :: "bytes \<Rightarrow> nat \<Rightarrow> nat \<Rightarrow> (nat \<times> nat) option" where
  "scan_string s i skipped =
     (if i < length s \<and> s ! i \<noteq> CHR 0x22 then
        (if s ! i = CHR 0x5C then
           (if length s \<le> i + 1 then None else scan_string s (i + 2) (skipped + 1))
         else scan_string s (i + 1) skipped)
      else if length s \<le> i then None else Some (i, skipped))"
  by pat_completeness auto
termination by (relation "measure (\<lambda>(s, i, _). length s - i)") auto

text \<open>Writing behind \<open>out\<close> in a block of \<open>cap\<close> bytes.\<close>

definition put :: "nat \<Rightarrow> bytes \<Rightarrow> bytes \<Rightarrow> bytes res" where
  "put cap out bs = (if length out + length bs \<le> cap then Inr (out @ bs) else Inl OutOfBounds)"

definition escape_char :: "byte \<Rightarrow> byte option" where
  "escape_char c =
     (if c = CHR ''b'' then Some CHR 0x08 else if c = CHR ''f'' then Some CHR 0x0C
      else if c = CHR ''n'' then Some CHR 0x0A else if c = CHR ''r'' then Some CHR 0x0D
      else if c = CHR ''t'' then Some CHR 0x09
      else if c = CHR 0x22 \<or> c = CHR 0x5C \<or> c = CHR ''/'' then Some c else None)"

text \<open>
  The second pass, from \<open>i\<close> to the closing quote at \<open>e\<close>.  \<open>Inl\<close> in the result is the position
  at which it fails.
\<close>

function unescape :: "bytes \<Rightarrow> nat \<Rightarrow> nat \<Rightarrow> nat \<Rightarrow> bytes \<Rightarrow> (nat + bytes) res" where
  "unescape s e cap i out =
     (if \<not> i < e then res_bind (put cap out [NUL]) (\<lambda>_. Inr (Inr out))
      else case byte_at s i of
        Inl u \<Rightarrow> Inl u
      | Inr c \<Rightarrow>
          if c \<noteq> CHR 0x5C then
            (case put cap out [c] of Inl u \<Rightarrow> Inl u | Inr out' \<Rightarrow> unescape s e cap (i + 1) out')
          else (case byte_at s (i + 1) of
             Inl u \<Rightarrow> Inl u
           | Inr x \<Rightarrow>
               if x = CHR ''u'' then
                 (let (seq, bs) = utf16_literal_to_utf8 s i e
                  in if seq = 0 then Inr (Inl i)
                     else case put cap out bs of Inl u \<Rightarrow> Inl u | Inr out' \<Rightarrow> unescape s e cap (i + seq) out')
               else (case escape_char x of
                  None \<Rightarrow> Inr (Inl i)
                | Some y \<Rightarrow> (case put cap out [y] of Inl u \<Rightarrow> Inl u | Inr out' \<Rightarrow> unescape s e cap (i + 2) out'))))"
  by pat_completeness auto
termination by (relation "measure (\<lambda>(s, e, cap, i, out). e - i)") auto

declare scan_string.simps [simp del] unescape.simps [simp del]

text \<open>The text of the literal as a C string; a \<open>\\u0000\<close> ends it early.\<close>

definition parse_string :: "parse_buffer \<Rightarrow> (bytes option \<times> parse_buffer) res" where
  "parse_string p =
     (let s = content p; off = pb_offset p; failed = Inr (None, p\<lparr>pb_offset := off + 1\<rparr>)
      in res_bind (byte_at s off) (\<lambda>c.
         if c \<noteq> CHR 0x22 then failed
         else case scan_string s (off + 1) 0 of
                None \<Rightarrow> failed
              | Some (e, skipped) \<Rightarrow>
                  (let allocation_length = (e - off) - skipped
                   in res_bind (unescape s e (allocation_length + 1) (off + 1) []) (\<lambda>r.
                      case r of
                        Inl i \<Rightarrow> Inr (None, p\<lparr>pb_offset := i\<rparr>)
                      | Inr out \<Rightarrow> Inr (Some (cstr out), p\<lparr>pb_offset := e + 1\<rparr>)))))"

section \<open>Values\<close>

definition obind :: "'a res option \<Rightarrow> ('a \<Rightarrow> 'b res option) \<Rightarrow> 'b res option" where
  "obind m f = (case m of None \<Rightarrow> None | Some (Inl e) \<Rightarrow> Some (Inl e) | Some (Inr x) \<Rightarrow> f x)"

lemma obind_simps [simp]:
  "obind None f = None" "obind (Some (Inl e)) f = Some (Inl e)" "obind (Some (Inr x)) f = f x"
  by (simp_all add: obind_def)

lemma obind_cong [fundef_cong]:
  "m = m' \<Longrightarrow> (\<And>x. m' = Some (Inr x) \<Longrightarrow> f x = f' x) \<Longrightarrow> obind m f = obind m' f'"
  by (auto simp: obind_def split: option.split sum.split)

type_synonym 'd parsed = "('d cJSON option \<times> parse_buffer) res option"

definition finish :: "int \<Rightarrow> 'd cJSON \<Rightarrow> 'd cJSON list \<Rightarrow> parse_buffer \<Rightarrow> 'd parsed" where
  "finish t item head p =
     Some (Inr (Some (with_child head (with_type t item)), p\<lparr>pb_depth := pb_depth p - 1, pb_offset := pb_offset p + 1\<rparr>))"

text \<open>The loops over the elements of an array and the members of an object; \<open>pv\<close> parses a value, \<open>m\<close> bounds the number of turns.\<close>

fun parse_elements ::
    "('d cJSON \<Rightarrow> parse_buffer \<Rightarrow> 'd parsed) \<Rightarrow> 'd dbl \<Rightarrow> nat \<Rightarrow> 'd cJSON list \<Rightarrow> parse_buffer
       \<Rightarrow> ('d cJSON list option \<times> parse_buffer) res option" where
  "parse_elements pv D 0 head p = None"
| "parse_elements pv D (Suc m) head p =
     obind (pv (cJSON_New_Item D) (buffer_skip_whitespace (advance 1 p))) (\<lambda>(r, p1).
       case r of
         None \<Rightarrow> Some (Inr (None, p1))
       | Some new_item \<Rightarrow>
           (let p2 = buffer_skip_whitespace p1
            in if here p2 CHR '','' then parse_elements pv D m (head @ [new_item]) p2
               else Some (Inr (Some (head @ [new_item]), p2))))"

fun parse_members ::
    "('d cJSON \<Rightarrow> parse_buffer \<Rightarrow> 'd parsed) \<Rightarrow> 'd dbl \<Rightarrow> nat \<Rightarrow> 'd cJSON list \<Rightarrow> parse_buffer
       \<Rightarrow> ('d cJSON list option \<times> parse_buffer) res option" where
  "parse_members pv D 0 head p = None"
| "parse_members pv D (Suc m) head p =
     obind (Some (parse_string (buffer_skip_whitespace (advance 1 p)))) (\<lambda>(nm, p1).
       case nm of
         None \<Rightarrow> Some (Inr (None, p1))
       | Some key \<Rightarrow>
           (let p2 = buffer_skip_whitespace p1
            in if \<not> here p2 CHR '':'' then Some (Inr (None, p2))
               else obind (pv (CJ cJSON_String None 0 (d_zero D) (Some key) [])
                             (buffer_skip_whitespace (advance 1 p2))) (\<lambda>(r, p3).
                 case r of
                   None \<Rightarrow> Some (Inr (None, p3))
                 | Some new_item \<Rightarrow>
                     (let p4 = buffer_skip_whitespace p3
                      in if here p4 CHR '','' then parse_members pv D m (head @ [new_item]) p4
                         else Some (Inr (Some (head @ [new_item]), p4))))))"

definition parse_array ::
    "('d cJSON \<Rightarrow> parse_buffer \<Rightarrow> 'd parsed) \<Rightarrow> 'd dbl \<Rightarrow> 'd cJSON \<Rightarrow> parse_buffer \<Rightarrow> 'd parsed" where
  "parse_array pv D item p =
     (if pb_depth p \<ge> CJSON_NESTING_LIMIT then Some (Inr (None, p))
      else let p1 = p\<lparr>pb_depth := pb_depth p + 1\<rparr>
      in obind (Some (byte_at (content p1) (pb_offset p1))) (\<lambda>c.
         if c \<noteq> CHR ''['' then Some (Inr (None, p1))
         else let p2 = buffer_skip_whitespace (advance 1 p1)
         in if here p2 CHR '']'' then finish cJSON_Array item [] p2
            else if \<not> can_access_at_index p2 0 then Some (Inr (None, step_back p2))
            else obind (parse_elements pv D (length (content p)) [] (step_back p2)) (\<lambda>(r, p3).
              case r of
                None \<Rightarrow> Some (Inr (None, p3))
              | Some head \<Rightarrow>
                  if \<not> here p3 CHR '']'' then Some (Inr (None, p3)) else finish cJSON_Array item head p3)))"

definition parse_object ::
    "('d cJSON \<Rightarrow> parse_buffer \<Rightarrow> 'd parsed) \<Rightarrow> 'd dbl \<Rightarrow> 'd cJSON \<Rightarrow> parse_buffer \<Rightarrow> 'd parsed" where
  "parse_object pv D item p =
     (if pb_depth p \<ge> CJSON_NESTING_LIMIT then Some (Inr (None, p))
      else let p1 = p\<lparr>pb_depth := pb_depth p + 1\<rparr>
      in if \<not> here p1 CHR ''{'' then Some (Inr (None, p1))
         else let p2 = buffer_skip_whitespace (advance 1 p1)
         in if here p2 CHR ''}'' then finish cJSON_Object item [] p2
            else if \<not> can_access_at_index p2 0 then Some (Inr (None, step_back p2))
            else obind (parse_members pv D (length (content p)) [] (step_back p2)) (\<lambda>(r, p3).
              case r of
                None \<Rightarrow> Some (Inr (None, p3))
              | Some head \<Rightarrow>
                  if \<not> here p3 CHR ''}'' then Some (Inr (None, p3)) else finish cJSON_Object item head p3))"

text \<open>\<open>n\<close> bounds the nesting.\<close>

fun parse_value :: "nat \<Rightarrow> 'd dbl \<Rightarrow> 'd cJSON \<Rightarrow> parse_buffer \<Rightarrow> 'd parsed" where
  "parse_value 0 D item p = None"
| "parse_value (Suc n) D item p =
     (if starts p ''null'' then Some (Inr (Some (with_type cJSON_NULL item), advance 4 p))
      else if starts p ''false'' then Some (Inr (Some (with_type cJSON_False item), advance 5 p))
      else if starts p ''true'' then
        Some (Inr (Some (CJ cJSON_True (cj_valuestring item) 1 (cj_valuedouble item) (cj_string item) (cj_child item)), advance 4 p))
      else if here p CHR 0x22 then
        Some (res_bind (parse_string p) (\<lambda>(r, p').
          Inr (map_option (\<lambda>t. CJ cJSON_String (Some t) (cj_valueint item) (cj_valuedouble item) (cj_string item) (cj_child item)) r, p')))
      else if can_access_at_index p 0 \<and> content p ! pb_offset p \<in> set ''-0123456789'' then Some (Inr (parse_number D item p))
      else if here p CHR ''['' then parse_array (parse_value n D) D item p
      else if here p CHR ''{'' then parse_object (parse_value n D) D item p
      else Some (Inr (None, p)))"

declare parse_value.simps [simp del] parse_elements.simps [simp del] parse_members.simps [simp del]

section \<open>The entry points\<close>

text \<open>
  The result is the item and the position reported: the end of the value, or the position of
  the error.  A null text gives neither.
\<close>

definition cJSON_ParseWithOpts ::
    "'d dbl \<Rightarrow> bytes option \<Rightarrow> bool \<Rightarrow> ('d cJSON option \<times> nat option) res option" where
  "cJSON_ParseWithOpts D value require_null_terminated =
     (case value of
        None \<Rightarrow> Some (Inr (None, None))
      | Some v \<Rightarrow>
          (let buffer = \<lparr>content = v @ [NUL], pb_offset = 0, pb_depth = 0\<rparr>;
               failed = (\<lambda>p. Some (Inr (None, Some (if pb_offset p < length (content p) then pb_offset p
                                                    else length (content p) - 1))))
           in case skip_utf8_bom buffer of
                None \<Rightarrow> failed buffer
              | Some b1 \<Rightarrow>
                  obind (parse_value (Suc CJSON_NESTING_LIMIT) D (cJSON_New_Item D) (buffer_skip_whitespace b1)) (\<lambda>(r, p).
                    case r of
                      None \<Rightarrow> failed p
                    | Some item \<Rightarrow>
                        if require_null_terminated then
                          (let q = buffer_skip_whitespace p
                           in if \<not> here q NUL then failed q else Some (Inr (Some item, Some (pb_offset q))))
                        else Some (Inr (Some item, Some (pb_offset p))))))"

definition cJSON_Parse :: "'d dbl \<Rightarrow> bytes option \<Rightarrow> 'd cJSON option res option" where
  "cJSON_Parse D value =
     map_option (\<lambda>r. res_bind r (\<lambda>x. Inr (fst x))) (cJSON_ParseWithOpts D value False)"

section \<open>Strings fit the block allocated for them\<close>

text \<open>The characters of a literal when an escape and its next character count as one.\<close>

fun units :: "bytes \<Rightarrow> nat" where
  "units [] = 0"
| "units (c # r) = Suc (if c = CHR 0x5C then (case r of [] \<Rightarrow> 0 | _ # r' \<Rightarrow> units r') else units r)"

lemma units_Cons_bounds: "units r \<le> units (c # r) \<and> units (c # r) \<le> Suc (units r)"
proof (induction "length r" arbitrary: c r rule: less_induct)
  case less
  show ?case
  proof (cases r)
    case (Cons d r')
    from less [of r' d] Cons show ?thesis by auto
  qed simp
qed

lemma units_drop: "units (drop n r) \<le> units r"
proof (induction n arbitrary: r)
  case (Suc n)
  show ?case
  proof (cases r)
    case (Cons c r')
    with Suc [of r'] units_Cons_bounds [of r' c] show ?thesis by simp
  qed simp
qed simp

lemma units_plain: "CHR 0x5C \<notin> set a \<Longrightarrow> units (a @ r) = length a + units r"
  by (induction a) auto

lemma take_drop_Cons:
  "i < e \<Longrightarrow> e \<le> length s \<Longrightarrow> take (e - i) (drop i s) = s ! i # take (e - (i + 1)) (drop (i + 1) s)"
  by (simp add: Cons_nth_drop_Suc [symmetric] Suc_diff_Suc [symmetric])

lemma scan_string_end:
  "scan_string s i k = Some (e, k') \<Longrightarrow>
     i \<le> e \<and> e < length s \<and> s ! e = CHR 0x22 \<and> k' + units (take (e - i) (drop i s)) = k + (e - i)"
proof (induction s i k arbitrary: e k' rule: scan_string.induct)
  case (1 s i skipped)
  show ?case
  proof (cases "i < length s \<and> s ! i \<noteq> CHR 0x22")
    case False
    with "1.prems" show ?thesis by (subst (asm) scan_string.simps) (auto split: if_splits)
  next
    case True
    show ?thesis
    proof (cases "s ! i = CHR 0x5C")
      case esc: True
      from "1.prems" True esc have l: "i + 1 < length s" "scan_string s (i + 2) (skipped + 1) = Some (e, k')"
        by (subst (asm) scan_string.simps, simp split: if_splits)+
      from "1.IH"(1) [OF True esc _ l(2)] l(1) have
        h: "i + 2 \<le> e" "e < length s" "s ! e = CHR 0x22"
          "k' + units (take (e - (i + 2)) (drop (i + 2) s)) = skipped + 1 + (e - (i + 2))" by auto
      have "take (e - i) (drop i s) = CHR 0x5C # s ! (i + 1) # take (e - (i + 2)) (drop (i + 2) s)"
        using take_drop_Cons [of i e s] take_drop_Cons [of "i + 1" e s] h(1,2) esc by simp
      with h show ?thesis by simp
    next
      case False
      from "1.prems" True False have l: "scan_string s (i + 1) skipped = Some (e, k')"
        by (subst (asm) scan_string.simps) simp
      from "1.IH"(2) [OF True False l] have
        h: "i + 1 \<le> e" "e < length s" "s ! e = CHR 0x22"
          "k' + units (take (e - (i + 1)) (drop (i + 1) s)) = skipped + (e - (i + 1))" by auto
      have "take (e - i) (drop i s) = s ! i # take (e - (i + 1)) (drop (i + 1) s)"
        using take_drop_Cons [of i e s] h(1,2) by simp
      with h False show ?thesis by simp
    qed
  qed
qed

lemma hex_loop_hex: "hex_loop h cs \<noteq> 0 \<Longrightarrow> c \<in> set cs \<Longrightarrow> hex_val c \<noteq> None"
  by (induction h cs rule: hex_loop.induct) (auto split: option.splits)

lemma hex_val_bound: "hex_val c = Some v \<Longrightarrow> v < 16"
  by (auto simp: Let_def split: if_splits)

lemma hex_val_backslash: "hex_val c \<noteq> None \<Longrightarrow> c \<noteq> CHR 0x5C"
  by (auto simp: Let_def)

lemma hex_loop_bound: "cs \<noteq> [] \<Longrightarrow> hex_loop h cs < (h + 16) * 16 ^ (length cs - 1)"
proof (induction h cs rule: hex_loop.induct)
  case (2 h c cs)
  show ?case
  proof (cases "hex_val c")
    case (Some v)
    then have v: "v < 16" by (rule hex_val_bound)
    show ?thesis
    proof (cases "cs = []")
      case False
      have "hex_loop ((h + v) * 16) cs < ((h + v) * 16 + 16) * 16 ^ (length cs - 1)"
        using "2.IH" [OF Some] False by simp
      also have "\<dots> = (h + v + 1) * 16 ^ length cs"
        using False by (cases cs) (simp_all add: algebra_simps)
      also have "\<dots> \<le> (h + 16) * 16 ^ length cs" using v by (intro mult_le_mono1) simp
      finally show ?thesis using Some False by simp
    qed (use Some v in simp)
  qed simp
qed simp

lemma parse_hex4_bound: "parse_hex4 s < 65536"
proof (cases "take 4 s = []")
  case False
  from hex_loop_bound [OF False, of 0] have "parse_hex4 s < 16 * 16 ^ (length (take 4 s) - 1)"
    by (simp add: parse_hex4_def)
  also have "\<dots> \<le> 16 * 16 ^ 3" by (intro mult_le_mono order_refl power_increasing) auto
  finally show ?thesis by simp
qed (simp add: parse_hex4_def)

lemma utf8_tail_length: "length (snd (utf8_tail n cp)) = n"
  by (induction n arbitrary: cp) (simp_all add: Let_def split: prod.split, metis snd_conv)

lemma utf8_encode_length:
  "utf8_encode cp = Some bs \<Longrightarrow> 1 \<le> length bs \<and> length bs \<le> 4 \<and> (cp < 0x10000 \<longrightarrow> length bs \<le> 3) \<and>
     (cp = 0 \<longrightarrow> length bs = 1)"
  using utf8_tail_length [of 0 cp] utf8_tail_length [of 1 cp] utf8_tail_length [of 2 cp] utf8_tail_length [of 3 cp]
  by (auto simp: utf8_encode_def Let_def split: if_splits prod.splits)

lemma utf16_fits:
  assumes "utf16_literal_to_utf8 s i e = (seq, bs)" and "seq \<noteq> 0" and "e < length s"
    and "w = take (e - i) (drop i s)" and "s ! i = CHR 0x5C" and "s ! (i + 1) = CHR ''u''"
  shows "i + seq \<le> e \<and> length bs + units (drop seq w) \<le> units w"
proof -
  let ?c = "parse_hex4 (drop (i + 2) s)"
  let ?h = "take 4 (drop (i + 2) s)"
  from assms(1,2) have e: "i + 6 \<le> e" by (auto simp: utf16_literal_to_utf8_def split: if_splits)
  have w: "w = CHR 0x5C # CHR ''u'' # ?h @ drop 6 w"
  proof -
    have "w = s ! i # s ! (i + 1) # drop 2 w"
      using take_drop_Cons [of i e s] take_drop_Cons [of "i + 1" e s] e assms(3,4) by simp
    moreover have "drop 2 w = ?h @ drop 6 w"
      using e assms(3,4) append_take_drop_id [of 4 "drop 2 w"] by (simp add: take_drop min_def add.commute)
    ultimately show ?thesis using assms(5,6) by simp
  qed
  have u: "units w = Suc (units (?h @ drop 6 w))" using arg_cong [OF w, of units] by simp
  have l: "length ?h = 4" using e assms(3) by simp
  have u1: "units (drop 6 w) \<le> units (?h @ drop 6 w)"
    using units_drop [of 4 "?h @ drop 6 w"] l by simp
  have u5: "units (?h @ drop 6 w) = 4 + units (drop 6 w)" if "?c \<noteq> 0"
  proof -
    have "CHR 0x5C \<notin> set ?h"
      using that hex_loop_hex [of 0 ?h] hex_val_backslash by (auto simp: parse_hex4_def simp del: hex_val.simps)
    then show ?thesis using units_plain [of ?h] l by simp
  qed
  from assms(1,2) consider
      (short) "seq = 6" "utf8_encode ?c = Some bs"
    | (pair) cp where "seq = 12" "i + 12 \<le> e" "?c \<noteq> 0" "utf8_encode cp = Some bs"
    using e by (auto simp: utf16_literal_to_utf8_def Let_def split: if_splits option.splits)
  then show ?thesis
  proof cases
    case short
    with utf8_encode_length [OF short(2)] parse_hex4_bound [of "drop (i + 2) s"] e u u1 u5 show ?thesis
      by (cases "?c = 0") auto
  next
    case pair
    have "units (drop 12 w) \<le> units (drop 6 w)" using units_drop [of 6 "drop 6 w"] by simp
    with utf8_encode_length [OF pair(4)] u u5 [OF pair(3)] pair show ?thesis by simp
  qed
qed

text \<open>An escape of two characters stands for one unit at least.\<close>

lemma escape_units:
  assumes "i < e" and "e < length s" and "s ! i = CHR 0x5C"
  shows "Suc (units (take (e - (i + 2)) (drop (i + 2) s))) \<le> units (take (e - i) (drop i s))"
proof -
  have w: "take (e - i) (drop i s) = s ! i # take (e - (i + 1)) (drop (i + 1) s)"
    by (rule take_drop_Cons) (use assms in simp_all)
  show ?thesis
  proof (cases "i + 1 < e")
    case True
    from take_drop_Cons [OF this, of s] assms(2,3) w show ?thesis by simp
  next
    case False
    then show ?thesis using w by simp
  qed
qed

lemma unescape_fits:
  "length out + units (take (e - i) (drop i s)) + 1 \<le> cap \<Longrightarrow> e < length s \<Longrightarrow> s ! e = CHR 0x22 \<Longrightarrow>
     \<exists>r. unescape s e cap i out = Inr r"
proof (induction s e cap i out rule: unescape.induct)
  case (1 s e cap i out)
  have b: "byte_at s i = Inr (s ! i)" "byte_at s (i + 1) = Inr (s ! (i + 1))" if "i < e"
    using that "1.prems"(2) by (simp_all add: byte_at_def)
  obtain seq bs where sb: "utf16_literal_to_utf8 s i e = (seq, bs)" by (cases "utf16_literal_to_utf8 s i e")
  consider (ended) "\<not> i < e" | (plain) "i < e" "s ! i \<noteq> CHR 0x5C"
    | (no_literal) "i < e" "s ! i = CHR 0x5C" "s ! (i + 1) = CHR ''u''" "seq = 0"
    | (literal) "i < e" "s ! i = CHR 0x5C" "s ! (i + 1) = CHR ''u''" "seq \<noteq> 0"
    | (no_escape) "i < e" "s ! i = CHR 0x5C" "s ! (i + 1) \<noteq> CHR ''u''" "escape_char (s ! (i + 1)) = None"
    | (escape) y where "i < e" "s ! i = CHR 0x5C" "s ! (i + 1) \<noteq> CHR ''u''" "escape_char (s ! (i + 1)) = Some y"
    by blast
  then show ?case
  proof cases
    case ended
    with "1.prems" show ?thesis by (subst unescape.simps) (simp add: put_def)
  next
    case plain
    have w: "take (e - i) (drop i s) = s ! i # take (e - (i + 1)) (drop (i + 1) s)"
      by (rule take_drop_Cons) (use plain(1) "1.prems"(2) in simp_all)
    have p: "put cap out [s ! i] = Inr (out @ [s ! i])" using "1.prems"(1) w by (simp add: put_def)
    have "\<exists>r. unescape s e cap (i + 1) (out @ [s ! i]) = Inr r"
      by (rule "1.IH"(1) [OF _ b(1) plain(2) p]) (use plain "1.prems" w in simp_all)
    with plain b p show ?thesis by (subst unescape.simps) simp
  next
    case literal
    from utf16_fits [OF sb literal(4) "1.prems"(2) refl literal(2,3)] literal(1) have f: "i + seq \<le> e"
      "length bs + units (drop seq (take (e - i) (drop i s))) \<le> units (take (e - i) (drop i s))" by simp_all
    have d: "drop seq (take (e - i) (drop i s)) = take (e - (i + seq)) (drop (i + seq) s)"
      by (simp add: drop_take add.commute)
    have p: "put cap out bs = Inr (out @ bs)" using "1.prems"(1) f(2) by (simp add: put_def)
    have "\<exists>r. unescape s e cap (i + seq) (out @ bs) = Inr r"
      by (rule "1.IH"(2) [OF _ b(1) _ b(2) literal(3) sb [symmetric] refl literal(4) p])
        (use literal "1.prems" f d in simp_all)
    with literal b p sb show ?thesis by (subst unescape.simps) simp
  next
    case escape
    note un = escape_units [OF escape(1) "1.prems"(2) escape(2)]
    have p: "put cap out [y] = Inr (out @ [y])" using "1.prems"(1) un by (simp add: put_def)
    have "\<exists>r. unescape s e cap (i + 2) (out @ [y]) = Inr r"
      by (rule "1.IH"(3) [OF _ b(1) _ b(2) escape(3,4) p]) (use escape "1.prems" un in simp_all)
    with escape b p show ?thesis by (subst unescape.simps) simp
  qed (use b sb in \<open>subst unescape.simps, simp\<close>)+
qed

lemma parse_string_safe:
  assumes "pb_offset p < length (content p)"
  shows "\<exists>r p'. parse_string p = Inr (r, p') \<and> content p' = content p \<and> pb_depth p' = pb_depth p \<and>
    (r \<noteq> None \<longrightarrow> (\<exists>e. pb_offset p < e \<and> e < length (content p) \<and> content p ! e = CHR 0x22 \<and> pb_offset p' = e + 1))"
proof (cases "content p ! pb_offset p = CHR 0x22")
  case True
  show ?thesis
  proof (cases "scan_string (content p) (pb_offset p + 1) 0")
    case None
    with assms True show ?thesis by (simp add: parse_string_def byte_at_def Let_def)
  next
    case (Some es)
    obtain e k where es: "es = (e, k)" by (cases es)
    from scan_string_end [OF Some [unfolded es]] have h: "pb_offset p + 1 \<le> e" "e < length (content p)"
      "content p ! e = CHR 0x22"
      "k + units (take (e - (pb_offset p + 1)) (drop (pb_offset p + 1) (content p))) = e - (pb_offset p + 1)" by auto
    have "\<exists>r. unescape (content p) e (e - pb_offset p - k + 1) (pb_offset p + 1) [] = Inr r"
      by (rule unescape_fits) (use h in simp_all)
    then obtain r where "unescape (content p) e (e - pb_offset p - k + 1) (pb_offset p + 1) [] = Inr r" ..
    with assms True Some es h show ?thesis
      by (cases r) (auto simp: parse_string_def byte_at_def Let_def intro!: exI [of _ e])
  qed
qed (use assms in \<open>simp add: parse_string_def byte_at_def Let_def\<close>)

section \<open>Every parse ends inside the text\<close>

text \<open>What is asked of \<open>strtod\<close>: it reads no more than it is given.\<close>

definition strtod_ok :: "'d dbl \<Rightarrow> bool" where
  "strtod_ok D \<longleftrightarrow> (\<forall>s. snd (d_strtod D s) \<le> length s)"

text \<open>A buffer on the text \<open>v\<close> with its terminating zero, at a position inside and at nesting \<open>d\<close>.\<close>

definition on_text :: "bytes \<Rightarrow> nat \<Rightarrow> parse_buffer \<Rightarrow> bool" where
  "on_text v d p \<longleftrightarrow> content p = v @ [NUL] \<and> pb_offset p \<le> length v \<and> pb_depth p = d"

text \<open>The outcome of a parsing function started at \<open>p\<close>: defined, and moved on when it succeeds.\<close>

definition parses :: "bytes \<Rightarrow> nat \<Rightarrow> parse_buffer \<Rightarrow> ('a option \<times> parse_buffer) res option \<Rightarrow> bool" where
  "parses v d p x \<longleftrightarrow> (\<exists>r p'. x = Some (Inr (r, p')) \<and> content p' = v @ [NUL] \<and>
     (r \<noteq> None \<longrightarrow> on_text v d p' \<and> pb_offset p < pb_offset p'))"

lemma parsesE:
  assumes "parses v d p x"
  obtains (failed) p' where "x = Some (Inr (None, p'))" "content p' = v @ [NUL]"
  | (found) y p' where "x = Some (Inr (Some y, p'))" "on_text v d p'" "pb_offset p < pb_offset p'"
  using assms unfolding parses_def by (metis not_None_eq)

lemma parses_failed [simp]: "parses v d p (Some (Inr (None, p'))) \<longleftrightarrow> content p' = v @ [NUL]"
  by (simp add: parses_def)

lemma parses_done [simp]:
  "parses v d p (Some (Inr (Some y, p'))) \<longleftrightarrow> on_text v d p' \<and> pb_offset p < pb_offset p'"
  by (auto simp: parses_def on_text_def)

lemma parses_mono: "parses v d p x \<Longrightarrow> pb_offset q \<le> pb_offset p \<Longrightarrow> parses v d q x"
  unfolding parses_def by fastforce

lemma here_inside:
  assumes "on_text v d p" and "content p ! pb_offset p \<noteq> NUL"
  shows "pb_offset p < length v"
  using assms by (cases "pb_offset p = length v") (auto simp: on_text_def)

lemma here_inside2: "on_text v d p \<Longrightarrow> here p c \<Longrightarrow> c \<noteq> NUL \<Longrightarrow> pb_offset p < length v"
  using here_inside by (auto simp: here_def)

lemma skip_ws_on_text:
  assumes "content p = v @ [NUL]" and "pb_offset p \<le> length v"
  shows "on_text v (pb_depth p) (buffer_skip_whitespace p)" and "pb_offset p \<le> pb_offset (buffer_skip_whitespace p)"
proof -
  have "length (takeWhile ws (drop (pb_offset p) (content p))) \<le> length (content p) - pb_offset p"
    using length_takeWhile_le [of ws "drop (pb_offset p) (content p)"] by simp
  with assms show "on_text v (pb_depth p) (buffer_skip_whitespace p)"
    "pb_offset p \<le> pb_offset (buffer_skip_whitespace p)"
    by (auto simp: buffer_skip_whitespace_def on_text_def Let_def)
qed

lemma skip_ws_depth [simp]: "pb_depth (buffer_skip_whitespace p) = pb_depth p"
  by (simp add: buffer_skip_whitespace_def Let_def)

lemma skip_advance:
  assumes "on_text v d p" and "pb_offset p < length v"
  shows "on_text v d (buffer_skip_whitespace (advance 1 p))"
    and "pb_offset p < pb_offset (buffer_skip_whitespace (advance 1 p))"
  using skip_ws_on_text [of "advance 1 p" v] assms by (auto simp: on_text_def advance_def)

lemma skip_same:
  assumes "on_text v d p"
  shows "on_text v d (buffer_skip_whitespace p)" and "pb_offset p \<le> pb_offset (buffer_skip_whitespace p)"
  using skip_ws_on_text [of p v] assms by (auto simp: on_text_def)

lemma parse_string_parses:
  assumes "on_text v d p"
  shows "parses v d p (Some (parse_string p))"
proof -
  have "pb_offset p < length (content p)" using assms by (simp add: on_text_def)
  from parse_string_safe [OF this] obtain r p' where
    r: "parse_string p = Inr (r, p')" "content p' = content p" "pb_depth p' = pb_depth p"
      "r \<noteq> None \<longrightarrow> (\<exists>e. pb_offset p < e \<and> e < length (content p) \<and> content p ! e = CHR 0x22 \<and> pb_offset p' = e + 1)"
    by blast
  have "on_text v d p' \<and> pb_offset p < pb_offset p'" if s: "r \<noteq> None"
  proof -
    from s r(4) obtain e where e: "pb_offset p < e" "e < length (content p)" "content p ! e = CHR 0x22"
      "pb_offset p' = e + 1" by blast
    with assms have "e < length v" by (cases "e = length v") (auto simp: on_text_def)
    with e r assms show ?thesis by (simp add: on_text_def)
  qed
  with r assms show ?thesis by (simp add: parses_def on_text_def)
qed

lemma starts_inside:
  assumes "on_text v d p" and "starts p w" and "NUL \<notin> set w" and "w \<noteq> []"
  shows "on_text v d (advance (length w) p) \<and> pb_offset p < pb_offset (advance (length w) p)"
proof -
  have l: "pb_offset p + length w \<le> length v + 1" "take (length w) (drop (pb_offset p) (v @ [NUL])) = w"
    using assms by (auto simp: on_text_def starts_def can_read_def)
  have "pb_offset p + length w \<noteq> length v + 1"
  proof
    assume "pb_offset p + length w = length v + 1"
    then have "w = drop (pb_offset p) v @ [NUL]" using l(2) assms(1) by (simp add: on_text_def)
    with assms(3) show False by (metis in_set_conv_decomp)
  qed
  with l assms show ?thesis by (simp add: on_text_def advance_def)
qed

lemma takeWhile_before_NUL:
  "\<not> P x \<Longrightarrow> length (takeWhile P (take n (xs @ [x]))) \<le> length xs"
proof (induction xs arbitrary: n)
  case Nil
  then show ?case by (cases n) simp_all
next
  case (Cons y ys)
  then show ?case by (cases n) simp_all
qed

lemma parse_number_parses:
  assumes "on_text v d p" and "strtod_ok D"
  shows "parses v d p (Some (Inr (parse_number D item p)))"
proof -
  let ?t = "takeWhile number_char (take 63 (drop (pb_offset p) (content p)))"
  obtain x n where n: "d_strtod D ?t = (x, n)" by (cases "d_strtod D ?t")
  have c: "content p = v @ [NUL]" "pb_offset p \<le> length v" using assms(1) by (simp_all add: on_text_def)
  have "\<not> number_char NUL" by (simp add: number_char_def)
  then have "length ?t \<le> length (drop (pb_offset p) v)"
    using c takeWhile_before_NUL [of number_char NUL 63 "drop (pb_offset p) v"] by simp
  moreover have "n \<le> length ?t" using assms(2) n by (metis strtod_ok_def snd_conv)
  ultimately show ?thesis using assms(1) n by (auto simp: parse_number_def Let_def on_text_def advance_def)
qed

definition pv_ok :: "('d cJSON \<Rightarrow> parse_buffer \<Rightarrow> 'd parsed) \<Rightarrow> bytes \<Rightarrow> nat \<Rightarrow> bool" where
  "pv_ok pv v d \<longleftrightarrow> (\<forall>item p. on_text v d p \<longrightarrow> parses v d p (pv item p))"

lemma parse_elements_parses:
  assumes "pv_ok pv v d"
  shows "length v - pb_offset p \<le> m \<Longrightarrow> on_text v d p \<Longrightarrow> pb_offset p < length v \<Longrightarrow>
    parses v d p (parse_elements pv D m head p)"
proof (induction m arbitrary: head p)
  case (Suc m)
  let ?q = "buffer_skip_whitespace (advance 1 p)"
  note q = skip_advance [OF Suc.prems(2,3)]
  from assms q(1) have "parses v d ?q (pv (cJSON_New_Item D) ?q)" by (simp add: pv_ok_def)
  then show ?case
  proof (cases rule: parsesE)
    case (failed p')
    then show ?thesis by (simp add: parse_elements.simps)
  next
    case (found y p')
    note s = skip_same [OF found(2)]
    let ?p2 = "buffer_skip_whitespace p'"
    show ?thesis
    proof (cases "here ?p2 CHR '',''")
      case True
      from here_inside2 [OF s(1) True] have i: "pb_offset ?p2 < length v" by simp
      have o: "pb_offset p < pb_offset ?p2" using q(2) found(3) s(2) by simp
      have "parses v d ?p2 (parse_elements pv D m (head @ [y]) ?p2)"
        by (rule Suc.IH) (use Suc.prems(1) i o s(1) in simp_all)
      from parses_mono [OF this] o found(1) True show ?thesis by (simp add: parse_elements.simps)
    next
      case False
      with found q(2) s show ?thesis by (simp add: parse_elements.simps)
    qed
  qed
qed simp

text \<open>One member: its name, the colon and its value; what follows the value decides.\<close>

lemma parse_member_parses:
  assumes pv: "pv_ok pv v d" and p: "on_text v d p" "pb_offset p < length v"
    and rest: "\<And>y p4. on_text v d p4 \<Longrightarrow> pb_offset p < pb_offset p4 \<Longrightarrow> pb_offset p4 < length v \<Longrightarrow>
      parses v d p4 (parse_members pv D m (head @ [y]) p4)"
  shows "parses v d p (parse_members pv D (Suc m) head p)"
proof -
  let ?q = "buffer_skip_whitespace (advance 1 p)"
  note q = skip_advance [OF p]
  from parse_string_parses [OF q(1)] show ?thesis
  proof (cases rule: parsesE)
    case (failed p')
    then show ?thesis by (simp add: parse_members.simps)
  next
    case (found key p1)
    note s1 = skip_same [OF found(2)]
    let ?p2 = "buffer_skip_whitespace p1"
    let ?q2 = "buffer_skip_whitespace (advance 1 ?p2)"
    let ?it = "CJ cJSON_String None 0 (d_zero D) (Some key) []"
    have ps: "parse_string ?q = Inr (Some key, p1)" using found(1) by simp
    show ?thesis
    proof (cases "here ?p2 CHR '':''")
      case False
      with ps s1(1) show ?thesis by (simp add: parse_members.simps on_text_def)
    next
      case True
      from here_inside2 [OF s1(1) True] have "pb_offset ?p2 < length v" by simp
      note q2 = skip_advance [OF s1(1) this]
      from pv q2(1) have "parses v d ?q2 (pv ?it ?q2)" by (simp add: pv_ok_def)
      then show ?thesis
      proof (cases rule: parsesE)
        case (failed p')
        with ps True show ?thesis by (simp add: parse_members.simps)
      next
        case d3: (found y p3)
        note s3 = skip_same [OF d3(2)]
        let ?p4 = "buffer_skip_whitespace p3"
        have o: "pb_offset p < pb_offset ?p4" using q(2) found(3) s1(2) q2(2) d3(3) s3(2) by linarith
        have "parses v d ?p4 (parse_members pv D m (head @ [y]) ?p4)" if "here ?p4 CHR '',''"
          using rest [OF s3(1) o] here_inside2 [OF s3(1) that] by simp
        from parses_mono [OF this] o ps True d3(1) s3(1) show ?thesis
          by (cases "here ?p4 CHR '',''") (simp_all add: parse_members.simps)
      qed
    qed
  qed
qed

lemma parse_members_parses:
  assumes "pv_ok pv v d"
  shows "length v - pb_offset p \<le> m \<Longrightarrow> on_text v d p \<Longrightarrow> pb_offset p < length v \<Longrightarrow>
    parses v d p (parse_members pv D m head p)"
proof (induction m arbitrary: head p)
  case (Suc m)
  from Suc.prems show ?case by (intro parse_member_parses [OF assms] Suc.IH) simp_all
qed simp

text \<open>The two containers share their outer part.\<close>

lemma step_back_on_text:
  "on_text v d p \<Longrightarrow> 0 < pb_offset p \<Longrightarrow> on_text v d (step_back p) \<and> pb_offset (step_back p) < length v"
  by (auto simp: on_text_def step_back_def)

lemma finish_parses:
  assumes "on_text v (Suc d) p" and "here p c" and "c \<noteq> NUL" and "pb_offset q \<le> pb_offset p"
  shows "parses v d q (finish t item head p)"
  using assms here_inside2 [OF assms(1-3)] by (simp add: finish_def on_text_def)

lemma parse_array_parses:
  assumes "pb_depth p < CJSON_NESTING_LIMIT \<longrightarrow> pv_ok pv v (Suc (pb_depth p))"
    and "on_text v d p" and "here p CHR ''[''"
  shows "parses v d p (parse_array pv D item p)"
proof (cases "pb_depth p < CJSON_NESTING_LIMIT")
  case False
  with assms(2) show ?thesis by (simp add: parse_array_def on_text_def)
next
  case True
  let ?p1 = "p\<lparr>pb_depth := pb_depth p + 1\<rparr>"
  let ?p2 = "buffer_skip_whitespace (advance 1 ?p1)"
  have d: "pb_depth p = d" "on_text v (Suc d) ?p1" using assms(2) by (simp_all add: on_text_def)
  have i: "pb_offset ?p1 < length v" using here_inside2 [OF assms(2,3)] by simp
  note p2 = skip_advance [OF d(2) i]
  have b: "byte_at (content p) (pb_offset p) = Inr CHR ''[''"
    using assms(3) by (simp add: here_def can_access_at_index_def byte_at_def)
  have a: "can_access_at_index ?p2 0" using p2(1) by (simp add: can_access_at_index_def on_text_def)
  show ?thesis
  proof (cases "here ?p2 CHR '']''")
    case h: True
    have "parses v d p (finish cJSON_Array item [] ?p2)"
      by (rule finish_parses [OF p2(1) h]) (use p2(2) in simp_all)
    with True b h show ?thesis by (simp add: parse_array_def Let_def)
  next
    case False
    have sb: "on_text v (Suc d) (step_back ?p2)" "pb_offset (step_back ?p2) < length v"
      using step_back_on_text [OF p2(1)] p2(2) by auto
    have "parses v (Suc d) (step_back ?p2) (parse_elements pv D (length (content p)) [] (step_back ?p2))"
      by (rule parse_elements_parses) (use assms(1,2) True d(1) sb in \<open>simp_all add: on_text_def\<close>)
    then show ?thesis
    proof (cases rule: parsesE)
      case (failed p')
      with True b False a show ?thesis by (simp add: parse_array_def Let_def)
    next
      case (found head p3)
      have "pb_offset p \<le> pb_offset p3" using found(3) p2(2) by (simp add: step_back_def)
      then have "here p3 CHR '']'' \<Longrightarrow> parses v d p (finish cJSON_Array item head p3)"
        by (intro finish_parses [OF found(2), where c = "CHR '']''"]) simp_all
      with True b False a found show ?thesis by (simp add: parse_array_def Let_def on_text_def)
    qed
  qed
qed

lemma parse_object_parses:
  assumes "pb_depth p < CJSON_NESTING_LIMIT \<longrightarrow> pv_ok pv v (Suc (pb_depth p))"
    and "on_text v d p" and "here p CHR ''{''"
  shows "parses v d p (parse_object pv D item p)"
proof (cases "pb_depth p < CJSON_NESTING_LIMIT")
  case False
  with assms(2) show ?thesis by (simp add: parse_object_def on_text_def)
next
  case True
  let ?p1 = "p\<lparr>pb_depth := pb_depth p + 1\<rparr>"
  let ?p2 = "buffer_skip_whitespace (advance 1 ?p1)"
  have d: "pb_depth p = d" "on_text v (Suc d) ?p1" using assms(2) by (simp_all add: on_text_def)
  have i: "pb_offset ?p1 < length v" using here_inside2 [OF assms(2,3)] by simp
  note p2 = skip_advance [OF d(2) i]
  have b: "here ?p1 CHR ''{''" using assms(3) by (simp add: here_def can_access_at_index_def)
  have a: "can_access_at_index ?p2 0" using p2(1) by (simp add: can_access_at_index_def on_text_def)
  show ?thesis
  proof (cases "here ?p2 CHR ''}''")
    case h: True
    have "parses v d p (finish cJSON_Object item [] ?p2)"
      by (rule finish_parses [OF p2(1) h]) (use p2(2) in simp_all)
    with True b h show ?thesis by (simp add: parse_object_def Let_def)
  next
    case False
    have sb: "on_text v (Suc d) (step_back ?p2)" "pb_offset (step_back ?p2) < length v"
      using step_back_on_text [OF p2(1)] p2(2) by auto
    have "parses v (Suc d) (step_back ?p2) (parse_members pv D (length (content p)) [] (step_back ?p2))"
      by (rule parse_members_parses) (use assms(1,2) True d(1) sb in \<open>simp_all add: on_text_def\<close>)
    then show ?thesis
    proof (cases rule: parsesE)
      case (failed p')
      with True b False a show ?thesis by (simp add: parse_object_def Let_def)
    next
      case (found head p3)
      have "pb_offset p \<le> pb_offset p3" using found(3) p2(2) by (simp add: step_back_def)
      then have "here p3 CHR ''}'' \<Longrightarrow> parses v d p (finish cJSON_Object item head p3)"
        by (intro finish_parses [OF found(2), where c = "CHR ''}''"]) simp_all
      with True b False a found show ?thesis by (simp add: parse_object_def Let_def on_text_def)
    qed
  qed
qed

lemma parse_value_ok:
  assumes "strtod_ok D"
  shows "CJSON_NESTING_LIMIT < Suc n + d \<Longrightarrow> pv_ok (parse_value (Suc n) D) v d"
proof (induction n arbitrary: d)
  have val: "parses v d p (parse_value (Suc n) D item p)"
    if nest: "pb_depth p < CJSON_NESTING_LIMIT \<longrightarrow> pv_ok (parse_value n D) v (Suc (pb_depth p))"
      and on: "on_text v d p" for n d item p
  proof -
    have str: "parses v d p (Some (res_bind (parse_string p) (\<lambda>(r, p').
        Inr (map_option (\<lambda>t. CJ cJSON_String (Some t) (cj_valueint item) (cj_valuedouble item) (cj_string item) (cj_child item)) r, p'))))"
      using parse_string_parses [OF on] by (cases rule: parsesE) auto
    have lit: "starts p ''null'' \<Longrightarrow> on_text v d (advance 4 p) \<and> pb_offset p < pb_offset (advance 4 p)"
      "starts p ''false'' \<Longrightarrow> on_text v d (advance 5 p) \<and> pb_offset p < pb_offset (advance 5 p)"
      "starts p ''true'' \<Longrightarrow> on_text v d (advance 4 p) \<and> pb_offset p < pb_offset (advance 4 p)"
      using starts_inside [OF on, of "''null''"] starts_inside [OF on, of "''false''"]
        starts_inside [OF on, of "''true''"] by (simp_all add: numeral_eq_Suc)
    show ?thesis
      unfolding parse_value.simps(2)
      using lit str parse_number_parses [OF on assms] parse_array_parses [OF nest on] parse_object_parses [OF nest on] on
      by (auto simp: on_text_def)
  qed
  {
    case 0
    show ?case unfolding pv_ok_def
    proof (intro allI impI)
      fix item :: "'a cJSON" and p
      assume "on_text v d p"
      with 0 show "parses v d p (parse_value (Suc 0) D item p)"
        by (intro val) (simp_all add: on_text_def)
    qed
  next
    case (Suc n)
    show ?case unfolding pv_ok_def
    proof (intro allI impI)
      fix item :: "'a cJSON" and p
      assume on: "on_text v d p"
      have "CJSON_NESTING_LIMIT < Suc n + Suc d" using Suc.prems by simp
      from Suc.IH [OF this] on show "parses v d p (parse_value (Suc (Suc n)) D item p)"
        by (intro val) (simp_all add: on_text_def)
    qed
  }
qed

section \<open>Properties\<close>

text \<open>
  Property C12: Parsing is safe and ends.  For every text, whatever it contains, \<open>cJSON_ParseWithOpts\<close>
  gives an answer (an item or a failure) without reading outside the text and its terminating
  zero and without writing outside the block allocated for a string, with at most
  \<open>CJSON_NESTING_LIMIT\<close> nested values and as many turns of a loop as the text has characters, and
  the position it reports lies in the text.  All that is asked of \<open>strtod\<close> is that it reads no
  more than it is given.
\<close>
theorem parse_safe_and_total:
  assumes "strtod_ok D"
  shows "\<exists>r pos. cJSON_ParseWithOpts D (Some v) req = Some (Inr (r, Some pos)) \<and> pos \<le> length v \<and>
    cJSON_Parse D (Some v) \<noteq> None"
proof -
  have ans: "\<exists>r pos. cJSON_ParseWithOpts D (Some v) req = Some (Inr (r, Some pos)) \<and> pos \<le> length v" for req
  proof -
    let ?b = "\<lparr>content = v @ [NUL], pb_offset = 0, pb_depth = 0\<rparr>"
    obtain b1 where b1: "skip_utf8_bom ?b = Some b1" "content b1 = v @ [NUL]" "pb_offset b1 \<le> length v" "pb_depth b1 = 0"
      by (rule that [of "the (skip_utf8_bom ?b)"]) (auto simp: skip_utf8_bom_def can_access_at_index_def advance_def)
    note q = skip_ws_on_text [OF b1(2,3)]
    have "pv_ok (parse_value (Suc CJSON_NESTING_LIMIT) D) v 0" by (rule parse_value_ok [OF assms]) simp
    with q(1) b1(4) have "parses v 0 (buffer_skip_whitespace b1)
        (parse_value (Suc CJSON_NESTING_LIMIT) D (cJSON_New_Item D) (buffer_skip_whitespace b1))"
      by (simp add: pv_ok_def)
    then show ?thesis
    proof (cases rule: parsesE)
      case (failed p')
      with b1 show ?thesis by (auto simp: cJSON_ParseWithOpts_def Let_def)
    next
      case (found y p')
      with b1 skip_same [OF found(2)] show ?thesis
        by (auto simp: cJSON_ParseWithOpts_def Let_def on_text_def)
    qed
  qed
  moreover have "cJSON_Parse D (Some v) \<noteq> None" using ans [of False] by (auto simp: cJSON_Parse_def)
  ultimately show ?thesis by blast
qed

theorem parse_safe_and_total_witness:
  "\<exists>r pos. cJSON_ParseWithOpts int_dbl (Some ''{[[[1,'') True = Some (Inr (r, Some pos)) \<and>
    pos \<le> length ''{[[[1,'' \<and> cJSON_Parse int_dbl (Some ''{[[[1,'') \<noteq> None"
  by (rule parse_safe_and_total) (simp add: strtod_ok_def int_dbl_def)

end
