(* ===== verification/GW_JsonPrint.thy ===== *)
theory GW_JsonPrint
  imports GW_JsonParse
begin

text \<open>
  \<open>src/code/dependence/cjson/cJSON.c\<close>, the printer: an item is rendered into a growing block of memory.

  A block is a list of cells, a cell that was never written is \<open>None\<close>, and every access is
  checked: writing outside the block is \<open>OutOfBounds\<close>, reading an unwritten cell is
  \<open>Uninitialised\<close>.  The allocator is the argument \<open>H\<close>: which sizes it grants and whether
  it offers \<open>realloc\<close>.  A printing function returns the C function's result and the buffer.
\<close>

section \<open>The buffer\<close>

record internal_hooks =
  h_grant :: "nat \<Rightarrow> bool"
  h_reallocate :: bool

text \<open>
  \<open>cJSON_InitHooks\<close>: functions are compared by identity, \<open>Libc\<close> is the library's.  The parts of the global hooks that
  the printer depends on are \<open>hooks_of\<close>.
\<close>

datatype alloc_fn = Libc | Other nat

record cJSON_Hooks =
  malloc_fn :: "alloc_fn option"
  free_fn :: "alloc_fn option"

record global_hooks =
  gh_allocate :: alloc_fn
  gh_deallocate :: alloc_fn
  gh_reallocate :: bool

definition cJSON_InitHooks :: "cJSON_Hooks option \<Rightarrow> global_hooks" where
  "cJSON_InitHooks hooks =
     (case hooks of
        None \<Rightarrow> \<lparr>gh_allocate = Libc, gh_deallocate = Libc, gh_reallocate = True\<rparr>
      | Some k \<Rightarrow>
          (let a = (case malloc_fn k of None \<Rightarrow> Libc | Some f \<Rightarrow> f);
               d = (case free_fn k of None \<Rightarrow> Libc | Some f \<Rightarrow> f)
           in \<lparr>gh_allocate = a, gh_deallocate = d, gh_reallocate = (a = Libc \<and> d = Libc)\<rparr>))"

definition hooks_of :: "(nat \<Rightarrow> bool) \<Rightarrow> global_hooks \<Rightarrow> internal_hooks" where
  "hooks_of grant g = \<lparr>h_grant = grant, h_reallocate = gh_reallocate g\<rparr>"

type_synonym block = "byte option list"

record printbuffer =
  pr_buffer :: "block option"
  pr_offset :: nat
  pr_depth :: nat
  pr_noalloc :: bool
  pr_format :: bool

definition SIZE_INT_MAX :: nat where [simp]: "SIZE_INT_MAX = 2147483647"

text \<open>\<open>p->length\<close> is the size of the block.  \<open>ensure\<close> gives whether the returned pointer is not null.\<close>

definition ensure :: "internal_hooks \<Rightarrow> nat \<Rightarrow> printbuffer \<Rightarrow> (bool \<times> printbuffer) res" where
  "ensure H needed p =
     (case pr_buffer p of
        None \<Rightarrow> Inr (False, p)
      | Some cells \<Rightarrow>
          if 0 < length cells \<and> length cells \<le> pr_offset p then Inr (False, p)
          else if SIZE_INT_MAX < needed then Inr (False, p)
          else let needed = needed + pr_offset p + 1
          in if needed \<le> length cells then Inr (True, p)
             else if pr_noalloc p then Inr (False, p)
             else if SIZE_INT_MAX div 2 < needed \<and> SIZE_INT_MAX < needed then Inr (False, p)
             else let newsize = (if SIZE_INT_MAX div 2 < needed then SIZE_INT_MAX else needed * 2)
             in if \<not> h_grant H newsize then Inr (False, p\<lparr>pr_buffer := None\<rparr>)
                else if h_reallocate H then
                  Inr (True, p\<lparr>pr_buffer := Some (take newsize cells @ replicate (newsize - length cells) None)\<rparr>)
                else if length cells < pr_offset p + 1 then Inl OutOfBounds
                else Inr (True, p\<lparr>pr_buffer := Some (take (pr_offset p + 1) cells @ replicate (newsize - (pr_offset p + 1)) None)\<rparr>))"

definition wr_cells :: "block \<Rightarrow> nat \<Rightarrow> bytes \<Rightarrow> block res" where
  "wr_cells cells off d =
     (if off + length d \<le> length cells then Inr (take off cells @ map Some d @ drop (off + length d) cells)
      else Inl OutOfBounds)"

text \<open>\<open>strlen\<close>: the cells are read one by one up to the zero.\<close>

fun cells_strlen :: "block \<Rightarrow> nat res" where
  "cells_strlen [] = Inl OutOfBounds"
| "cells_strlen (None # r) = Inl Uninitialised"
| "cells_strlen (Some c # r) = (if c = NUL then Inr 0 else res_bind (cells_strlen r) (\<lambda>n. Inr (Suc n)))"

definition update_offset :: "printbuffer \<Rightarrow> (bool \<times> printbuffer) res" where
  "update_offset p =
     (case pr_buffer p of
        None \<Rightarrow> Inr (True, p)
      | Some cells \<Rightarrow> res_bind (cells_strlen (drop (pr_offset p) cells)) (\<lambda>n. Inr (True, p\<lparr>pr_offset := pr_offset p + n\<rparr>)))"

text \<open>
  The printing functions are sequences of steps left at the first that returns \<open>false\<close>.  \<open>emit H n d k\<close>: room
  for \<open>n\<close> is ensured, \<open>d\<close> is written at the returned pointer, and the offset advances by \<open>k\<close>.
\<close>

type_synonym printer = "printbuffer \<Rightarrow> (bool \<times> printbuffer) res"

definition and_then :: "printer \<Rightarrow> printer \<Rightarrow> printer" where
  "and_then m f p = res_bind (m p) (\<lambda>(b, p'). if b then f p' else Inr (False, p'))"

definition write_out :: "bytes \<Rightarrow> printer" where
  "write_out d p =
     (case pr_buffer p of
        None \<Rightarrow> Inl NullDeref
      | Some cells \<Rightarrow> res_bind (wr_cells cells (pr_offset p) d) (\<lambda>cells'. Inr (True, p\<lparr>pr_buffer := Some cells'\<rparr>)))"

definition move :: "nat \<Rightarrow> printer" where
  "move k p = Inr (True, p\<lparr>pr_offset := pr_offset p + k\<rparr>)"

definition emit :: "internal_hooks \<Rightarrow> nat \<Rightarrow> bytes \<Rightarrow> nat \<Rightarrow> printer" where
  "emit H n d k = and_then (ensure H n) (and_then (write_out d) (move k))"

definition deeper :: printer where "deeper p = Inr (True, p\<lparr>pr_depth := pr_depth p + 1\<rparr>)"
definition shallower :: printer where "shallower p = Inr (True, p\<lparr>pr_depth := pr_depth p - 1\<rparr>)"

section \<open>Numbers and strings\<close>

definition get_decimal_point :: byte where "get_decimal_point = CHR ''.''"

definition number_text :: "'d dbl \<Rightarrow> 'd \<Rightarrow> bytes" where
  "number_text D d =
     (if d_nonfinite D d then ''null''
      else case d_scan D (d_fmt15 D d) of
             None \<Rightarrow> d_fmt17 D d
           | Some test \<Rightarrow> if d_eq D test d then d_fmt15 D d else d_fmt17 D d)"

text \<open>\<open>sprintf\<close> writes into \<open>number_buffer[26]\<close> before its result is compared.\<close>

definition print_number :: "internal_hooks \<Rightarrow> 'd dbl \<Rightarrow> 'd cJSON \<Rightarrow> printer" where
  "print_number H D item p =
     (let t = number_text D (cj_valuedouble item)
      in if 26 \<le> length t then Inl OutOfBounds
         else emit H (length t + 1) (map (\<lambda>c. if c = get_decimal_point then CHR ''.'' else c) t @ [NUL]) (length t) p)"

definition hex_digit :: "nat \<Rightarrow> byte" where
  "hex_digit n = char_of (if n < 10 then n + 48 else n + 87)"

definition u04x :: "byte \<Rightarrow> bytes" where
  "u04x c = [CHR ''u'', hex_digit 0, hex_digit 0, hex_digit (of_char c div 16), hex_digit (of_char c mod 16)]"

definition short_escape :: "byte \<Rightarrow> byte option" where
  "short_escape c =
     (if c = CHR 0x5C then Some CHR 0x5C else if c = CHR 0x22 then Some CHR 0x22
      else if c = CHR 0x08 then Some CHR ''b'' else if c = CHR 0x0C then Some CHR ''f''
      else if c = CHR 0x0A then Some CHR ''n'' else if c = CHR 0x0D then Some CHR ''r''
      else if c = CHR 0x09 then Some CHR ''t'' else None)"

definition escape_characters :: "bytes \<Rightarrow> nat" where
  "escape_characters s =
     sum_list (map (\<lambda>c. if short_escape c \<noteq> None then 1 else if (of_char c :: nat) < 32 then 5 else 0) s)"

text \<open>The copying loop; \<open>sprintf\<close> ends its five characters with a zero that is overwritten next.\<close>

definition write_cells :: "nat \<Rightarrow> bytes \<Rightarrow> block \<Rightarrow> block res" where
  "write_cells off d cells = wr_cells cells off d"

fun copy_escaped :: "bytes \<Rightarrow> nat \<Rightarrow> block \<Rightarrow> block res" where
  "copy_escaped [] i cells = Inr cells"
| "copy_escaped (c # cs) i cells =
     (if 31 < (of_char c :: nat) \<and> c \<noteq> CHR 0x22 \<and> c \<noteq> CHR 0x5C then
        res_bind (write_cells i [c] cells) (copy_escaped cs (i + 1))
      else res_bind (write_cells i [CHR 0x5C] cells) (\<lambda>cells1.
        case short_escape c of
          Some x \<Rightarrow> res_bind (write_cells (i + 1) [x] cells1) (copy_escaped cs (i + 2))
        | None \<Rightarrow> res_bind (write_cells (i + 1) (u04x c @ [NUL]) cells1) (copy_escaped cs (i + 6))))"

definition write_literal :: "bytes \<Rightarrow> nat \<Rightarrow> printer" where
  "write_literal s output_length p =
     (case pr_buffer p of
        None \<Rightarrow> Inl NullDeref
      | Some cells \<Rightarrow>
          res_bind (write_cells (pr_offset p) [CHR 0x22] cells) (\<lambda>cells1.
          res_bind (copy_escaped s (pr_offset p + 1) cells1) (\<lambda>cells2.
          res_bind (write_cells (pr_offset p + output_length + 1) [CHR 0x22, NUL] cells2) (\<lambda>cells3.
          Inr (True, p\<lparr>pr_buffer := Some cells3\<rparr>)))))"

definition print_string_ptr :: "internal_hooks \<Rightarrow> bytes option \<Rightarrow> printer" where
  "print_string_ptr H input =
     (case input of
        None \<Rightarrow> emit H 3 [CHR 0x22, CHR 0x22, NUL] 0
      | Some s \<Rightarrow>
          (let output_length = length s + escape_characters s
           in if escape_characters s = 0
              then emit H (output_length + 3) (CHR 0x22 # s @ [CHR 0x22, NUL]) 0
              else and_then (ensure H (output_length + 3)) (write_literal s output_length)))"

definition print_string :: "internal_hooks \<Rightarrow> 'd cJSON \<Rightarrow> printer" where
  "print_string H item = print_string_ptr H (cj_valuestring item)"

section \<open>Values\<close>

text \<open>A step that looks at the buffer first: at its nesting.\<close>

definition at_depth :: "(nat \<Rightarrow> printer) \<Rightarrow> printer" where
  "at_depth f p = f (pr_depth p) p"

definition tabs :: "nat \<Rightarrow> bytes" where "tabs n = replicate n CHR 0x09"

text \<open>
  \<open>fmt\<close> is \<open>format\<close>, constant during a call.  \<open>print_elements\<close> and \<open>print_members\<close> are the loops over the
  children; the tests of \<open>next\<close> ask whether children are left.
\<close>

function (sequential) print_value :: "internal_hooks \<Rightarrow> 'd dbl \<Rightarrow> bool \<Rightarrow> 'd cJSON \<Rightarrow> printer"
and print_elements :: "internal_hooks \<Rightarrow> 'd dbl \<Rightarrow> bool \<Rightarrow> 'd cJSON list \<Rightarrow> printer"
and print_members :: "internal_hooks \<Rightarrow> 'd dbl \<Rightarrow> bool \<Rightarrow> 'd cJSON list \<Rightarrow> printer"
and print_array :: "internal_hooks \<Rightarrow> 'd dbl \<Rightarrow> bool \<Rightarrow> 'd cJSON \<Rightarrow> printer"
and print_object :: "internal_hooks \<Rightarrow> 'd dbl \<Rightarrow> bool \<Rightarrow> 'd cJSON \<Rightarrow> printer" where
  "print_value H D fmt item =
     (let t = cj_type item AND 0xFF
      in if t = cJSON_NULL then emit H 5 (''null'' @ [NUL]) 0
         else if t = cJSON_False then emit H 6 (''false'' @ [NUL]) 0
         else if t = cJSON_True then emit H 5 (''true'' @ [NUL]) 0
         else if t = cJSON_Number then print_number H D item
         else if t = cJSON_Raw then
           (case cj_valuestring item of
              None \<Rightarrow> (\<lambda>p. Inr (False, p))
            | Some s \<Rightarrow> emit H (length s + 1) (s @ [NUL]) 0)
         else if t = cJSON_String then print_string H item
         else if t = cJSON_Array then print_array H D fmt item
         else if t = cJSON_Object then print_object H D fmt item
         else (\<lambda>p. Inr (False, p)))"
| "print_elements H D fmt [] = move 0"
| "print_elements H D fmt (c # cs) =
     and_then (print_value H D fmt c) (and_then update_offset (and_then
       (if cs \<noteq> [] then
          (let sep = (if fmt then '', '' else '','')
           in emit H (length sep + 1) (sep @ [NUL]) (length sep))
        else move 0)
       (print_elements H D fmt cs)))"
| "print_members H D fmt [] = move 0"
| "print_members H D fmt (c # cs) =
     and_then (if fmt then at_depth (\<lambda>d. emit H d (tabs d) d) else move 0)
    (and_then (print_string_ptr H (cj_string c)) (and_then update_offset
    (and_then (let colon = (if fmt then '':'' @ tabs 1 else '':'') in emit H (length colon) colon (length colon))
    (and_then (print_value H D fmt c) (and_then update_offset
    (and_then (let sep = (if cs \<noteq> [] then '','' else '''') @ (if fmt then [CHR 0x0A] else [])
               in emit H (length sep + 1) (sep @ [NUL]) (length sep))
       (print_members H D fmt cs)))))))"
| "print_array H D fmt (CJ t vs vi vd nm cs) =
     and_then (emit H 1 ''['' 1) (and_then deeper
    (and_then (print_elements H D fmt cs)
    (and_then (emit H 2 ('']'' @ [NUL]) 0) shallower)))"
| "print_object H D fmt (CJ t vs vi vd nm cs) =
     and_then (ensure H (if fmt then 3 else 2)) (and_then deeper
    (and_then (let start = (if fmt then ''{'' @ [CHR 0x0A] else ''{'') in and_then (write_out start) (move (length start)))
    (and_then (print_members H D fmt cs)
    (and_then (at_depth (\<lambda>d. emit H (if fmt then d + 1 else 2) ((if fmt then tabs (d - 1) else []) @ ''}'' @ [NUL]) 0))
       shallower))))"
  by pat_completeness auto
termination
  by (relation "measure (\<lambda>x. case x of
      Inl (Inl (H, D, f, i)) \<Rightarrow> 2 * size i + 1
    | Inl (Inr (H, D, f, cs)) \<Rightarrow> 2 * size_list size cs
    | Inr (Inl (H, D, f, cs)) \<Rightarrow> 2 * size_list size cs
    | Inr (Inr (Inl (H, D, f, i))) \<Rightarrow> 2 * size i
    | Inr (Inr (Inr (H, D, f, i))) \<Rightarrow> 2 * size i)") auto

declare print_value.simps [simp del] print_elements.simps [simp del] print_members.simps [simp del]
  print_array.simps [simp del] print_object.simps [simp del]

section \<open>The entry points\<close>

text \<open>The text a caller reads from a returned block.\<close>

definition block_text :: "block \<Rightarrow> bytes res" where
  "block_text cells = res_bind (cells_strlen cells) (\<lambda>n. Inr (map the (take n cells)))"

definition print_item :: "internal_hooks \<Rightarrow> 'd dbl \<Rightarrow> bool \<Rightarrow> 'd cJSON option \<Rightarrow> printer" where
  "print_item H D fmt item p = (case item of None \<Rightarrow> Inr (False, p) | Some i \<Rightarrow> print_value H D fmt i p)"

definition fresh_buffer :: "block option \<Rightarrow> bool \<Rightarrow> bool \<Rightarrow> printbuffer" where
  "fresh_buffer b noalloc fmt =
     \<lparr>pr_buffer = b, pr_offset = 0, pr_depth = 0, pr_noalloc = noalloc, pr_format = fmt\<rparr>"

definition print :: "internal_hooks \<Rightarrow> 'd dbl \<Rightarrow> 'd cJSON option \<Rightarrow> bool \<Rightarrow> block option res" where
  "print H D item format =
     (if \<not> h_grant H 256 then Inr None
      else res_bind (and_then (print_item H D format item) update_offset
                       (fresh_buffer (Some (replicate 256 None)) False format)) (\<lambda>(b, p).
        if \<not> b then Inr None
        else if \<not> h_grant H (pr_offset p + 1) then Inr None
        else case pr_buffer p of
            None \<Rightarrow> Inl NullDeref
          | Some cells \<Rightarrow>
              if h_reallocate H then Inr (Some (take (pr_offset p + 1) (cells @ replicate (pr_offset p + 1 - length cells) None)))
              else res_bind (wr_cells (take (pr_offset p + 1) cells @ replicate (pr_offset p + 1 - length cells) None)
                               (pr_offset p) [NUL]) (\<lambda>c. Inr (Some c))))"

definition cJSON_Print :: "internal_hooks \<Rightarrow> 'd dbl \<Rightarrow> 'd cJSON option \<Rightarrow> block option res" where
  "cJSON_Print H D item = print H D item True"

definition cJSON_PrintUnformatted :: "internal_hooks \<Rightarrow> 'd dbl \<Rightarrow> 'd cJSON option \<Rightarrow> block option res" where
  "cJSON_PrintUnformatted H D item = print H D item False"

definition cJSON_PrintBuffered :: "internal_hooks \<Rightarrow> 'd dbl \<Rightarrow> 'd cJSON option \<Rightarrow> int \<Rightarrow> bool \<Rightarrow> block option res" where
  "cJSON_PrintBuffered H D item prebuffer fmt =
     (if prebuffer < 0 then Inr None
      else if \<not> h_grant H (nat prebuffer) then Inr None
      else res_bind (print_item H D fmt item (fresh_buffer (Some (replicate (nat prebuffer) None)) False fmt)) (\<lambda>(b, p).
        Inr (if b then pr_buffer p else None)))"

text \<open>The caller's block is promised to have \<open>len\<close> bytes; it comes back with the result.\<close>

definition cJSON_PrintPreallocated ::
    "internal_hooks \<Rightarrow> 'd dbl \<Rightarrow> 'd cJSON option \<Rightarrow> block option \<Rightarrow> int \<Rightarrow> bool \<Rightarrow> (bool \<times> block option) res" where
  "cJSON_PrintPreallocated H D item buf len fmt =
     (case buf of
        None \<Rightarrow> Inr (False, None)
      | Some cells \<Rightarrow>
          if len < 0 then Inr (False, buf)
          else if length cells < nat len then Inl OutOfBounds
          else res_bind (print_item H D fmt item (fresh_buffer (Some (take (nat len) cells)) True fmt)) (\<lambda>(b, p).
            Inr (b, map_option (\<lambda>c. c @ drop (nat len) cells) (pr_buffer p))))"

section \<open>The text of an item\<close>

definition esc :: "byte \<Rightarrow> bytes" where
  "esc c =
     (if 31 < (of_char c :: nat) \<and> c \<noteq> CHR 0x22 \<and> c \<noteq> CHR 0x5C then [c]
      else case short_escape c of Some x \<Rightarrow> [CHR 0x5C, x] | None \<Rightarrow> CHR 0x5C # u04x c)"

definition quoted :: "bytes option \<Rightarrow> bytes" where
  "quoted s = [CHR 0x22] @ concat (map esc (case s of None \<Rightarrow> [] | Some x \<Rightarrow> x)) @ [CHR 0x22]"

fun join :: "bytes \<Rightarrow> bytes list \<Rightarrow> bytes" where
  "join sep [] = []"
| "join sep (x # xs) = x @ (if xs \<noteq> [] then sep else []) @ join sep xs"

fun member_lines :: "bool \<Rightarrow> nat \<Rightarrow> (bytes \<times> bytes) list \<Rightarrow> bytes" where
  "member_lines fmt d [] = []"
| "member_lines fmt d ((k, v) # r) =
     (if fmt then tabs d else []) @ k @ (if fmt then '':'' @ tabs 1 else '':'') @ v @
     (if r \<noteq> [] then '','' else '''') @ (if fmt then [CHR 0x0A] else []) @ member_lines fmt d r"

fun render :: "'d dbl \<Rightarrow> bool \<Rightarrow> nat \<Rightarrow> 'd cJSON \<Rightarrow> bytes" where
  "render D fmt d (CJ t vs vi vd nm cs) =
     (let t = t AND 0xFF
      in if t = cJSON_NULL then ''null'' else if t = cJSON_False then ''false'' else if t = cJSON_True then ''true''
         else if t = cJSON_Number then number_text D vd
         else if t = cJSON_Raw then (case vs of None \<Rightarrow> [] | Some s \<Rightarrow> s)
         else if t = cJSON_String then quoted vs
         else if t = cJSON_Array then ''['' @ join (if fmt then '', '' else '','') (map (render D fmt (Suc d)) cs) @ '']''
         else ''{'' @ (if fmt then [CHR 0x0A] else []) @
              member_lines fmt (Suc d) (map (\<lambda>c. (quoted (cj_string c), render D fmt (Suc d) c)) cs) @
              (if fmt then tabs d else []) @ ''}'')"

text \<open>The items that have a text: a known type, C strings without zeros, a number of at most 25 characters.\<close>

definition no_zero :: "bytes option \<Rightarrow> bool" where
  "no_zero s \<longleftrightarrow> (case s of None \<Rightarrow> True | Some x \<Rightarrow> NUL \<notin> set x)"

fun printable :: "'d dbl \<Rightarrow> 'd cJSON \<Rightarrow> bool" where
  "printable D (CJ t vs vi vd nm cs) \<longleftrightarrow>
     (let t = t AND 0xFF
      in t \<in> {cJSON_NULL, cJSON_False, cJSON_True, cJSON_Number, cJSON_Raw, cJSON_String, cJSON_Array, cJSON_Object} \<and>
         (t = cJSON_Number \<longrightarrow> length (number_text D vd) < 26 \<and> NUL \<notin> set (number_text D vd)) \<and>
         (t = cJSON_Raw \<longrightarrow> vs \<noteq> None) \<and> no_zero vs \<and> no_zero nm \<and> list_all (printable D) cs)"

section \<open>Steps and what they write\<close>

text \<open>
  A buffer in use, the room in it for \<open>n\<close> bytes, and the judgement of a step: from nesting \<open>e\<close> it writes \<open>d\<close>
  behind the offset, advances by \<open>k\<close> and ends at nesting \<open>e'\<close>; it does so when there is room for \<open>r\<close> bytes, and never
  runs into undefined behaviour.
\<close>

definition pb_ok :: "internal_hooks \<Rightarrow> printbuffer \<Rightarrow> block \<Rightarrow> bool" where
  "pb_ok H p cells \<longleftrightarrow> pr_buffer p = Some cells \<and>
     (pr_offset p < length cells \<or> cells = [] \<and> pr_offset p = 0 \<and> (h_reallocate H \<or> pr_noalloc p))"

definition room :: "internal_hooks \<Rightarrow> printbuffer \<Rightarrow> block \<Rightarrow> nat \<Rightarrow> bool" where
  "room H p cells n \<longleftrightarrow>
     (if pr_noalloc p then n \<le> length cells \<and> n \<le> SIZE_INT_MAX else n \<le> SIZE_INT_MAX \<and> (\<forall>s. h_grant H s))"

definition wrote :: "internal_hooks \<Rightarrow> printbuffer \<Rightarrow> block \<Rightarrow> bytes \<Rightarrow> nat \<Rightarrow> nat \<Rightarrow> printbuffer \<Rightarrow> bool" where
  "wrote H p cells d k e' p' \<longleftrightarrow>
     (\<exists>cells'. pb_ok H p' cells' \<and> pr_depth p' = e' \<and> pr_noalloc p' = pr_noalloc p \<and> pr_offset p' = pr_offset p + k \<and>
        take (pr_offset p + length d) cells' = take (pr_offset p) cells @ map Some d \<and>
        (pr_noalloc p \<longrightarrow> length cells' = length cells))"

definition outputs :: "internal_hooks \<Rightarrow> printer \<Rightarrow> nat \<Rightarrow> bytes \<Rightarrow> nat \<Rightarrow> nat \<Rightarrow> nat \<Rightarrow> bool" where
  "outputs H m e d k r e' \<longleftrightarrow>
     (\<forall>p cells. pb_ok H p cells \<and> pr_depth p = e \<longrightarrow>
        (\<exists>b p'. m p = Inr (b, p') \<and> (room H p cells (pr_offset p + r) \<longrightarrow> b) \<and> (b \<longrightarrow> wrote H p cells d k e' p')))"

lemma outputsI:
  assumes "\<And>p cells. pb_ok H p cells \<Longrightarrow> pr_depth p = e \<Longrightarrow>
      \<exists>b p'. m p = Inr (b, p') \<and> (room H p cells (pr_offset p + r) \<longrightarrow> b) \<and> (b \<longrightarrow> wrote H p cells d k e' p')"
  shows "outputs H m e d k r e'"
  using assms by (auto simp: outputs_def)

lemma outputs_seq:
  assumes m: "outputs H m e d1 k1 r1 e1" and f: "outputs H f e1 d2 k2 r2 e2"
    and k1: "k1 \<le> length d1" and d: "d = take k1 d1 @ d2" and k: "k = k1 + k2" and r: "r1 \<le> r" "k1 + r2 \<le> r"
  shows "outputs H (and_then m f) e d k r e2"
proof (rule outputsI)
  fix p cells
  assume ok: "pb_ok H p cells" and e: "pr_depth p = e"
  from m ok e obtain b p' where 1: "m p = Inr (b, p')" "room H p cells (pr_offset p + r1) \<longrightarrow> b"
    "b \<longrightarrow> wrote H p cells d1 k1 e1 p'" unfolding outputs_def by blast
  have le: "room H p cells (pr_offset p + r) \<Longrightarrow> room H p cells (pr_offset p + r1)"
    using r(1) by (auto simp: room_def split: if_splits)
  show "\<exists>b p'. and_then m f p = Inr (b, p') \<and> (room H p cells (pr_offset p + r) \<longrightarrow> b) \<and> (b \<longrightarrow> wrote H p cells d k e2 p')"
  proof (cases b)
    case False
    with 1 le show ?thesis by (auto simp: and_then_def)
  next
    case True
    with 1(3) obtain c1 where c1: "pb_ok H p' c1" "pr_depth p' = e1" "pr_noalloc p' = pr_noalloc p"
      "pr_offset p' = pr_offset p + k1" "take (pr_offset p + length d1) c1 = take (pr_offset p) cells @ map Some d1"
      "pr_noalloc p \<longrightarrow> length c1 = length cells" by (auto simp: wrote_def)
    from f c1(1,2) obtain b2 p2 where 2: "f p' = Inr (b2, p2)" "room H p' c1 (pr_offset p' + r2) \<longrightarrow> b2"
      "b2 \<longrightarrow> wrote H p' c1 d2 k2 e2 p2" unfolding outputs_def by blast
    have "room H p cells (pr_offset p + r) \<Longrightarrow> room H p' c1 (pr_offset p' + r2)"
      using r(2) c1 by (auto simp: room_def split: if_splits)
    moreover have "wrote H p cells d k e2 p2" if "b2"
    proof -
      from that 2(3) obtain c2 where c2: "pb_ok H p2 c2" "pr_depth p2 = e2" "pr_noalloc p2 = pr_noalloc p'"
        "pr_offset p2 = pr_offset p' + k2" "take (pr_offset p' + length d2) c2 = take (pr_offset p') c1 @ map Some d2"
        "pr_noalloc p' \<longrightarrow> length c2 = length c1" by (auto simp: wrote_def)
      have o: "length (take (pr_offset p) cells) = pr_offset p" using ok by (auto simp: pb_ok_def)
      have "take (pr_offset p + k1) c1 = take (pr_offset p + k1) (take (pr_offset p + length d1) c1)"
        using k1 by (simp add: min_def)
      also have "\<dots> = take (pr_offset p) cells @ map Some (take k1 d1)"
        unfolding c1(5) using o by (simp add: take_map)
      finally have "take (pr_offset p') c1 = take (pr_offset p) cells @ map Some (take k1 d1)" using c1(4) by simp
      with c2 c1 d k k1 show ?thesis by (auto simp: wrote_def add.assoc intro!: exI [of _ c2])
    qed
    ultimately show ?thesis using 1(1) 2(1,2) True by (auto simp: and_then_def)
  qed
qed

lemma step_fails: "m = Inr (False, p') \<Longrightarrow> \<not> R \<Longrightarrow> \<exists>b p'. m = Inr (b, p') \<and> (R \<longrightarrow> b) \<and> (b \<longrightarrow> Q p')"
  by blast

lemma step_succeeds: "m = Inr (True, p') \<Longrightarrow> Q p' \<Longrightarrow> \<exists>b p'. m = Inr (b, p') \<and> (R \<longrightarrow> b) \<and> (b \<longrightarrow> Q p')"
  by blast

text \<open>\<open>ensure\<close> where the block has to grow: by \<open>realloc\<close>, or by copying the written part into a new block.\<close>

lemma ensure_grow_cases:
  assumes "pb_ok H p cells" and "n \<le> SIZE_INT_MAX" and "length cells < n + pr_offset p + 1" and "\<not> pr_noalloc p"
    and "n + pr_offset p + 1 \<le> SIZE_INT_MAX"
  obtains (refused) s p' where "\<not> h_grant H s" "ensure H n p = Inr (False, p')"
  | (grown) c where "ensure H n p = Inr (True, p\<lparr>pr_buffer := Some c\<rparr>)" "pr_offset p + n < length c"
      "take (pr_offset p) c = take (pr_offset p) cells"
proof -
  let ?n = "n + pr_offset p + 1"
  let ?s = "if SIZE_INT_MAX div 2 < ?n then SIZE_INT_MAX else ?n * 2"
  let ?r = "take ?s cells @ replicate (?s - length cells) None"
  let ?c = "take (pr_offset p + 1) cells @ replicate (?s - (pr_offset p + 1)) None"
  have b: "pr_buffer p = Some cells" and o: "\<not> (0 < length cells \<and> length cells \<le> pr_offset p)"
    and o2: "pr_offset p < length cells \<or> cells = [] \<and> pr_offset p = 0" using assms(1) by (auto simp: pb_ok_def)
  have s: "?n \<le> ?s" "length cells < ?s" using assms by auto
  have n: "\<not> SIZE_INT_MAX < n" "\<not> ?n \<le> length cells" "\<not> (SIZE_INT_MAX div 2 < ?n \<and> SIZE_INT_MAX < ?n)"
    using assms by linarith+
  have e: "ensure H n p =
    (if \<not> h_grant H ?s then Inr (False, p\<lparr>pr_buffer := None\<rparr>)
     else if h_reallocate H then Inr (True, p\<lparr>pr_buffer := Some ?r\<rparr>)
     else if length cells < pr_offset p + 1 then Inl OutOfBounds
     else Inr (True, p\<lparr>pr_buffer := Some ?c\<rparr>))"
    unfolding ensure_def b option.case Let_def if_not_P [OF o] if_not_P [OF n(1)] if_not_P [OF n(2)]
      if_not_P [OF assms(4)] if_not_P [OF n(3)] ..
  consider "\<not> h_grant H ?s" | "h_grant H ?s" "h_reallocate H" | "h_grant H ?s" "\<not> h_reallocate H" by blast
  then show thesis
  proof cases
    case 1
    with e show thesis by (intro refused [of ?s]) simp_all
  next
    case 2
    have "pr_offset p + n < length ?r" using s by simp
    moreover have "take (pr_offset p) ?r = take (pr_offset p) cells" using s(2) o2 by auto
    ultimately show thesis using 2 e by (intro grown [of ?r]) simp_all
  next
    case 3
    then have l: "pr_offset p < length cells" using assms(1,4) by (auto simp: pb_ok_def)
    have "pr_offset p + n < length ?c" using s(1) l by simp
    moreover have "take (pr_offset p) ?c = take (pr_offset p) cells" using l by simp
    ultimately show thesis using 3 e l by (intro grown [of ?c]) simp_all
  qed
qed

lemma ensure_ok:
  assumes ok: "pb_ok H p cells"
  shows "\<exists>b p'. ensure H n p = Inr (b, p') \<and> (room H p cells (pr_offset p + (n + 1)) \<longrightarrow> b) \<and>
    (b \<longrightarrow> (\<exists>c. p' = p\<lparr>pr_buffer := Some c\<rparr> \<and> pr_offset p + n < length c \<and> take (pr_offset p) c = take (pr_offset p) cells \<and>
       (pr_noalloc p \<longrightarrow> length c = length cells)))"
proof -
  have b: "pr_buffer p = Some cells" and o: "\<not> (0 < length cells \<and> length cells \<le> pr_offset p)"
    using ok by (auto simp: pb_ok_def)
  let ?n = "n + pr_offset p + 1"
  consider (big) "SIZE_INT_MAX < n" | (fits) "n \<le> SIZE_INT_MAX" "?n \<le> length cells"
    | (fixed) "n \<le> SIZE_INT_MAX" "length cells < ?n" "pr_noalloc p"
    | (huge) "n \<le> SIZE_INT_MAX" "length cells < ?n" "\<not> pr_noalloc p" "SIZE_INT_MAX < ?n"
    | (grow) "n \<le> SIZE_INT_MAX" "length cells < ?n" "\<not> pr_noalloc p" "?n \<le> SIZE_INT_MAX"
    by linarith
  then show ?thesis
  proof cases
    case grow
    from ok grow show ?thesis
    proof (cases rule: ensure_grow_cases)
      case (refused s p')
      with grow(3) show ?thesis by (intro step_fails [where p' = p']) (auto simp: room_def)
    next
      case (grown c)
      with grow(3) show ?thesis by (intro step_succeeds [where p' = "p\<lparr>pr_buffer := Some c\<rparr>"]) auto
    qed
  next
    case fits
    then show ?thesis using b o by (intro step_succeeds [where p' = p]) (auto simp: ensure_def Let_def intro!: exI [of _ cells])
  qed (use b o in \<open>(intro step_fails [where p' = p]; auto simp: ensure_def Let_def room_def)+\<close>)
qed

lemma wr_cells_at:
  "i = length pre \<Longrightarrow> length d \<le> length rest \<Longrightarrow>
     wr_cells (pre @ rest) i d = Inr (pre @ map Some d @ drop (length d) rest)"
  by (simp add: wr_cells_def)

lemma split_block:
  "i \<le> length c \<Longrightarrow> c = take i c @ drop i c \<and> length (take i c) = i"
  by simp

lemma emit_outputs:
  assumes "length d \<le> n + 1" and "k \<le> n" and r: "n + 1 \<le> r"
  shows "outputs H (emit H n d k) e d k r e"
proof (rule outputsI)
  fix p cells
  assume ok: "pb_ok H p cells" and e: "pr_depth p = e"
  from ensure_ok [OF ok, of n] obtain b p' where
    p': "ensure H n p = Inr (b, p')" "room H p cells (pr_offset p + (n + 1)) \<longrightarrow> b"
    "b \<longrightarrow> (\<exists>c. p' = p\<lparr>pr_buffer := Some c\<rparr> \<and> pr_offset p + n < length c \<and> take (pr_offset p) c = take (pr_offset p) cells \<and>
       (pr_noalloc p \<longrightarrow> length c = length cells))" by blast
  have rm: "room H p cells (pr_offset p + r) \<Longrightarrow> room H p cells (pr_offset p + (n + 1))"
    using r by (auto simp: room_def split: if_splits)
  show "\<exists>b p'. emit H n d k p = Inr (b, p') \<and> (room H p cells (pr_offset p + r) \<longrightarrow> b) \<and> (b \<longrightarrow> wrote H p cells d k e p')"
  proof (cases b)
    case False
    with p' rm show ?thesis by (intro step_fails [where p' = p']) (auto simp: emit_def and_then_def)
  next
    case True
    with p'(3) obtain c where c: "p' = p\<lparr>pr_buffer := Some c\<rparr>" "pr_offset p + n < length c"
      "take (pr_offset p) c = take (pr_offset p) cells" "pr_noalloc p \<longrightarrow> length c = length cells" by blast
    let ?c = "take (pr_offset p) c @ map Some d @ drop (pr_offset p + length d) c"
    have w: "wr_cells c (pr_offset p) d = Inr ?c" using c(2) assms(1) by (simp add: wr_cells_def)
    have l: "length ?c = length c" using c(2) assms(1) by simp
    have "take (pr_offset p + length d) ?c = take (pr_offset p) c @ map Some d" using c(2) by simp
    then have "wrote H p cells d k e (p\<lparr>pr_buffer := Some ?c, pr_offset := pr_offset p + k\<rparr>)"
      unfolding wrote_def using c e l assms(2) by (intro exI [of _ ?c]) (auto simp: pb_ok_def)
    then show ?thesis using p'(1) True c(1) w
      by (intro step_succeeds [where p' = "p\<lparr>pr_buffer := Some ?c, pr_offset := pr_offset p + k\<rparr>"])
        (simp_all add: emit_def and_then_def write_out_def move_def)
  qed
qed

lemma move_0_outputs: "outputs H (move 0) e [] 0 r e"
  by (rule outputsI) (auto simp: move_def wrote_def)

lemma deeper_outputs: "outputs H deeper e [] 0 0 (Suc e)"
  by (rule outputsI) (auto simp: deeper_def wrote_def pb_ok_def)

lemma shallower_outputs: "outputs H shallower (Suc e) [] 0 0 e"
  by (rule outputsI) (auto simp: shallower_def wrote_def pb_ok_def)

lemma at_depth_outputs: "outputs H (f e) e d k r e' \<Longrightarrow> outputs H (at_depth f) e d k r e'"
  by (simp add: outputs_def at_depth_def)

lemma false_outputs: "\<not> room_needed \<Longrightarrow> (\<And>p cells. \<not> room H p cells (pr_offset p + r)) \<Longrightarrow> outputs H (\<lambda>p. Inr (False, p)) e d k r e'"
  by (auto simp: outputs_def)

lemma cells_strlen_text: "NUL \<notin> set t \<Longrightarrow> cells_strlen (map Some t @ Some NUL # r) = Inr (length t)"
  by (induction t) auto

lemma update_outputs:
  assumes m: "outputs H m e (t @ [NUL]) k r e'" and t: "NUL \<notin> set t" and k: "k \<le> length t"
  shows "outputs H (and_then m update_offset) e (t @ [NUL]) (length t) r e'"
proof (rule outputsI)
  fix p cells
  assume ok: "pb_ok H p cells" and e: "pr_depth p = e"
  from m ok e obtain b p' where 1: "m p = Inr (b, p')" "room H p cells (pr_offset p + r) \<longrightarrow> b"
    "b \<longrightarrow> wrote H p cells (t @ [NUL]) k e' p'" unfolding outputs_def by blast
  show "\<exists>b p'. and_then m update_offset p = Inr (b, p') \<and> (room H p cells (pr_offset p + r) \<longrightarrow> b) \<and>
      (b \<longrightarrow> wrote H p cells (t @ [NUL]) (length t) e' p')"
  proof (cases b)
    case False
    with 1 show ?thesis by (intro step_fails [where p' = p']) (auto simp: and_then_def)
  next
    case True
    with 1(3) obtain c where c: "pb_ok H p' c" "pr_depth p' = e'" "pr_noalloc p' = pr_noalloc p"
      "pr_offset p' = pr_offset p + k"
      "take (pr_offset p + length (t @ [NUL])) c = take (pr_offset p) cells @ map Some (t @ [NUL])"
      "pr_noalloc p \<longrightarrow> length c = length cells" by (auto simp: wrote_def)
    let ?o = "pr_offset p"
    have o: "length (take ?o cells) = ?o" using ok by (auto simp: pb_ok_def)
    obtain rest where cs: "c = take ?o cells @ map Some t @ Some NUL # rest"
      using c(5) append_take_drop_id [of "?o + length (t @ [NUL])" c]
      by (metis append.assoc append_Cons append_Nil list.simps(8,9) map_append)
    have dr: "drop (?o + k) c = map Some (drop k t) @ Some NUL # rest" unfolding cs using o k by (simp add: drop_map)
    have "NUL \<notin> set (drop k t)" using t by (auto dest: in_set_dropD)
    then have sl: "cells_strlen (drop (?o + k) c) = Inr (length t - k)"
      unfolding dr using cells_strlen_text [of "drop k t" rest] by simp
    have ln: "?o + length t < length c" unfolding cs using o by simp
    have buf: "pr_buffer p' = Some c" using c(1) by (simp add: pb_ok_def)
    have "wrote H p cells (t @ [NUL]) (length t) e' (p'\<lparr>pr_offset := ?o + length t\<rparr>)"
      unfolding wrote_def using c ln buf by (intro exI [of _ c]) (auto simp: pb_ok_def)
    with 1(1) True sl buf c(4) k show ?thesis
      by (intro step_succeeds [where p' = "p'\<lparr>pr_offset := ?o + length t\<rparr>"])
        (auto simp: and_then_def update_offset_def)
  qed
qed

section \<open>Strings\<close>

lemma short_escape_plain:
  "31 < (of_char c :: nat) \<Longrightarrow> c \<noteq> CHR 0x22 \<Longrightarrow> c \<noteq> CHR 0x5C \<Longrightarrow> short_escape c = None"
  by (auto simp: short_escape_def)

lemma length_esc: "length (concat (map esc s)) = length s + escape_characters s"
proof (induction s)
  case (Cons c s)
  have "length (esc c) = 1 + (if short_escape c \<noteq> None then 1 else if (of_char c :: nat) < 32 then 5 else 0)"
    using short_escape_plain [of c]
    by (auto simp: esc_def u04x_def short_escape_def split: option.split)
  with Cons show ?case by (simp add: escape_characters_def)
qed (simp add: escape_characters_def)

lemma no_escape: "escape_characters s = 0 \<Longrightarrow> concat (map esc s) = s"
proof (induction s)
  case (Cons c s)
  then have "short_escape c = None" "\<not> (of_char c :: nat) < 32" "concat (map esc s) = s"
    by (auto simp: escape_characters_def split: if_splits)
  moreover have "esc c = [c]"
    using calculation(1,2) by (auto simp: esc_def short_escape_def split: if_splits)
  ultimately show ?case by simp
qed simp

lemma copy_escaped_writes:
  "i = length pre \<Longrightarrow> length (concat (map esc s)) < length rest \<Longrightarrow>
     \<exists>rest'. copy_escaped s i (pre @ rest) = Inr (pre @ map Some (concat (map esc s)) @ rest') \<and>
       length rest' + length (concat (map esc s)) = length rest"
proof (induction s arbitrary: i pre rest)
  case (Cons c s)
  have step: "\<exists>rest'. copy_escaped s j (pre @ map Some x @ r) = Inr (pre @ map Some (x @ concat (map esc s)) @ rest') \<and>
      length rest' + length (x @ concat (map esc s)) = length rest"
    if "j = length pre + length x" and "length r + length x = length rest" and "length x = length (esc c)" for j x r
    using Cons.IH [of j "pre @ map Some x" r] that Cons.prems by auto
  show ?case
  proof (cases "31 < (of_char c :: nat) \<and> c \<noteq> CHR 0x22 \<and> c \<noteq> CHR 0x5C")
    case True
    then have "esc c = [c]" by (simp add: esc_def)
    with step [of "length pre + 1" "[c]" "drop 1 rest"] True Cons.prems show ?thesis
      by (simp add: write_cells_def wr_cells_at)
  next
    case esc: False
    have w1: "write_cells (length pre) [CHR 0x5C] (pre @ rest) = Inr (pre @ Some CHR 0x5C # drop 1 rest)"
      using Cons.prems by (simp add: write_cells_def wr_cells_at)
    show ?thesis
    proof (cases "short_escape c")
      case (Some x)
      with esc have x: "esc c = [CHR 0x5C, x]" by (simp add: esc_def)
      have "write_cells (length pre + 1) [x] (pre @ Some CHR 0x5C # drop 1 rest)
          = Inr (pre @ map Some [CHR 0x5C, x] @ drop 2 rest)"
        using wr_cells_at [of "length pre + 1" "pre @ [Some CHR 0x5C]" "[x]" "drop 1 rest"] Cons.prems x
        by (simp add: write_cells_def numeral_2_eq_2)
      with step [of "length pre + 2" "[CHR 0x5C, x]" "drop 2 rest"] Some w1 Cons.prems x show ?thesis
        unfolding copy_escaped.simps if_not_P [OF esc] by simp
    next
      case None
      with esc have x: "esc c = CHR 0x5C # u04x c" by (simp add: esc_def)
      have u: "length (u04x c) = 5" by (simp add: u04x_def)
      have "write_cells (length pre + 1) (u04x c @ [NUL]) (pre @ Some CHR 0x5C # drop 1 rest)
          = Inr (pre @ map Some (CHR 0x5C # u04x c) @ Some NUL # drop 7 rest)"
        using wr_cells_at [of "length pre + 1" "pre @ [Some CHR 0x5C]" "u04x c @ [NUL]" "drop 1 rest"] Cons.prems x u
        by (simp add: write_cells_def)
      with step [of "length pre + 6" "CHR 0x5C # u04x c" "Some NUL # drop 7 rest"] None w1 Cons.prems x u
      show ?thesis unfolding copy_escaped.simps if_not_P [OF esc] by simp
    qed
  qed
qed simp

lemma write_literal_ok:
  assumes "pr_buffer p = Some c" and "pr_offset p + (length s + escape_characters s + 3) < length c"
  shows "\<exists>c'. write_literal s (length s + escape_characters s) p = Inr (True, p\<lparr>pr_buffer := Some c'\<rparr>) \<and>
    take (pr_offset p + length (quoted (Some s) @ [NUL])) c' = take (pr_offset p) c @ map Some (quoted (Some s) @ [NUL]) \<and>
    length c' = length c"
proof -
  let ?o = "pr_offset p"
  let ?e = "concat (map esc s)"
  obtain pre rest where c: "c = pre @ rest" "length pre = ?o"
    using assms(2) by (metis add_lessD1 append_take_drop_id length_take less_imp_le_nat min.absorb2)
  have r: "length ?e + 3 < length rest" using assms(2) c length_esc [of s] by simp
  have w1: "write_cells ?o [CHR 0x22] c = Inr ((pre @ [Some CHR 0x22]) @ drop 1 rest)"
    unfolding c(1) write_cells_def using c(2) r wr_cells_at [of ?o pre "[CHR 0x22]" rest] by simp
  have r1: "length ?e < length rest - 1" using r by linarith
  from copy_escaped_writes [of "?o + 1" "pre @ [Some CHR 0x22]" s "drop 1 rest"] c(2) r1
  obtain rest' where w2: "copy_escaped s (?o + 1) ((pre @ [Some CHR 0x22]) @ drop 1 rest)
      = Inr ((pre @ [Some CHR 0x22] @ map Some ?e) @ rest')" "length rest' + length ?e = length rest - 1" by auto
  have w3: "write_cells (?o + (length s + escape_characters s) + 1) [CHR 0x22, NUL] ((pre @ [Some CHR 0x22] @ map Some ?e) @ rest')
      = Inr ((pre @ [Some CHR 0x22] @ map Some ?e) @ map Some [CHR 0x22, NUL] @ drop 2 rest')"
    unfolding write_cells_def
    using wr_cells_at [of "?o + (length s + escape_characters s) + 1" "pre @ [Some CHR 0x22] @ map Some ?e" "[CHR 0x22, NUL]" rest']
      c(2) length_esc [of s] w2(2) r by (simp add: numeral_2_eq_2)
  let ?c = "(pre @ [Some CHR 0x22] @ map Some ?e) @ map Some [CHR 0x22, NUL] @ drop 2 rest'"
  have "write_literal s (length s + escape_characters s) p = Inr (True, p\<lparr>pr_buffer := Some ?c\<rparr>)"
    using assms(1) w1 w2(1) w3 by (simp add: write_literal_def)
  moreover have "take (?o + length (quoted (Some s) @ [NUL])) ?c = take ?o c @ map Some (quoted (Some s) @ [NUL])"
    using c by (simp add: quoted_def numeral_3_eq_3)
  moreover have "length ?c = length c" using c(1) w2(2) r by simp
  ultimately show ?thesis by blast
qed

lemma print_escaped_outputs:
  assumes "length (quoted (Some x)) + 2 \<le> r" and "L = length x + escape_characters x"
  shows "outputs H (and_then (ensure H (L + 3)) (write_literal x L)) e (quoted (Some x) @ [NUL]) 0 r e"
proof (rule outputsI)
  fix p cells
  assume ok: "pb_ok H p cells" and e: "pr_depth p = e"
  from ensure_ok [OF ok, of "L + 3"] obtain b p' where
    p': "ensure H (L + 3) p = Inr (b, p')" "room H p cells (pr_offset p + (L + 3 + 1)) \<longrightarrow> b"
    "b \<longrightarrow> (\<exists>c. p' = p\<lparr>pr_buffer := Some c\<rparr> \<and> pr_offset p + (L + 3) < length c \<and>
       take (pr_offset p) c = take (pr_offset p) cells \<and> (pr_noalloc p \<longrightarrow> length c = length cells))" by blast
  have rm: "room H p cells (pr_offset p + r) \<Longrightarrow> room H p cells (pr_offset p + (L + 3 + 1))"
    using assms length_esc [of x] by (auto simp: room_def quoted_def split: if_splits)
  show "\<exists>b p'. and_then (ensure H (L + 3)) (write_literal x L) p = Inr (b, p') \<and>
      (room H p cells (pr_offset p + r) \<longrightarrow> b) \<and> (b \<longrightarrow> wrote H p cells (quoted (Some x) @ [NUL]) 0 e p')"
  proof (cases b)
    case False
    with p' rm show ?thesis by (intro step_fails [where p' = p']) (auto simp: and_then_def)
  next
    case True
    with p'(3) obtain c where c: "p' = p\<lparr>pr_buffer := Some c\<rparr>" "pr_offset p + (L + 3) < length c"
      "take (pr_offset p) c = take (pr_offset p) cells" "pr_noalloc p \<longrightarrow> length c = length cells" by blast
    from write_literal_ok [of p' c x] c(1,2) obtain c' where
      w: "write_literal x L p' = Inr (True, p'\<lparr>pr_buffer := Some c'\<rparr>)"
      "take (pr_offset p + length (quoted (Some x) @ [NUL])) c' = take (pr_offset p) c @ map Some (quoted (Some x) @ [NUL])"
      "length c' = length c" using assms(2) by auto
    have "wrote H p cells (quoted (Some x) @ [NUL]) 0 e (p\<lparr>pr_buffer := Some c'\<rparr>)"
      unfolding wrote_def using c e w by (intro exI [of _ c']) (simp add: pb_ok_def)
    with p'(1) True c(1) w(1) show ?thesis
      by (intro step_succeeds [where p' = "p\<lparr>pr_buffer := Some c'\<rparr>"]) (simp_all add: and_then_def)
  qed
qed

lemma print_string_ptr_outputs:
  assumes "length (quoted s) + 2 \<le> r"
  shows "outputs H (print_string_ptr H s) e (quoted s @ [NUL]) 0 r e"
proof (cases s)
  case None
  with assms emit_outputs [of "[CHR 0x22, CHR 0x22, NUL]" 3 0 r H e] show ?thesis
    by (simp add: print_string_ptr_def quoted_def)
next
  case (Some x)
  let ?L = "length x + escape_characters x"
  have q: "length (quoted s) = ?L + 2" using Some length_esc [of x] by (simp add: quoted_def)
  show ?thesis
  proof (cases "escape_characters x = 0")
    case True
    then have "quoted s = CHR 0x22 # x @ [CHR 0x22]" using Some no_escape by (simp add: quoted_def)
    with emit_outputs [of "quoted s @ [NUL]" "?L + 3" 0 r H e] True Some q assms show ?thesis
      by (simp add: print_string_ptr_def Let_def)
  next
    case False
    with Some print_escaped_outputs [of x r ?L H e] assms show ?thesis by (simp add: print_string_ptr_def Let_def)
  qed
qed

section \<open>Values\<close>

lemma hex_digit_value: "n < 16 \<Longrightarrow> (of_char (hex_digit n) :: nat) = (if n < 10 then n + 48 else n + 87)"
  by (simp add: hex_digit_def)

lemma hex_digit_not_zero: "n < 16 \<Longrightarrow> NUL \<noteq> hex_digit n"
proof
  assume n: "n < 16" and h: "NUL = hex_digit n"
  have "(of_char (hex_digit n) :: nat) = 0" unfolding h [symmetric] by simp
  with hex_digit_value [OF n] show False by (simp split: if_splits)
qed

lemma esc_no_zero: "c \<noteq> NUL \<Longrightarrow> NUL \<notin> set (esc c)"
proof -
  have "(of_char c :: nat) < 256" by simp
  then have "(of_char c :: nat) div 16 < 16" by (simp add: div_less_iff_less_mult)
  then have "NUL \<notin> set (u04x c)" by (simp add: u04x_def hex_digit_not_zero)
  then show "c \<noteq> NUL \<Longrightarrow> NUL \<notin> set (esc c)"
    by (auto simp: esc_def short_escape_def split: option.splits if_splits)
qed

lemma quoted_no_zero:
  assumes "no_zero s"
  shows "NUL \<notin> set (quoted s)"
proof -
  have e: "NUL \<notin> set x \<Longrightarrow> NUL \<notin> set (concat (map esc x))" for x
  proof (induction x)
    case (Cons c x)
    with esc_no_zero [of c] show ?case by auto
  qed simp
  show ?thesis
  proof (cases s)
    case None
    then show ?thesis by (simp add: quoted_def)
  next
    case (Some x)
    with assms e [of x] show ?thesis by (simp add: quoted_def no_zero_def)
  qed
qed

lemma join_no_zero: "NUL \<notin> set sep \<Longrightarrow> \<forall>t \<in> set ts. NUL \<notin> set t \<Longrightarrow> NUL \<notin> set (join sep ts)"
  by (induction ts) auto

lemma member_lines_no_zero:
  "\<forall>(k, v) \<in> set kvs. NUL \<notin> set k \<and> NUL \<notin> set v \<Longrightarrow> NUL \<notin> set (member_lines fmt d kvs)"
  by (induction fmt d kvs rule: member_lines.induct) (auto simp: tabs_def)

lemma render_no_zero: "printable D x \<Longrightarrow> NUL \<notin> set (render D fmt d x)"
proof (induction x arbitrary: d)
  case (CJ t vs vi vd nm cs)
  have ch: "\<forall>c \<in> set cs. NUL \<notin> set (quoted (cj_string c)) \<and> NUL \<notin> set (render D fmt (Suc d) c)"
  proof
    fix c
    assume c: "c \<in> set cs"
    then have p: "printable D c" using CJ.prems by (auto simp: Let_def list_all_iff)
    then have "no_zero (cj_string c)" by (cases c) (simp add: Let_def)
    with CJ.IH [OF c p] quoted_no_zero show "NUL \<notin> set (quoted (cj_string c)) \<and> NUL \<notin> set (render D fmt (Suc d) c)"
      by blast
  qed
  have j: "NUL \<notin> set (join (if fmt then '', '' else '','') (map (render D fmt (Suc d)) cs))"
    using ch by (intro join_no_zero) auto
  have m: "NUL \<notin> set (member_lines fmt (Suc d) (map (\<lambda>c. (quoted (cj_string c), render D fmt (Suc d) c)) cs))"
    using ch by (intro member_lines_no_zero) auto
  have q: "NUL \<notin> set (quoted vs)" using CJ.prems by (intro quoted_no_zero) (simp add: Let_def)
  have r: "NUL \<notin> set (case vs of None \<Rightarrow> [] | Some s \<Rightarrow> s)"
    using CJ.prems by (simp add: Let_def no_zero_def split: option.splits)
  have n: "t AND 0xFF = cJSON_Number \<Longrightarrow> NUL \<notin> set (number_text D vd)"
    using CJ.prems by (simp add: Let_def)
  have tb: "NUL \<notin> set (tabs d)" by (simp add: tabs_def)
  show ?case unfolding render.simps Let_def using j m q r n tb by simp
qed

text \<open>The texts of the two containers.\<close>

definition array_text :: "'d dbl \<Rightarrow> bool \<Rightarrow> nat \<Rightarrow> 'd cJSON list \<Rightarrow> bytes" where
  "array_text D fmt e cs = join (if fmt then '', '' else '','') (map (render D fmt e) cs)"

definition object_text :: "'d dbl \<Rightarrow> bool \<Rightarrow> nat \<Rightarrow> 'd cJSON list \<Rightarrow> bytes" where
  "object_text D fmt e cs = member_lines fmt e (map (\<lambda>c. (quoted (cj_string c), render D fmt e c)) cs)"

lemma and_then_assoc: "and_then (and_then a b) c = and_then a (and_then b c)"
  by (rule ext) (auto simp: and_then_def res_bind_def split: sum.splits prod.splits)

lemma deeper_commutes:
  "and_then (ensure H n) (and_then deeper (and_then (write_out d) (and_then (move k) f))) = and_then (emit H n d k) (and_then deeper f)"
proof -
  have "and_then deeper (and_then (and_then (write_out d) (move k)) f) p = and_then (and_then (write_out d) (move k)) (and_then deeper f) p" for p
    by (cases p; cases "pr_buffer p") (auto simp: and_then_def deeper_def write_out_def move_def res_bind_def split: sum.splits)
  then have "and_then deeper (and_then (and_then (write_out d) (move k)) f) = and_then (and_then (write_out d) (move k)) (and_then deeper f)" ..
  then show ?thesis by (simp add: emit_def and_then_assoc)
qed

lemma outputs_more: "outputs H m e d k r e' \<Longrightarrow> r \<le> r' \<Longrightarrow> outputs H m e d k r' e'"
  unfolding outputs_def room_def by (smt (verit, best) add_le_mono le_refl le_trans)

definition value_outputs :: "internal_hooks \<Rightarrow> printer \<Rightarrow> nat \<Rightarrow> bytes \<Rightarrow> bool" where
  "value_outputs H m e t \<longleftrightarrow> (\<exists>k \<le> length t. outputs H m e (t @ [NUL]) k (length t + 2) e)"


definition says :: "internal_hooks \<Rightarrow> printer \<Rightarrow> nat \<Rightarrow> bytes \<Rightarrow> nat \<Rightarrow> bool" where
  "says H m e t e' \<longleftrightarrow> (\<exists>d. take (length t) d = t \<and> length t \<le> length d \<and> outputs H m e d (length t) (length t + 2) e')"

lemma says_seq:
  assumes "says H m e t1 e1" and "says H f e1 t2 e2"
  shows "says H (and_then m f) e (t1 @ t2) e2"
proof -
  from assms obtain d1 d2 where
    1: "take (length t1) d1 = t1" "length t1 \<le> length d1" "outputs H m e d1 (length t1) (length t1 + 2) e1"
    and 2: "take (length t2) d2 = t2" "length t2 \<le> length d2" "outputs H f e1 d2 (length t2) (length t2 + 2) e2"
    unfolding says_def by blast
  have "outputs H (and_then m f) e (t1 @ d2) (length (t1 @ t2)) (length (t1 @ t2) + 2) e2"
    by (rule outputs_seq [OF 1(3) 2(3)]) (use 1 2 in simp_all)
  with 2 show ?thesis unfolding says_def by (intro exI [of _ "t1 @ d2"]) simp
qed

lemma outputs_shallower:
  assumes "outputs H f (Suc e) d k r (Suc e)"
  shows "outputs H (and_then f shallower) (Suc e) d k r e"
proof (rule outputsI)
  fix p cells
  assume "pb_ok H p cells" and "pr_depth p = Suc e"
  with assms obtain b p' where 1: "f p = Inr (b, p')" "room H p cells (pr_offset p + r) \<longrightarrow> b"
    "b \<longrightarrow> wrote H p cells d k (Suc e) p'" unfolding outputs_def by blast
  show "\<exists>b p'. and_then f shallower p = Inr (b, p') \<and> (room H p cells (pr_offset p + r) \<longrightarrow> b) \<and> (b \<longrightarrow> wrote H p cells d k e p')"
  proof (cases b)
    case False
    with 1 show ?thesis by (intro step_fails [where p' = p']) (auto simp: and_then_def)
  next
    case True
    with 1(3) have w: "wrote H p cells d k (Suc e) p'" by simp
    then have "pr_depth p' = Suc e" by (auto simp: wrote_def)
    moreover from w have "wrote H p cells d k e (p'\<lparr>pr_depth := e\<rparr>)" unfolding wrote_def pb_ok_def by fastforce
    ultimately show ?thesis using 1(1) True
      by (intro step_succeeds [where p' = "p'\<lparr>pr_depth := e\<rparr>"]) (simp_all add: and_then_def shallower_def)
  qed
qed

lemma says_value:
  assumes "says H m e t1 (Suc e)" and "value_outputs H f (Suc e) t2"
  shows "value_outputs H (and_then m (and_then f shallower)) e (t1 @ t2)"
proof -
  from assms(1,2) obtain d1 k where
    1: "take (length t1) d1 = t1" "length t1 \<le> length d1" "outputs H m e d1 (length t1) (length t1 + 2) (Suc e)"
    and 2: "k \<le> length t2" "outputs H f (Suc e) (t2 @ [NUL]) k (length t2 + 2) (Suc e)"
    unfolding says_def value_outputs_def by blast
  from outputs_seq [OF 1(3) outputs_shallower [OF 2(2)], of "t1 @ t2 @ [NUL]" "length t1 + k" "length (t1 @ t2) + 2"] 1 2
  show ?thesis unfolding value_outputs_def by (intro exI [of _ "length t1 + k"]) simp
qed

lemma value_says: "value_outputs H m e t \<Longrightarrow> NUL \<notin> set t \<Longrightarrow> says H (and_then m update_offset) e t e"
  unfolding value_outputs_def says_def by (auto intro!: exI [of _ "t @ [NUL]"] update_outputs)

lemma value_outputs_emit:
  "n = length t + 1 \<Longrightarrow> k \<le> length t \<Longrightarrow> value_outputs H (emit H n (t @ [NUL]) k) e t"
  unfolding value_outputs_def by (intro exI [of _ k] conjI emit_outputs) simp_all

lemma says_emit: "n = length t + 1 \<or> n = length t \<Longrightarrow> k = length t \<Longrightarrow> says H (emit H n t k) e t e"
  unfolding says_def by (auto intro!: exI [of _ t] emit_outputs)

lemma says_emit_zero: "n = length t + 1 \<Longrightarrow> k = length t \<Longrightarrow> says H (emit H n (t @ [NUL]) k) e t e"
  unfolding says_def by (auto intro!: exI [of _ "t @ [NUL]"] emit_outputs)

lemma says_nothing: "says H (move 0) e [] e"
  unfolding says_def using move_0_outputs by fastforce

lemma says_at_depth: "says H (f e) e t e' \<Longrightarrow> says H (at_depth f) e t e'"
  unfolding says_def using at_depth_outputs by blast

lemma value_at_depth: "value_outputs H (f e) e t \<Longrightarrow> value_outputs H (at_depth f) e t"
  unfolding value_outputs_def using at_depth_outputs by blast

lemma says_deeper: "says H deeper e [] (Suc e)"
  unfolding says_def using outputs_more [OF deeper_outputs] by fastforce

text \<open>One value, given its containers; one turn of each loop; one container, given its loop.\<close>

lemma print_value_step:
  assumes p: "printable D item" and item: "item = CJ t vs vi vd nm cs"
    and arr: "t AND 0xFF = cJSON_Array \<Longrightarrow> value_outputs H (print_array H D fmt item) e (render D fmt e item)"
    and obj: "t AND 0xFF = cJSON_Object \<Longrightarrow> value_outputs H (print_object H D fmt item) e (render D fmt e item)"
  shows "value_outputs H (print_value H D fmt item) e (render D fmt e item)"
proof -
  let ?t = "t AND 0xFF"
  have num: "print_number H D item = emit H (length (number_text D vd) + 1) (number_text D vd @ [NUL]) (length (number_text D vd))"
    if "?t = cJSON_Number"
    using p that item by (intro ext) (simp add: print_number_def Let_def get_decimal_point_def cong: map_cong)
  have str: "value_outputs H (print_string H item) e (quoted vs)"
    using print_string_ptr_outputs [of vs "length (quoted vs) + 2" H e] item
    by (auto simp: print_string_def value_outputs_def)
  consider "?t = cJSON_NULL" | "?t = cJSON_False" | "?t = cJSON_True" | "?t = cJSON_Number" | "?t = cJSON_Raw"
    | "?t = cJSON_String" | "?t = cJSON_Array" | "?t = cJSON_Object"
    using p item by (auto simp: Let_def)
  then show ?thesis
  proof cases
    case 4
    then show ?thesis using num by (simp add: item print_value.simps value_outputs_emit)
  next
    case 5
    then show ?thesis using p by (auto simp: item print_value.simps Let_def intro!: value_outputs_emit)
  next
    case 6
    then show ?thesis using str by (simp add: item print_value.simps)
  next
    case 7
    then show ?thesis using arr by (simp add: item print_value.simps Let_def)
  next
    case 8
    then show ?thesis using obj by (simp add: item print_value.simps Let_def)
  qed (use value_outputs_emit [of 5 "''null''" 0 H e] value_outputs_emit [of 5 "''true''" 0 H e]
      value_outputs_emit [of 6 "''false''" 0 H e] in \<open>simp_all add: item print_value.simps\<close>)
qed

lemma print_elements_step:
  assumes "printable D c" and "value_outputs H (print_value H D fmt c) e (render D fmt e c)"
    and "says H (print_elements H D fmt cs) e (array_text D fmt e cs) e"
  shows "says H (print_elements H D fmt (c # cs)) e (array_text D fmt e (c # cs)) e"
proof -
  let ?sep = "if fmt then '', '' else '',''"
  have T: "array_text D fmt e (c # cs) = render D fmt e c @ (if cs \<noteq> [] then ?sep else []) @ array_text D fmt e cs"
    by (simp add: array_text_def)
  have v: "says H (and_then (print_value H D fmt c) update_offset) e (render D fmt e c) e"
    using assms(1,2) by (intro value_says render_no_zero)
  have s: "says H (if cs \<noteq> [] then (let sep = ?sep in emit H (length sep + 1) (sep @ [NUL]) (length sep)) else move 0) e
     (if cs \<noteq> [] then ?sep else []) e"
    using says_emit_zero [of "length ?sep + 1" ?sep "length ?sep"] says_nothing by (auto simp: Let_def)
  show ?thesis unfolding T print_elements.simps and_then_assoc [of _ update_offset, symmetric]
    by (rule says_seq [OF v says_seq [OF s assms(3)]])
qed

lemma print_members_step:
  assumes "printable D c" and "value_outputs H (print_value H D fmt c) e (render D fmt e c)"
    and "says H (print_members H D fmt cs) e (object_text D fmt e cs) e"
  shows "says H (print_members H D fmt (c # cs)) e (object_text D fmt e (c # cs)) e"
proof -
  let ?q = "quoted (cj_string c)"
  let ?tb = "if fmt then tabs e else []"
  let ?colon = "if fmt then '':'' @ tabs 1 else '':''"
  let ?sep = "(if cs \<noteq> [] then '','' else []) @ (if fmt then [CHR 0x0A] else [])"
  have T: "object_text D fmt e (c # cs) = ?tb @ ?q @ ?colon @ render D fmt e c @ ?sep @ object_text D fmt e cs"
    by (simp add: object_text_def)
  have nz: "no_zero (cj_string c)" using assms(1) by (cases c) (simp add: Let_def)
  have tb: "says H (if fmt then at_depth (\<lambda>d. emit H d (tabs d) d) else move 0) e ?tb e"
    using says_at_depth [of H "\<lambda>d. emit H d (tabs d) d" e "tabs e" e, OF says_emit] by (simp add: says_nothing tabs_def)
  have q: "says H (and_then (print_string_ptr H (cj_string c)) update_offset) e ?q e"
    using print_string_ptr_outputs [of "cj_string c" "length ?q + 2" H e]
    by (intro value_says quoted_no_zero [OF nz]) (auto simp: value_outputs_def)
  have cl: "says H (let colon = ?colon in emit H (length colon) colon (length colon)) e ?colon e"
    unfolding Let_def by (intro says_emit) simp_all
  have v: "says H (and_then (print_value H D fmt c) update_offset) e (render D fmt e c) e"
    using assms(1,2) by (intro value_says render_no_zero)
  have s: "says H (let sep = ?sep in emit H (length sep + 1) (sep @ [NUL]) (length sep)) e ?sep e"
    unfolding Let_def by (intro says_emit_zero) simp_all
  show ?thesis unfolding T print_members.simps and_then_assoc [of _ update_offset, symmetric]
    by (rule says_seq [OF tb says_seq [OF q says_seq [OF cl says_seq [OF v says_seq [OF s assms(3)]]]]])
qed

lemma print_array_step:
  assumes "says H (print_elements H D fmt cs) (Suc e) (array_text D fmt (Suc e) cs) (Suc e)"
  shows "value_outputs H (print_array H D fmt (CJ t vs vi vd nm cs)) e (''['' @ array_text D fmt (Suc e) cs @ '']'')"
proof -
  have op: "says H (emit H 1 ''['' 1) e ''['' e" by (intro says_emit) simp_all
  have cl: "value_outputs H (emit H 2 ('']'' @ [NUL]) 0) (Suc e) '']''" by (intro value_outputs_emit) simp_all
  show ?thesis
    using says_value [OF says_seq [OF op says_seq [OF says_deeper assms]] cl]
    by (simp add: print_array.simps and_then_assoc)
qed

lemma print_object_step:
  assumes "says H (print_members H D fmt cs) (Suc e) (object_text D fmt (Suc e) cs) (Suc e)"
  shows "value_outputs H (print_object H D fmt (CJ t vs vi vd nm cs)) e
    (''{'' @ (if fmt then [CHR 0x0A] else []) @ object_text D fmt (Suc e) cs @ (if fmt then tabs e else []) @ ''}'')"
proof -
  let ?start = "if fmt then ''{'' @ [CHR 0x0A] else ''{''"
  let ?close = "(if fmt then tabs e else []) @ ''}''"
  have op: "says H (emit H (if fmt then 3 else 2) ?start (length ?start)) e ?start e" by (intro says_emit) simp_all
  have cl: "value_outputs H (at_depth (\<lambda>d. emit H (if fmt then d + 1 else 2)
      ((if fmt then tabs (d - 1) else []) @ ''}'' @ [NUL]) 0)) (Suc e) ?close"
    using value_outputs_emit [of "if fmt then e + 2 else 2" ?close 0 H "Suc e"]
    by (intro value_at_depth) (cases fmt; simp add: tabs_def)
  have st: "''{'' @ (if fmt then [CHR 0x0A] else []) @ x = ?start @ [] @ x" for x by simp
  show ?thesis
    using says_value [OF says_seq [OF op says_seq [OF says_deeper assms]] cl]
    unfolding print_object.simps Let_def and_then_assoc deeper_commutes cJSON.sel st append_assoc .
qed

lemma print_value_outputs:
  "printable D item \<Longrightarrow> value_outputs H (print_value H D fmt item) e (render D fmt e item)"
  "list_all (printable D) cs \<Longrightarrow> says H (print_elements H D fmt cs) e (array_text D fmt e cs) e"
  "list_all (printable D) cs' \<Longrightarrow> says H (print_members H D fmt cs') e (object_text D fmt e cs') e"
  "list_all (printable D) (cj_child a) \<Longrightarrow>
     value_outputs H (print_array H D fmt a) e (''['' @ array_text D fmt (Suc e) (cj_child a) @ '']'')"
  "list_all (printable D) (cj_child ob) \<Longrightarrow>
     value_outputs H (print_object H D fmt ob) e
       (''{'' @ (if fmt then [CHR 0x0A] else []) @ object_text D fmt (Suc e) (cj_child ob) @ (if fmt then tabs e else []) @ ''}'')"
proof (induction H D fmt item and H D fmt cs and H D fmt cs' and H D fmt a and H D fmt ob arbitrary: e and e and e and e and e
    rule: print_value_print_elements_print_members_print_array_print_object.induct)
  case (1 H D fmt item)
  obtain t vs vi vd nm cs where item: "item = CJ t vs vi vd nm cs" by (cases item)
  show ?case
    by (rule print_value_step [OF 1(3) item])
      (use "1.IH" 1(3) item in \<open>simp_all add: Let_def array_text_def object_text_def\<close>)
next
  case (2 H D fmt)
  then show ?case by (simp add: print_elements.simps array_text_def says_nothing)
next
  case (3 H D fmt c cs)
  then show ?case by (intro print_elements_step) simp_all
next
  case (4 H D fmt)
  then show ?case by (simp add: print_members.simps object_text_def says_nothing)
next
  case (5 H D fmt c cs)
  then show ?case by (intro print_members_step) simp_all
next
  case (6 H D fmt t vs vi vd nm cs)
  then show ?case using print_array_step [of H D fmt cs e t vs vi vd nm] by simp
next
  case (7 H D fmt t vs vi vd nm cs)
  then show ?case using print_object_step [of H D fmt cs e t vs vi vd nm] by simp
qed

text \<open>
  With an allocator of the user's, a block of size 0 to start with is read at its first byte when it grows: \<open>ensure\<close>
  copies \<open>offset + 1\<close> bytes.
\<close>

lemma prebuffer_zero_overreads:
  assumes "H = hooks_of (\<lambda>_. True) (cJSON_InitHooks (Some \<lparr>malloc_fn = Some (Other m), free_fn = Some (Other f)\<rparr>))"
  shows "cJSON_PrintBuffered H D (Some (cJSON_CreateNull D)) 0 fmt = Inl OutOfBounds"
  by (simp add: assms hooks_of_def cJSON_InitHooks_def cJSON_PrintBuffered_def cJSON_CreateNull_def cJSON_New_Item_def with_type_def
      print_item_def print_value.simps fresh_buffer_def emit_def and_then_def ensure_def Let_def)

section \<open>Properties\<close>

lemma fresh_ok: "cells \<noteq> [] \<or> noalloc \<Longrightarrow> pb_ok H (fresh_buffer (Some cells) noalloc fmt) cells"
  by (auto simp: pb_ok_def fresh_buffer_def)

lemma block_text_exact: "NUL \<notin> set t \<Longrightarrow> block_text (map Some (t @ [NUL]) @ r) = Inr t"
  using cells_strlen_text [of t r] by (simp add: block_text_def comp_def)

lemma block_text_take:
  assumes "NUL \<notin> set t" and "take (length t + 1) c = map Some (t @ [NUL])"
  shows "block_text c = Inr t"
proof -
  have "c = map Some (t @ [NUL]) @ drop (length t + 1) c" using assms(2) by (metis append_take_drop_id)
  with block_text_exact [OF assms(1)] show ?thesis by metis
qed

lemma print_text_ok:
  assumes "printable D x"
  shows "\<exists>r. print H D (Some x) fmt = Inr r \<and> (\<forall>c. r = Some c \<longrightarrow> c = map Some (render D fmt 0 x @ [NUL])) \<and>
    ((\<forall>s. h_grant H s) \<and> length (render D fmt 0 x) + 2 \<le> SIZE_INT_MAX \<longrightarrow> r \<noteq> None)"
proof -
  let ?t = "render D fmt 0 x"
  let ?p = "fresh_buffer (Some (replicate 256 None)) False fmt"
  have nz: "NUL \<notin> set ?t" using render_no_zero [OF assms] .
  from print_value_outputs(1) [OF assms, of H fmt 0] obtain k where "k \<le> length ?t"
    "outputs H (print_value H D fmt x) 0 (?t @ [NUL]) k (length ?t + 2) 0" by (auto simp: value_outputs_def)
  from update_outputs [OF this(2) nz this(1)]
  have "outputs H (and_then (print_item H D fmt (Some x)) update_offset) 0 (?t @ [NUL]) (length ?t) (length ?t + 2) 0"
    by (simp add: print_item_def [abs_def])
  moreover have "pb_ok H ?p (replicate 256 None)" by (rule fresh_ok) simp
  moreover have "pr_depth ?p = 0" "pr_offset ?p = 0" "\<not> pr_noalloc ?p" by (simp_all add: fresh_buffer_def)
  ultimately obtain b p' where 1: "and_then (print_item H D fmt (Some x)) update_offset ?p = Inr (b, p')"
    "room H ?p (replicate 256 None) (length ?t + 2) \<longrightarrow> b"
    "b \<longrightarrow> wrote H ?p (replicate 256 None) (?t @ [NUL]) (length ?t) 0 p'"
    unfolding outputs_def by (metis add_0)
  show ?thesis
  proof (cases b)
    case False
    with 1(2) have "\<not> ((\<forall>s. h_grant H s) \<and> length ?t + 2 \<le> SIZE_INT_MAX)" by (auto simp: room_def fresh_buffer_def)
    with 1(1) False show ?thesis by (intro exI [of _ None]) (auto simp: print_def)
  next
    case True
    with 1(3) obtain c where c: "pr_buffer p' = Some c" "pr_offset p' = length ?t" "length ?t < length c"
      "take (length ?t + 1) c = map Some (?t @ [NUL])"
      by (auto simp: wrote_def pb_ok_def fresh_buffer_def)
    have "wr_cells (map Some (?t @ [NUL])) (length ?t) [NUL] = Inr (map Some (?t @ [NUL]))"
      by (simp add: wr_cells_def)
    with c 1(1) True have "print H D (Some x) fmt =
      Inr (if h_grant H 256 \<and> h_grant H (length ?t + 1) then Some (map Some (?t @ [NUL])) else None)"
      by (simp add: print_def)
    then show ?thesis by auto
  qed
qed

text \<open>
  Property C10: Printing gives the text of the item.  For every item that has a text, and whatever the
  allocator grants, \<open>print\<close> (behind \<open>cJSON_Print\<close> and \<open>cJSON_PrintUnformatted\<close>) never
  writes outside its block nor reads an unwritten byte; the block it returns holds exactly the text
  and a zero, and it returns one whenever memory is granted and the text fits the largest supported size.
\<close>
theorem print_renders:
  assumes "printable D x"
  shows "\<exists>r. print H D (Some x) fmt = Inr r \<and> (\<forall>c. r = Some c \<longrightarrow> c = map Some (render D fmt 0 x @ [NUL])) \<and>
    ((\<forall>s. h_grant H s) \<and> length (render D fmt 0 x) + 2 \<le> SIZE_INT_MAX \<longrightarrow> r \<noteq> None)"
  using assms by (rule print_text_ok)


definition libc_hooks :: internal_hooks where
  "libc_hooks = \<lparr>h_grant = (\<lambda>_. True), h_reallocate = True\<rparr>"

lemma ex_json_text:
  "printable int_dbl ex_json"
  "render int_dbl False 0 ex_json =
     ''{'' @ [CHR 0x22] @ ''dst'' @ [CHR 0x22] @ '':'' @ [CHR 0x22] @ ''rf'' @ [CHR 0x22] @ '','' @
     [CHR 0x22] @ ''n'' @ [CHR 0x22] @ '':3}''"
  "length (render int_dbl True 0 ex_json) < 40"
proof -
  have n: "number_text int_dbl 3 = ''3''"
  proof -
    have "digit 3 = CHR ''3''" by code_simp
    then show ?thesis by (simp add: number_text_def int_dbl_def dec_int_def dec_nat.simps [of 3])
  qed
  have q: "quoted (Some ''dst'') = [CHR 0x22] @ ''dst'' @ [CHR 0x22]" "quoted (Some ''rf'') = [CHR 0x22] @ ''rf'' @ [CHR 0x22]"
    "quoted (Some ''n'') = [CHR 0x22] @ ''n'' @ [CHR 0x22]"
    by (simp_all add: quoted_def esc_def)
  note d = ex_json_def named_def jstr_def cJSON_CreateObject_def with_child_def with_type_def cJSON_New_Item_def with_string_def
  show "printable int_dbl ex_json" by (simp add: d n no_zero_def)
  show "render int_dbl False 0 ex_json =
     ''{'' @ [CHR 0x22] @ ''dst'' @ [CHR 0x22] @ '':'' @ [CHR 0x22] @ ''rf'' @ [CHR 0x22] @ '','' @
     [CHR 0x22] @ ''n'' @ [CHR 0x22] @ '':3}''"
    by (simp add: d n q [simplified])
  show "length (render int_dbl True 0 ex_json) < 40"
    by (simp add: d n q [simplified] tabs_def)
qed

theorem print_renders_witness:
  "print libc_hooks int_dbl (Some ex_json) True = Inr (Some (map Some (render int_dbl True 0 ex_json @ [NUL])))"
proof -
  have l: "length (render int_dbl True 0 ex_json) + 2 \<le> SIZE_INT_MAX" using ex_json_text(3) by simp
  have g: "\<forall>s. h_grant libc_hooks s" by (simp add: libc_hooks_def)
  from print_renders [OF ex_json_text(1), of libc_hooks True] g l show ?thesis by blast
qed


end
