(* ===== verification/GW_JsonRoundTrip.thy ===== *)
theory GW_JsonRoundTrip
  imports GW_JsonPrint
begin

text \<open>
  The printer and the parser of \<open>cJSON.c\<close> together: what \<open>cJSON_Print\<close> or \<open>cJSON_PrintUnformatted\<close>
  writes, \<open>cJSON_Parse\<close> reads back.
\<close>

section \<open>Strings\<close>

fun escapes :: "bytes \<Rightarrow> nat" where
  "escapes [] = 0"
| "escapes (c # cs) = (if esc c = [c] then 0 else 1) + escapes cs"

lemma esc_cases:
  obtains (plain) "esc c = [c]" "c \<noteq> CHR 0x22" "c \<noteq> CHR 0x5C"
  | (short) x where "esc c = [CHR 0x5C, x]" "x \<noteq> CHR ''u''" "escape_char x = Some c"
  | (code) "esc c = CHR 0x5C # u04x c" "(of_char c :: nat) < 32"
proof (cases "31 < (of_char c :: nat) \<and> c \<noteq> CHR 0x22 \<and> c \<noteq> CHR 0x5C")
  case True
  then show ?thesis by (intro plain) (simp_all add: esc_def)
next
  case False
  show ?thesis
  proof (cases "short_escape c")
    case None
    with False have "(of_char c :: nat) < 32" by (auto simp: short_escape_def split: if_splits)
    with None False show ?thesis by (intro code) (simp_all add: esc_def)
  next
    case (Some x)
    then have "x \<noteq> CHR ''u''" "escape_char x = Some c"
      by (auto simp: short_escape_def escape_char_def split: if_splits)
    with Some False show ?thesis by (intro short [of x]) (simp_all add: esc_def)
  qed
qed

lemma hex_val_digit: "n < 16 \<Longrightarrow> hex_val (hex_digit n) = Some n"
  by (auto simp: hex_digit_value Let_def)

lemma hex_digit_plain: "n < 16 \<Longrightarrow> hex_digit n \<noteq> CHR 0x22 \<and> hex_digit n \<noteq> CHR 0x5C"
proof -
  assume n: "n < 16"
  have "(of_char (hex_digit n) :: nat) \<noteq> of_char CHR 0x22" "(of_char (hex_digit n) :: nat) \<noteq> of_char CHR 0x5C"
    using hex_digit_value [OF n] n by auto
  then show ?thesis by auto
qed

lemma parse_hex4_u04x: "parse_hex4 (drop 1 (u04x c) @ r) = of_char c"
proof -
  have "(of_char c :: nat) div 16 < 16" by (simp add: div_less_iff_less_mult)
  then show ?thesis
    by (simp add: parse_hex4_def u04x_def hex_val_digit del: hex_val.simps)
qed

lemma utf8_encode_ascii: "n < 128 \<Longrightarrow> utf8_encode n = Some [char_of n]"
proof -
  assume n: "n < 128"
  have "n AND 127 = take_bit 7 n" using take_bit_eq_mask [of 7 n] by (simp add: mask_eq_exp_minus_1)
  also have "\<dots> = n" using n by (simp add: take_bit_eq_mod)
  finally show ?thesis using n by (simp add: utf8_encode_def)
qed

lemma scan_string_step:
  assumes "s = pre @ c # r" and "i = length pre" and "c \<noteq> CHR 0x22"
  shows "scan_string s i k = (if c = CHR 0x5C then (if r = [] then None else scan_string s (i + 2) (k + 1)) else scan_string s (i + 1) k)"
  using assms by (subst scan_string.simps) (auto simp: Suc_le_eq)

lemma scan_string_plain:
  assumes "s = pre @ xs @ r" and "i = length pre" and "CHR 0x22 \<notin> set xs" and "CHR 0x5C \<notin> set xs"
  shows "scan_string s i k = scan_string s (i + length xs) k"
  using assms
proof (induction xs arbitrary: pre i)
  case (Cons x xs)
  then have "scan_string s i k = scan_string s (i + 1) k" by (subst scan_string_step) auto
  with Cons.IH [of "pre @ [x]" "i + 1"] Cons.prems show ?case by simp
qed simp

lemma scan_string_escaped:
  assumes "s = pre @ concat (map esc t) @ CHR 0x22 # post" and "i = length pre"
  shows "scan_string s i k = Some (i + length (concat (map esc t)), k + escapes t)"
  using assms
proof (induction t arbitrary: pre i k)
  case Nil
  then show ?case by (subst scan_string.simps) simp
next
  case (Cons c t)
  let ?r = "concat (map esc t) @ CHR 0x22 # post"
  show ?case
  proof (cases c rule: esc_cases)
    case plain
    with Cons.prems scan_string_step [of s pre c ?r i k] Cons.IH [of "pre @ [c]" "i + 1" k] show ?thesis by simp
  next
    case (short x)
    with Cons.prems scan_string_step [of s pre "CHR 0x5C" "x # ?r" i k]
      Cons.IH [of "pre @ [CHR 0x5C, x]" "i + 2" "k + 1"] show ?thesis by auto
  next
    case code
    let ?a = "hex_digit (of_char c div 16)" and ?b = "hex_digit (of_char c mod 16)" and ?z = "hex_digit 0"
    have s: "s = pre @ [CHR 0x5C, CHR ''u'', ?z, ?z, ?a, ?b] @ ?r" using Cons.prems code by (simp add: u04x_def)
    have "(of_char c :: nat) div 16 < 16" by (simp add: div_less_iff_less_mult)
    then have p: "?a \<noteq> CHR 0x22" "?a \<noteq> CHR 0x5C" "?b \<noteq> CHR 0x22" "?b \<noteq> CHR 0x5C" "?z \<noteq> CHR 0x22" "?z \<noteq> CHR 0x5C"
      using hex_digit_plain by simp_all
    have "scan_string s i k = scan_string s (i + 2) (k + 1)"
      by (rule trans [OF scan_string_step [of _ pre "CHR 0x5C" "[CHR ''u'', ?z, ?z, ?a, ?b] @ ?r"]])
        (use s Cons.prems(2) in simp_all)
    also have "\<dots> = scan_string s (i + 2 + length [?z, ?z, ?a, ?b]) (k + 1)"
      by (rule scan_string_plain [of _ "pre @ [CHR 0x5C, CHR ''u'']" _ ?r]) (use s p Cons.prems(2) in simp_all)
    also have "i + 2 + length [?z, ?z, ?a, ?b] = i + 6" by simp
    also have "scan_string s (i + 6) (k + 1) = Some (i + 6 + length (concat (map esc t)), k + 1 + escapes t)"
      by (rule Cons.IH [of "pre @ CHR 0x5C # u04x c"]) (use Cons.prems code in \<open>simp_all add: u04x_def\<close>)
    finally show ?thesis using code by (simp add: u04x_def)
  qed
qed

lemma unescape_escaped:
  assumes "s = pre @ concat (map esc t) @ CHR 0x22 # post" and "i = length pre"
    and "e = i + length (concat (map esc t))" and "length out + length t < cap"
  shows "unescape s e cap i out = Inr (Inr (out @ t))"
  using assms
proof (induction t arbitrary: pre i out)
  case Nil
  then show ?case by (subst unescape.simps) (simp add: put_def)
next
  case (Cons c t)
  let ?r = "concat (map esc t) @ CHR 0x22 # post"
  have ih: "unescape s e cap j (out @ [c]) = Inr (Inr (out @ c # t))" if "j = i + length (esc c)" for j
    using Cons.IH [of "pre @ esc c" j "out @ [c]"] that Cons.prems by simp
  have put: "put cap out [c] = Inr (out @ [c])" using Cons.prems by (simp add: put_def)
  show ?case
  proof (cases c rule: esc_cases)
    case plain
    with Cons.prems have "i < e" "byte_at s i = Inr c" by (auto simp: byte_at_def)
    with plain put ih [of "i + 1"] show ?thesis by (subst unescape.simps) simp
  next
    case (short x)
    with Cons.prems have "i < e" "byte_at s i = Inr CHR 0x5C" "byte_at s (i + 1) = Inr x"
      by (auto simp: byte_at_def nth_append)
    with short put ih [of "i + 2"] show ?thesis by (subst unescape.simps) simp
  next
    case code
    have u: "u04x c = CHR ''u'' # drop 1 (u04x c)" "length (u04x c) = 5" by (simp_all add: u04x_def)
    have s: "s = pre @ CHR 0x5C # CHR ''u'' # drop 1 (u04x c) @ ?r" using Cons.prems code u(1) by simp
    have b: "i < e" "byte_at s i = Inr CHR 0x5C" "byte_at s (i + 1) = Inr CHR ''u''"
      using Cons.prems(2,3) s code u by (auto simp: byte_at_def nth_append)
    have e6: "\<not> e < i + 6" using Cons.prems code u by simp
    have "drop (i + 2) s = drop 1 (u04x c) @ ?r" using s Cons.prems(2) by simp
    then have h: "parse_hex4 (drop (i + 2) s) = of_char c" using parse_hex4_u04x by metis
    have "utf16_literal_to_utf8 s i e = (6, [c])"
      using e6 h code(2) utf8_encode_ascii [of "of_char c"] by (simp add: utf16_literal_to_utf8_def Let_def)
    with b put ih [of "i + 6"] code u show ?thesis by (subst unescape.simps) simp
  qed
qed

lemma escapes_bound: "length t + escapes t \<le> length (concat (map esc t))"
proof (induction t)
  case (Cons c t)
  then show ?case by (cases c rule: esc_cases) (auto simp: u04x_def)
qed simp

lemma parse_string_quoted:
  assumes "content p = pre @ quoted (Some t) @ post" and "pb_offset p = length pre" and "NUL \<notin> set t"
  shows "parse_string p = Inr (Some t, advance (length (quoted (Some t))) p)"
proof -
  let ?E = "concat (map esc t)"
  let ?s = "content p"
  have s: "?s = (pre @ [CHR 0x22]) @ ?E @ CHR 0x22 # post" using assms(1) by (simp add: quoted_def)
  have b: "byte_at ?s (pb_offset p) = Inr CHR 0x22" using s assms(2) by (simp add: byte_at_def nth_append)
  have sc: "scan_string ?s (pb_offset p + 1) 0 = Some (pb_offset p + 1 + length ?E, escapes t)"
    using scan_string_escaped [OF s] assms(2) by simp
  have "unescape ?s (pb_offset p + 1 + length ?E) (length ?E + 1 - escapes t + 1) (pb_offset p + 1) [] = Inr (Inr ([] @ t))"
    by (rule unescape_escaped [OF s]) (use assms(2) escapes_bound [of t] in simp_all)
  moreover have "cstr t = t" using assms(3) by (auto simp: cstr_def takeWhile_eq_all_conv)
  ultimately show ?thesis using b sc by (simp add: parse_string_def Let_def quoted_def advance_def)
qed

section \<open>White space and literals\<close>

lemma skip_ws_run:
  assumes "content p = pre @ w @ c # post" and "pb_offset p = length pre" and "\<forall>x \<in> set w. ws x" and "\<not> ws c"
  shows "buffer_skip_whitespace p = p\<lparr>pb_offset := length pre + length w\<rparr>"
proof -
  have "takeWhile ws (drop (pb_offset p) (content p)) = w"
    using assms by (simp add: takeWhile_append takeWhile_eq_all_conv)
  with assms show ?thesis by (simp add: buffer_skip_whitespace_def Let_def)
qed

lemma here_at: "content p = pre @ c # post \<Longrightarrow> pb_offset p = length pre \<Longrightarrow> here p d \<longleftrightarrow> c = d"
  by (simp add: here_def can_access_at_index_def)

lemma starts_at:
  assumes "content p = pre @ c # post" and "pb_offset p = length pre" and "c \<noteq> d"
  shows "\<not> starts p (d # w)"
  using assms by (simp add: starts_def)

lemma starts_same: "content p = pre @ w @ post \<Longrightarrow> pb_offset p = length pre \<Longrightarrow> starts p w"
  by (simp add: starts_def can_read_def)

section \<open>What is read back\<close>

text \<open>
  The item that the parser builds from the text of \<open>x\<close>: flags are dropped, and only the fields
  that its type uses are kept (the parser sets \<open>valueint\<close> of \<open>true\<close> to 1).
\<close>

fun canon :: "'d dbl \<Rightarrow> bytes option \<Rightarrow> 'd cJSON \<Rightarrow> 'd cJSON" where
  "canon D nm (CJ t vs vi vd nm' cs) =
     (let t = t AND 0xFF
      in if t = cJSON_True then CJ t None 1 (d_zero D) nm []
         else if t = cJSON_Number then CJ t None (saturate D vd) vd nm []
         else if t = cJSON_String then CJ t vs 0 (d_zero D) nm []
         else if t = cJSON_Array then CJ t None 0 (d_zero D) nm (map (canon D None) cs)
         else if t = cJSON_Object then CJ t None 0 (d_zero D) nm (map (\<lambda>c. canon D (cj_string c) c) cs)
         else CJ t None 0 (d_zero D) nm [])"

text \<open>
  The items that survive: no raw text, strings and keys present and without zeros, and numbers
  whose text \<open>strtod\<close> reads back to the same value.  \<open>nesting\<close> is the number of nested containers.
\<close>

definition number_back :: "'d dbl \<Rightarrow> 'd \<Rightarrow> bool" where
  "number_back D d \<longleftrightarrow>
     (let t = number_text D d
      in t \<noteq> [] \<and> length t < 26 \<and> list_all number_char t \<and> hd t \<in> set ''-0123456789'' \<and> d_strtod D t = (d, length t))"

fun reads_back :: "'d dbl \<Rightarrow> 'd cJSON \<Rightarrow> bool" where
  "reads_back D (CJ t vs vi vd nm cs) \<longleftrightarrow>
     (let t = t AND 0xFF
      in t \<in> {cJSON_NULL, cJSON_False, cJSON_True, cJSON_Number, cJSON_String, cJSON_Array, cJSON_Object} \<and>
         (t = cJSON_Number \<longrightarrow> number_back D vd) \<and> (t = cJSON_String \<longrightarrow> vs \<noteq> None) \<and> no_zero vs \<and>
         (t = cJSON_Object \<longrightarrow> list_all (\<lambda>c. cj_string c \<noteq> None \<and> no_zero (cj_string c)) cs) \<and>
         list_all (reads_back D) cs)"

fun nesting :: "'d cJSON \<Rightarrow> nat" where
  "nesting (CJ t vs vi vd nm cs) =
     (if t AND 0xFF \<in> {cJSON_Array, cJSON_Object} then Suc (Max (set (0 # map nesting cs))) else 0)"

text \<open>The first character of a text.\<close>

lemma render_first:
  "reads_back D x \<Longrightarrow> \<exists>c r. render D fmt d x = c # r \<and> \<not> ws c \<and> c \<noteq> CHR '']'' \<and> c \<noteq> CHR ''}'' \<and> c \<noteq> CHR 0xEF"
proof (cases x)
  case (CJ t vs vi vd nm cs)
  have num: "number_back D vd \<Longrightarrow> ?thesis" if "t AND 0xFF = cJSON_Number"
  proof -
    assume "number_back D vd"
    then obtain c r where "number_text D vd = c # r" "c \<in> set ''-0123456789''"
      by (cases "number_text D vd") (auto simp: number_back_def Let_def)
    then show ?thesis using that CJ by (auto simp: ws_def)
  qed
  assume "reads_back D x"
  with CJ num show ?thesis by (auto simp: Let_def ws_def quoted_def)
qed

definition value_reads :: "('d cJSON \<Rightarrow> parse_buffer \<Rightarrow> 'd parsed) \<Rightarrow> 'd dbl \<Rightarrow> nat \<Rightarrow> bytes \<Rightarrow> 'd cJSON \<Rightarrow> bool" where
  "value_reads pv D e t x \<longleftrightarrow>
     (\<forall>ty nm p pre post. content p = pre @ t @ post \<and> pb_offset p = length pre \<and> pb_depth p = e \<and>
        post \<noteq> [] \<and> \<not> number_char (hd post) \<longrightarrow>
        pv (CJ ty None 0 (d_zero D) nm []) p = Some (Inr (Some (canon D nm x), advance (length t) p)))"

lemma value_readsD:
  "value_reads pv D e t x \<Longrightarrow> content p = pre @ t @ c # post \<Longrightarrow> pb_offset p = length pre \<Longrightarrow> pb_depth p = e \<Longrightarrow>
     \<not> number_char c \<Longrightarrow> pv (CJ ty None 0 (d_zero D) nm []) p = Some (Inr (Some (canon D nm x), p\<lparr>pb_offset := length pre + length t\<rparr>))"
  by (simp add: value_reads_def advance_def)

section \<open>Containers\<close>

lemma parse_elements_reads:
  assumes pv: "\<forall>c \<in> set cs. value_reads pv D e (tx c) c \<and> (\<exists>a r. tx c = a # r \<and> \<not> ws a)"
    and sep: "\<forall>x \<in> set sp. ws x"
    and "cs \<noteq> []" and "length cs \<le> m"
    and "content p = pre @ w @ join (CHR '','' # sp) (map tx cs) @ CHR '']'' # post"
    and "\<forall>x \<in> set w. ws x" and "pb_offset p + 1 = length pre" and "pb_depth p = e"
  shows "parse_elements pv D m head p =
    Some (Inr (Some (head @ map (canon D None) cs),
      p\<lparr>pb_offset := length pre + length w + length (join (CHR '','' # sp) (map tx cs))\<rparr>))"
  using assms
proof (induction cs arbitrary: m head p pre w)
  case (Cons c cs)
  obtain m' where m: "m = Suc m'" using Cons.prems(4) by (cases m) auto
  obtain a r where a: "tx c = a # r" "\<not> ws a" using Cons.prems(1) by auto
  let ?j = "join (CHR '','' # sp) (map tx cs)"
  let ?tail = "(if cs \<noteq> [] then CHR '','' # sp else []) @ ?j @ CHR '']'' # post"
  have ct: "content p = pre @ w @ tx c @ ?tail" using Cons.prems(5) by simp
  obtain d tl where d: "?tail = d # tl" "\<not> ws d" "\<not> number_char d" "d = (if cs \<noteq> [] then CHR '','' else CHR '']'')"
    by (cases cs) (auto simp: ws_def number_char_def)
  let ?q = "buffer_skip_whitespace (advance 1 p)"
  have "?q = (advance 1 p)\<lparr>pb_offset := length pre + length w\<rparr>"
    by (rule skip_ws_run [of _ pre w a "r @ ?tail"]) (use ct a Cons.prems(6,7) in \<open>simp_all add: advance_def\<close>)
  then have q: "?q = p\<lparr>pb_offset := length pre + length w\<rparr>" by (simp add: advance_def)
  let ?o = "length pre + length w + length (tx c)"
  have v: "pv (cJSON_New_Item D) ?q = Some (Inr (Some (canon D None c), p\<lparr>pb_offset := ?o\<rparr>))"
    using value_readsD [of pv D e "tx c" c ?q "pre @ w" d tl 0 None] Cons.prems(1,8) ct d(1,3) q
    by (simp add: cJSON_New_Item_def advance_def)
  have sk: "buffer_skip_whitespace (p\<lparr>pb_offset := ?o\<rparr>) = p\<lparr>pb_offset := ?o\<rparr>"
    using skip_ws_run [of "p\<lparr>pb_offset := ?o\<rparr>" "pre @ w @ tx c" "[]" d tl] ct d(1,2) by simp
  have h: "here (p\<lparr>pb_offset := ?o\<rparr>) CHR '','' \<longleftrightarrow> cs \<noteq> []"
    using here_at [of "p\<lparr>pb_offset := ?o\<rparr>" "pre @ w @ tx c" d tl "CHR '',''"] ct d(1,4) by auto
  show ?case
  proof (cases "cs = []")
    case True
    with m v sk h show ?thesis by (simp add: parse_elements.simps)
  next
    case False
    have "parse_elements pv D m' (head @ [canon D None c]) (p\<lparr>pb_offset := ?o\<rparr>) =
      Some (Inr (Some ((head @ [canon D None c]) @ map (canon D None) cs),
        (p\<lparr>pb_offset := ?o\<rparr>)\<lparr>pb_offset := length (pre @ w @ tx c @ '','') + length sp + length ?j\<rparr>))"
      by (rule Cons.IH) (use Cons.prems m False ct in simp_all)
    with m v sk h False show ?thesis by (simp add: parse_elements.simps add.assoc)
  qed
qed simp

fun member_body :: "bool \<Rightarrow> nat \<Rightarrow> (bytes \<times> bytes) list \<Rightarrow> bytes" where
  "member_body fmt d [] = []"
| "member_body fmt d ((k, v) # r) =
     k @ (if fmt then '':'' @ tabs 1 else '':'') @ v @ (if r \<noteq> [] then '','' else '''') @
     (if fmt then [CHR 0x0A] else []) @ (if fmt \<and> r \<noteq> [] then tabs d else []) @ member_body fmt d r"

lemma member_lines_body:
  "member_lines fmt d kvs = (if fmt \<and> kvs \<noteq> [] then tabs d else []) @ member_body fmt d kvs"
  by (induction fmt d kvs rule: member_body.induct) auto

lemma ws_tabs: "x \<in> set (tabs d) \<Longrightarrow> ws x"
  by (auto simp: tabs_def ws_def)

text \<open>A key with its colon, between white space.\<close>

lemma member_key_reads:
  assumes ct: "content p = pre @ w @ quoted (Some k) @ '':'' @ cw @ a # rest" and o: "pb_offset p + 1 = length pre"
    and k: "NUL \<notin> set k" and w: "\<forall>x \<in> set w. ws x" "\<forall>x \<in> set cw. ws x" "\<not> ws a"
    and i: "i = length pre + length w + length (quoted (Some k))"
  shows "parse_string (buffer_skip_whitespace (advance 1 p)) = Inr (Some k, p\<lparr>pb_offset := i\<rparr>)"
    and "buffer_skip_whitespace (p\<lparr>pb_offset := i\<rparr>) = p\<lparr>pb_offset := i\<rparr>"
    and "here (p\<lparr>pb_offset := i\<rparr>) CHR '':''"
    and "buffer_skip_whitespace (advance 1 (p\<lparr>pb_offset := i\<rparr>)) = p\<lparr>pb_offset := i + 1 + length cw\<rparr>"
proof -
  let ?k = "quoted (Some k)" and ?q = "buffer_skip_whitespace (advance 1 p)" and ?p = "p\<lparr>pb_offset := i\<rparr>"
  obtain kr where kr: "?k = CHR 0x22 # kr" by (simp add: quoted_def)
  have "?q = (advance 1 p)\<lparr>pb_offset := length pre + length w\<rparr>"
    by (rule skip_ws_run [of _ pre w "CHR 0x22" "kr @ '':'' @ cw @ a # rest"])
      (use ct kr w(1) o in \<open>simp_all add: advance_def ws_def\<close>)
  then have q: "?q = p\<lparr>pb_offset := length pre + length w\<rparr>" by (simp add: advance_def)
  show "parse_string ?q = Inr (Some k, ?p)"
    using parse_string_quoted [of ?q "pre @ w" k "'':'' @ cw @ a # rest"] ct k q i by (simp add: advance_def)
  show "buffer_skip_whitespace ?p = ?p"
    using skip_ws_run [of ?p "pre @ w @ ?k" "[]" "CHR '':''" "cw @ a # rest"] ct i by (simp add: ws_def)
  show "here ?p CHR '':''"
    using here_at [of ?p "pre @ w @ ?k" "CHR '':''" "cw @ a # rest"] ct i by simp
  have "buffer_skip_whitespace (advance 1 ?p) = (advance 1 ?p)\<lparr>pb_offset := length (pre @ w @ ?k @ '':'') + length cw\<rparr>"
    by (rule skip_ws_run [of _ _ _ a rest]) (use ct w i in \<open>simp_all add: advance_def\<close>)
  then show "buffer_skip_whitespace (advance 1 ?p) = p\<lparr>pb_offset := i + 1 + length cw\<rparr>" using i by (simp add: advance_def)
qed

text \<open>One member: its name, the colon and its value are read, and the loop looks at what follows.\<close>

lemma parse_member_reads:
  assumes v: "value_reads pv D e t c" "t = a # r" "\<not> ws a" and k: "NUL \<notin> set k"
    and ct: "content p = pre @ w @ quoted (Some k) @ '':'' @ cw @ t @ d' # rest" and d': "\<not> number_char d'"
    and w: "\<forall>x \<in> set w. ws x" "\<forall>x \<in> set cw. ws x" and o: "pb_offset p + 1 = length pre" and dep: "pb_depth p = e"
    and p4: "p4 = buffer_skip_whitespace (p\<lparr>pb_offset := length (pre @ w @ quoted (Some k) @ '':'' @ cw @ t)\<rparr>)"
  shows "parse_members pv D (Suc m) head p =
    (if here p4 CHR '','' then parse_members pv D m (head @ [canon D (Some k) c]) p4
     else Some (Inr (Some (head @ [canon D (Some k) c]), p4)))"
proof -
  let ?k = "quoted (Some k)"
  let ?o = "length pre + length w + length ?k"
  let ?q2 = "p\<lparr>pb_offset := ?o + 1 + length cw\<rparr>"
  have ct1: "content p = pre @ w @ ?k @ '':'' @ cw @ a # (r @ d' # rest)" using ct v(2) by simp
  note key = member_key_reads [OF ct1 o k w v(3) refl]
  have "pv (CJ cJSON_String None 0 (d_zero D) (Some k) []) ?q2 =
      Some (Inr (Some (canon D (Some k) c), p\<lparr>pb_offset := ?o + 1 + length cw + length t\<rparr>))"
    using value_readsD [OF v(1), of ?q2 "pre @ w @ ?k @ '':'' @ cw" d' rest cJSON_String "Some k"] ct d' dep by simp
  then show ?thesis using key p4 by (simp add: parse_members.simps add.assoc)
qed

lemma parse_members_reads:
  assumes pv: "\<forall>c \<in> set cs. value_reads pv D e (tx c) c \<and> (\<exists>a r. tx c = a # r \<and> \<not> ws a) \<and>
      (\<exists>k. cj_string c = Some k \<and> NUL \<notin> set k)"
    and "cs \<noteq> []" and "length cs \<le> m"
    and "content p = pre @ w @ member_body fmt d (map (\<lambda>c. (quoted (cj_string c), tx c)) cs) @ we @ CHR ''}'' # post"
    and "\<forall>x \<in> set w. ws x" and "\<forall>x \<in> set we. ws x" and "pb_offset p + 1 = length pre" and "pb_depth p = e"
  shows "parse_members pv D m head p =
    Some (Inr (Some (head @ map (\<lambda>c. canon D (cj_string c) c) cs),
      p\<lparr>pb_offset := length pre + length w + length (member_body fmt d (map (\<lambda>c. (quoted (cj_string c), tx c)) cs)) + length we\<rparr>))"
  using assms
proof (induction cs arbitrary: m head p pre w)
  case (Cons c cs)
  obtain m' where m: "m = Suc m'" using Cons.prems(3) by (cases m) auto
  obtain a r where a: "tx c = a # r" "\<not> ws a" using Cons.prems(1) by auto
  obtain k where k: "cj_string c = Some k" "NUL \<notin> set k" using Cons.prems(1) by auto
  let ?b = "member_body fmt d (map (\<lambda>c. (quoted (cj_string c), tx c)) cs)"
  let ?cw = "if fmt then tabs 1 else []"
  let ?nl = "(if fmt then [CHR 0x0A] else []) @ (if fmt \<and> cs \<noteq> [] then tabs d else [])"
  let ?rest = "(if cs \<noteq> [] then '','' else '''') @ ?nl @ ?b @ we @ CHR ''}'' # post"
  let ?l = "pre @ w @ quoted (Some k) @ '':'' @ ?cw @ tx c"
  have ct: "content p = ?l @ ?rest" using Cons.prems(4) k by simp
  have ws: "\<forall>x \<in> set ?nl. ws x" "\<forall>x \<in> set ?cw. ws x" by (auto simp: ws_def dest: ws_tabs split: if_splits)
  have "x \<in> set we \<Longrightarrow> \<not> number_char x" for x using Cons.prems(6) by (auto simp: ws_def number_char_def)
  then have "\<exists>d' tl. ?rest = d' # tl \<and> \<not> number_char d'" by (cases cs; cases fmt; cases we) (auto simp: number_char_def)
  then obtain d' tl where d': "?rest = d' # tl" "\<not> number_char d'" by blast
  let ?p3 = "p\<lparr>pb_offset := length ?l\<rparr>"
  have v: "value_reads pv D e (tx c) c" using Cons.prems(1) by simp
  have one: "parse_members pv D (Suc m') head p = (let p4 = buffer_skip_whitespace ?p3
      in if here p4 CHR '','' then parse_members pv D m' (head @ [canon D (Some k) c]) p4
         else Some (Inr (Some (head @ [canon D (Some k) c]), p4)))"
    unfolding Let_def
    by (rule parse_member_reads [OF v a k(2) _ d'(2) Cons.prems(5) ws(2) Cons.prems(7,8) refl]) (use ct d'(1) in simp)
  show ?case
  proof (cases "cs = []")
    case True
    have "buffer_skip_whitespace ?p3 = p\<lparr>pb_offset := length ?l + length (?nl @ we)\<rparr>"
      using skip_ws_run [of ?p3 ?l "?nl @ we" "CHR ''}''" post] ct True ws Cons.prems(6) by (auto simp: ws_def)
    moreover have "\<not> here (p\<lparr>pb_offset := length ?l + length (?nl @ we)\<rparr>) CHR '',''"
      using here_at [of "p\<lparr>pb_offset := length ?l + length (?nl @ we)\<rparr>" "?l @ ?nl @ we" "CHR ''}''" post] ct True by auto
    ultimately show ?thesis using one True k unfolding m by (simp add: add.assoc)
  next
    case False
    let ?r = "?nl @ ?b @ we @ CHR ''}'' # post"
    have "buffer_skip_whitespace ?p3 = ?p3"
      using skip_ws_run [of ?p3 ?l "[]" "CHR '',''" ?r] ct False by (simp add: ws_def)
    moreover have "here ?p3 CHR '',''" using here_at [of ?p3 ?l "CHR '',''" ?r] ct False by simp
    moreover have "parse_members pv D m' (head @ [canon D (Some k) c]) ?p3 =
      Some (Inr (Some ((head @ [canon D (Some k) c]) @ map (\<lambda>c. canon D (cj_string c) c) cs),
        ?p3\<lparr>pb_offset := length (?l @ '','') + length ?nl + length ?b + length we\<rparr>))"
      by (rule Cons.IH) (use Cons.prems m False ct ws in simp_all)
    ultimately show ?thesis using one False k unfolding m by (simp add: add.assoc)
  qed
qed simp

lemma keep_depth: "pb_depth p = e \<Longrightarrow> p\<lparr>pb_depth := e, pb_offset := x\<rparr> = p\<lparr>pb_offset := x\<rparr>"
  by (cases p) simp

lemma length_join: "\<forall>c \<in> set cs. tx c \<noteq> [] \<Longrightarrow> length cs \<le> length (join sep (map tx cs))"
proof (induction cs)
  case (Cons c cs)
  then have "0 < length (tx c)" by simp
  with Cons show ?case by (simp del: length_greater_0_conv)
qed simp

lemma length_member_body: "length cs \<le> length (member_body fmt d (map (\<lambda>c. (quoted (f c), tx c)) cs))"
  by (induction cs) (simp_all add: quoted_def)

text \<open>Behind the opening bracket of a container: white space, and the first character that is none.\<close>

lemma container_opens:
  assumes "content p = pre @ b # w @ a # r" and "pb_offset p = length pre" and "pb_depth p = e"
    and "\<forall>x \<in> set w. ws x" and "\<not> ws a"
  defines "p2 \<equiv> p\<lparr>pb_depth := Suc e, pb_offset := length pre + 1 + length w\<rparr>"
  shows "buffer_skip_whitespace (advance 1 (p\<lparr>pb_depth := pb_depth p + 1\<rparr>)) = p2"
    and "here p2 c \<longleftrightarrow> a = c" and "can_access_at_index p2 0"
proof -
  let ?p1 = "p\<lparr>pb_depth := pb_depth p + 1\<rparr>"
  have "buffer_skip_whitespace (advance 1 ?p1) = (advance 1 ?p1)\<lparr>pb_offset := length (pre @ [b]) + length w\<rparr>"
    by (rule skip_ws_run [of _ _ _ a r]) (use assms(1,2,4,5) in \<open>auto simp: advance_def\<close>)
  then show "buffer_skip_whitespace (advance 1 ?p1) = p2" using assms(3) by (simp add: advance_def p2_def)
  show "here p2 c \<longleftrightarrow> a = c" using here_at [of p2 "pre @ b # w" a r c] assms(1) by (simp add: p2_def)
  show "can_access_at_index p2 0" using assms(1) by (simp add: can_access_at_index_def p2_def)
qed

lemma parse_array_reads:
  assumes pv: "\<forall>c \<in> set cs. value_reads pv D (Suc e) (tx c) c \<and> (\<exists>a r. tx c = a # r \<and> \<not> ws a \<and> a \<noteq> CHR '']'')"
    and sep: "\<forall>x \<in> set sp. ws x" and e: "e < CJSON_NESTING_LIMIT"
    and ct: "content p = pre @ (''['' @ join (CHR '','' # sp) (map tx cs) @ '']'') @ post"
    and o: "pb_offset p = length pre" and dep: "pb_depth p = e"
  shows "parse_array pv D (CJ ty None 0 (d_zero D) nm []) p =
    Some (Inr (Some (CJ cJSON_Array None 0 (d_zero D) nm (map (canon D None) cs)),
      advance (length (''['' @ join (CHR '','' # sp) (map tx cs) @ '']'')) p))"
proof -
  let ?j = "join (CHR '','' # sp) (map tx cs)"
  obtain a r where ar: "?j @ CHR '']'' # post = a # r" "\<not> ws a" "a = CHR '']'' \<longleftrightarrow> cs = []"
    using pv by (cases cs) (fastforce simp: ws_def)+
  have b: "byte_at (content p) (pb_offset p) = Inr CHR ''[''" using ct o by (simp add: byte_at_def nth_append)
  let ?p2 = "p\<lparr>pb_depth := Suc e, pb_offset := length pre + 1\<rparr>"
  have "content p = pre @ CHR ''['' # [] @ a # r" using ct ar(1) by simp
  from container_opens [OF this o dep _ ar(2)] ar(3)
  have p2: "buffer_skip_whitespace (advance 1 (p\<lparr>pb_depth := pb_depth p + 1\<rparr>)) = ?p2"
    and h: "here ?p2 CHR '']'' \<longleftrightarrow> cs = []" and ac: "can_access_at_index ?p2 0" by simp_all
  have lim: "\<not> pb_depth p \<ge> CJSON_NESTING_LIMIT" using e dep by simp
  show ?thesis
  proof (cases "cs = []")
    case True
    with b p2 h lim dep o show ?thesis
      by (simp add: parse_array_def Let_def finish_def advance_def with_child_def with_type_def keep_depth)
  next
    case False
    have "length cs \<le> length (content p)" using length_join [of cs tx "CHR '','' # sp"] pv ct by fastforce
    then have el: "parse_elements pv D (length (content p)) [] (step_back ?p2) =
      Some (Inr (Some ([] @ map (canon D None) cs), (step_back ?p2)\<lparr>pb_offset := length (pre @ ''['') + length ([]::bytes) + length ?j\<rparr>))"
      by (intro parse_elements_reads [where sp = sp and e = "Suc e" and tx = tx and post = post])
        (use pv sep False ct in \<open>auto simp: step_back_def\<close>)
    let ?p3 = "p\<lparr>pb_depth := Suc e, pb_offset := length pre + 1 + length ?j\<rparr>"
    have h3: "here ?p3 CHR '']''"
      using here_at [of ?p3 "pre @ ''['' @ ?j" "CHR '']''" post] ct by simp
    have "step_back ?p2\<lparr>pb_offset := length (pre @ ''['') + length ([]::bytes) + length ?j\<rparr> = ?p3"
      by (simp add: step_back_def)
    with el have el3: "parse_elements pv D (length (content p)) [] (step_back ?p2) = Some (Inr (Some (map (canon D None) cs), ?p3))"
      by simp
    show ?thesis
      unfolding parse_array_def if_not_P [OF lim] Let_def
      using b p2 h ac el3 h3 False dep o
      by (simp add: finish_def advance_def with_child_def with_type_def keep_depth)
  qed
qed

lemma parse_object_reads:
  assumes pv: "\<forall>c \<in> set cs. value_reads pv D (Suc e) (tx c) c \<and> (\<exists>a r. tx c = a # r \<and> \<not> ws a) \<and>
      (\<exists>k. cj_string c = Some k \<and> NUL \<notin> set k)"
    and wo: "\<forall>x \<in> set wo. ws x" and we: "\<forall>x \<in> set we. ws x" and e: "e < CJSON_NESTING_LIMIT"
    and ct: "content p = pre @ (''{'' @ wo @ member_body fmt d (map (\<lambda>c. (quoted (cj_string c), tx c)) cs) @ we @ ''}'') @ post"
    and o: "pb_offset p = length pre" and dep: "pb_depth p = e"
  shows "parse_object pv D (CJ ty None 0 (d_zero D) nm []) p =
    Some (Inr (Some (CJ cJSON_Object None 0 (d_zero D) nm (map (\<lambda>c. canon D (cj_string c) c) cs)),
      advance (length (''{'' @ wo @ member_body fmt d (map (\<lambda>c. (quoted (cj_string c), tx c)) cs) @ we @ ''}'')) p))"
proof -
  let ?b = "member_body fmt d (map (\<lambda>c. (quoted (cj_string c), tx c)) cs)"
  let ?ws = "if cs = [] then wo @ we else wo"
  obtain a r where ar: "(if cs = [] then [] else ?b @ we) @ CHR ''}'' # post = a # r" "\<not> ws a" "a = CHR ''}'' \<longleftrightarrow> cs = []"
    by (cases cs) (auto simp: quoted_def ws_def)
  have b: "here (p\<lparr>pb_depth := pb_depth p + 1\<rparr>) CHR ''{''" using ct o by (simp add: here_def can_access_at_index_def nth_append)
  let ?p2 = "p\<lparr>pb_depth := Suc e, pb_offset := length pre + 1 + length ?ws\<rparr>"
  have "content p = pre @ CHR ''{'' # ?ws @ a # r" using ct ar(1) by (cases cs) auto
  moreover have "\<forall>x \<in> set ?ws. ws x" using wo we by auto
  ultimately have opened: "buffer_skip_whitespace (advance 1 (p\<lparr>pb_depth := pb_depth p + 1\<rparr>)) = ?p2"
    "here ?p2 c \<longleftrightarrow> a = c" "can_access_at_index ?p2 0" for c by (rule container_opens [OF _ o dep _ ar(2)])+
  then have p2: "buffer_skip_whitespace (advance 1 (p\<lparr>pb_depth := pb_depth p + 1\<rparr>)) = ?p2"
    and h: "here ?p2 CHR ''}'' \<longleftrightarrow> cs = []" and ac: "can_access_at_index ?p2 0" using ar(3) by simp_all
  have lim: "\<not> pb_depth p \<ge> CJSON_NESTING_LIMIT" using e dep by simp
  show ?thesis
  proof (cases "cs = []")
    case True
    with b p2 h lim dep o show ?thesis
      by (simp add: parse_object_def Let_def finish_def advance_def with_child_def with_type_def keep_depth)
  next
    case False
    have "length cs \<le> length (content p)"
      using length_member_body [of cs fmt d cj_string tx] ct by simp
    then have el: "parse_members pv D (length (content p)) [] (step_back ?p2) =
      Some (Inr (Some ([] @ map (\<lambda>c. canon D (cj_string c) c) cs),
        (step_back ?p2)\<lparr>pb_offset := length (pre @ ''{'' @ wo) + length ([]::bytes) + length ?b + length we\<rparr>))"
      by (intro parse_members_reads [where e = "Suc e" and tx = tx and post = post])
        (use pv we False ct in \<open>auto simp: step_back_def\<close>)
    let ?p3 = "p\<lparr>pb_depth := Suc e, pb_offset := length pre + 1 + length wo + length ?b + length we\<rparr>"
    have h3: "here ?p3 CHR ''}''"
      using here_at [of ?p3 "pre @ ''{'' @ wo @ ?b @ we" "CHR ''}''" post] ct by simp
    have "step_back ?p2\<lparr>pb_offset := length (pre @ ''{'' @ wo) + length ([]::bytes) + length ?b + length we\<rparr> = ?p3"
      by (simp add: step_back_def)
    with el have el3: "parse_members pv D (length (content p)) [] (step_back ?p2) =
      Some (Inr (Some (map (\<lambda>c. canon D (cj_string c) c) cs), ?p3))"
      by simp
    show ?thesis
      unfolding parse_object_def if_not_P [OF lim] Let_def
      using b p2 h ac el3 h3 False dep o
      by (simp add: finish_def advance_def with_child_def with_type_def keep_depth)
  qed
qed

section \<open>Values\<close>

lemma parse_number_reads:
  assumes "number_back D d" and "content p = pre @ number_text D d @ post" and "pb_offset p = length pre"
    and "post \<noteq> []" and "\<not> number_char (hd post)"
  shows "parse_number D (CJ ty None 0 (d_zero D) nm []) p =
    (Some (CJ cJSON_Number None (saturate D d) d nm []), advance (length (number_text D d)) p)"
proof -
  let ?t = "number_text D d"
  have t: "length ?t < 26" "?t \<noteq> []" "list_all number_char ?t" "d_strtod D ?t = (d, length ?t)"
    using assms(1) by (auto simp: number_back_def Let_def)
  obtain c r where post: "post = c # r" "\<not> number_char c" using assms(4,5) by (cases post) auto
  have "0 < 63 - length ?t" using t(1) by simp
  then obtain n where "63 - length ?t = Suc n" by (auto simp: gr0_conv_Suc)
  then have "takeWhile number_char (take 63 (drop (pb_offset p) (content p))) = ?t"
    using assms(2,3) t(3) post by (simp add: takeWhile_append takeWhile_eq_all_conv list_all_iff)
  with t show ?thesis by (simp add: parse_number_def Let_def)
qed

lemma nesting_child: "t AND 0xFF \<in> {cJSON_Array, cJSON_Object} \<Longrightarrow> c \<in> set cs \<Longrightarrow> nesting c < nesting (CJ t vs vi vd nm cs)"
  by (auto simp: less_Suc_eq_le intro!: Max_ge)

lemma parse_value_step:
  assumes "content p = pre @ t @ post" and "pb_offset p = length pre" and "t = c # r"
  shows "c = CHR 0x22 \<Longrightarrow> parse_value (Suc n) D item p = Some (res_bind (parse_string p) (\<lambda>(r, p').
          Inr (map_option (\<lambda>t. CJ cJSON_String (Some t) (cj_valueint item) (cj_valuedouble item) (cj_string item) (cj_child item)) r, p')))"
    and "c \<in> set ''-0123456789'' \<Longrightarrow> parse_value (Suc n) D item p = Some (Inr (parse_number D item p))"
    and "c = CHR ''['' \<Longrightarrow> parse_value (Suc n) D item p = parse_array (parse_value n D) D item p"
    and "c = CHR ''{'' \<Longrightarrow> parse_value (Suc n) D item p = parse_object (parse_value n D) D item p"
proof -
  have ct: "content p = pre @ c # (r @ post)" using assms(1,3) by simp
  note st = starts_at [OF ct assms(2)]
  have h: "here p d \<longleftrightarrow> c = d" for d by (rule here_at [OF ct assms(2)])
  have a: "can_access_at_index p 0" "content p ! pb_offset p = c"
    using ct assms(2) by (simp_all add: can_access_at_index_def nth_append)
  show "c = CHR 0x22 \<Longrightarrow> parse_value (Suc n) D item p = Some (res_bind (parse_string p) (\<lambda>(r, p').
          Inr (map_option (\<lambda>t. CJ cJSON_String (Some t) (cj_valueint item) (cj_valuedouble item) (cj_string item) (cj_child item)) r, p')))"
    by (simp add: parse_value.simps st h)
  show "c = CHR ''['' \<Longrightarrow> parse_value (Suc n) D item p = parse_array (parse_value n D) D item p"
    by (simp add: parse_value.simps st h a)
  show "c = CHR ''{'' \<Longrightarrow> parse_value (Suc n) D item p = parse_object (parse_value n D) D item p"
    by (simp add: parse_value.simps st h a)
  assume c: "c \<in> set ''-0123456789''"
  then have "c \<noteq> CHR ''n''" "c \<noteq> CHR ''f''" "c \<noteq> CHR ''t''" "c \<noteq> CHR 0x22" by auto
  then show "parse_value (Suc n) D item p = Some (Inr (parse_number D item p))"
    unfolding parse_value.simps using st h a c by simp
qed

text \<open>The leaves: literals, numbers and strings.\<close>

lemma parse_literal:
  assumes "content p = pre @ w @ post" and "pb_offset p = length pre"
    and "w = ''null'' \<and> y = with_type cJSON_NULL item \<or> w = ''false'' \<and> y = with_type cJSON_False item \<or>
      w = ''true'' \<and> y = CJ cJSON_True (cj_valuestring item) 1 (cj_valuedouble item) (cj_string item) (cj_child item)"
  shows "parse_value (Suc n) D item p = Some (Inr (Some y, advance (length w) p))"
proof -
  have s: "starts p w" by (rule starts_same [OF assms(1,2)])
  from assms(3) show ?thesis
  proof (elim disjE conjE)
    assume w: "w = ''false''" and y: "y = with_type cJSON_False item"
    have "\<not> starts p ''null''"
      using starts_at [of p pre "CHR ''f''" "''alse'' @ post" "CHR ''n''" "''ull''"] assms(1,2) w by simp
    with s w y show ?thesis by (simp add: parse_value.simps numeral_eq_Suc)
  next
    assume w: "w = ''true''" and y: "y = CJ cJSON_True (cj_valuestring item) 1 (cj_valuedouble item) (cj_string item) (cj_child item)"
    have "\<not> starts p ''null''" "\<not> starts p ''false''"
      using starts_at [of p pre "CHR ''t''" "''rue'' @ post"] assms(1,2) w by simp_all
    with s w y show ?thesis by (simp add: parse_value.simps numeral_eq_Suc)
  qed (use s in \<open>simp add: parse_value.simps numeral_eq_Suc\<close>)
qed

lemma parse_leaf_reads:
  assumes rb: "reads_back D (CJ t vs vi vd nm cs)" and leaf: "t AND 0xFF \<notin> {cJSON_Array, cJSON_Object}"
  shows "value_reads (parse_value (Suc n) D) D e (render D fmt d (CJ t vs vi vd nm cs)) (CJ t vs vi vd nm cs)"
  unfolding value_reads_def
proof (intro allI impI, elim conjE)
  fix ty nm' and p :: parse_buffer and pre post
  let ?t = "t AND 0xFF" and ?item = "CJ ty None 0 (d_zero D) nm' []"
  assume ct: "content p = pre @ render D fmt d (CJ t vs vi vd nm cs) @ post" and o: "pb_offset p = length pre"
    and post: "post \<noteq> []" "\<not> number_char (hd post)"
  consider "?t = cJSON_NULL" | "?t = cJSON_False" | "?t = cJSON_True" | "?t = cJSON_Number" | "?t = cJSON_String"
    using rb leaf by (auto simp: Let_def)
  then show "parse_value (Suc n) D ?item p =
    Some (Inr (Some (canon D nm' (CJ t vs vi vd nm cs)), advance (length (render D fmt d (CJ t vs vi vd nm cs))) p))"
  proof cases
    case 4
    then have nb: "number_back D vd" and r: "render D fmt d (CJ t vs vi vd nm cs) = number_text D vd"
      using rb by (auto simp: Let_def)
    obtain c r' where cr: "number_text D vd = c # r'" "c \<in> set ''-0123456789''"
      using nb by (cases "number_text D vd") (auto simp: number_back_def Let_def)
    show ?thesis
      using parse_value_step(2) [OF ct [unfolded r] o cr, of n D ?item] parse_number_reads [OF nb ct [unfolded r] o post] 4 r
      by simp
  next
    case 5
    then obtain s where s: "vs = Some s" "NUL \<notin> set s" and r: "render D fmt d (CJ t vs vi vd nm cs) = quoted (Some s)"
      using rb by (auto simp: Let_def no_zero_def)
    have q: "quoted (Some s) = CHR 0x22 # tl (quoted (Some s))" by (simp add: quoted_def)
    show ?thesis
      using parse_value_step(1) [OF ct [unfolded r] o q refl, of n D ?item] parse_string_quoted [OF ct [unfolded r] o s(2)] 5 r s(1)
      by simp
  qed (use parse_literal [of p pre "''null''" post _ ?item n D] parse_literal [of p pre "''false''" post _ ?item n D]
      parse_literal [of p pre "''true''" post _ ?item n D] ct o in \<open>simp_all add: with_type_def\<close>)
qed

text \<open>The containers, when their children are read.\<close>

definition child_reads :: "nat \<Rightarrow> 'd dbl \<Rightarrow> bool \<Rightarrow> nat \<Rightarrow> nat \<Rightarrow> 'd cJSON \<Rightarrow> bool" where
  "child_reads n D fmt e d c \<longleftrightarrow> value_reads (parse_value n D) D (Suc e) (render D fmt (Suc d) c) c \<and>
     (\<exists>a r. render D fmt (Suc d) c = a # r \<and> \<not> ws a \<and> a \<noteq> CHR '']'')"

lemma parse_value_array_reads:
  assumes t: "t AND 0xFF = cJSON_Array" and kids: "\<forall>c \<in> set cs. child_reads n D fmt e d c" and e: "e < CJSON_NESTING_LIMIT"
  shows "value_reads (parse_value (Suc n) D) D e (render D fmt d (CJ t vs vi vd nm cs)) (CJ t vs vi vd nm cs)"
  unfolding value_reads_def
proof (intro allI impI, elim conjE)
  fix ty nm' and p :: parse_buffer and pre post
  let ?item = "CJ ty None 0 (d_zero D) nm' []" and ?sp = "if fmt then '' '' else []"
  assume ct: "content p = pre @ render D fmt d (CJ t vs vi vd nm cs) @ post" and o: "pb_offset p = length pre" and dep: "pb_depth p = e"
  have r: "render D fmt d (CJ t vs vi vd nm cs) = ''['' @ join (CHR '','' # ?sp) (map (render D fmt (Suc d)) cs) @ '']''"
    using t by simp
  have "parse_array (parse_value n D) D ?item p =
    Some (Inr (Some (CJ cJSON_Array None 0 (d_zero D) nm' (map (canon D None) cs)),
      advance (length (''['' @ join (CHR '','' # ?sp) (map (render D fmt (Suc d)) cs) @ '']'')) p))"
    by (rule parse_array_reads [OF _ _ e ct [unfolded r] o dep]) (use kids in \<open>auto simp: ws_def child_reads_def\<close>)
  with parse_value_step(3) [OF ct [unfolded r] o, of "CHR ''[''" _ n D ?item] t r
  show "parse_value (Suc n) D ?item p =
    Some (Inr (Some (canon D nm' (CJ t vs vi vd nm cs)), advance (length (render D fmt d (CJ t vs vi vd nm cs))) p))" by simp
qed

lemma parse_value_object_reads:
  assumes t: "t AND 0xFF = cJSON_Object" and kids: "\<forall>c \<in> set cs. child_reads n D fmt e d c" and e: "e < CJSON_NESTING_LIMIT"
    and keys: "\<forall>c \<in> set cs. \<exists>k. cj_string c = Some k \<and> NUL \<notin> set k"
  shows "value_reads (parse_value (Suc n) D) D e (render D fmt d (CJ t vs vi vd nm cs)) (CJ t vs vi vd nm cs)"
  unfolding value_reads_def
proof (intro allI impI, elim conjE)
  fix ty nm' and p :: parse_buffer and pre post
  let ?item = "CJ ty None 0 (d_zero D) nm' []"
  assume ct: "content p = pre @ render D fmt d (CJ t vs vi vd nm cs) @ post" and o: "pb_offset p = length pre" and dep: "pb_depth p = e"
  let ?wo = "(if fmt then [CHR 0x0A] else []) @ (if fmt \<and> cs \<noteq> [] then tabs (Suc d) else [])"
  let ?we = "if fmt then tabs d else []"
  let ?b = "member_body fmt (Suc d) (map (\<lambda>c. (quoted (cj_string c), render D fmt (Suc d) c)) cs)"
  have r: "render D fmt d (CJ t vs vi vd nm cs) = ''{'' @ ?wo @ ?b @ ?we @ ''}''"
    using t by (simp add: member_lines_body)
  have nl: "ws CHR 0x0A" by (simp add: ws_def)
  have "parse_object (parse_value n D) D ?item p =
    Some (Inr (Some (CJ cJSON_Object None 0 (d_zero D) nm' (map (\<lambda>c. canon D (cj_string c) c) cs)),
      advance (length (''{'' @ ?wo @ ?b @ ?we @ ''}'')) p))"
    by (rule parse_object_reads [OF _ _ _ e ct [unfolded r] o dep])
      (use kids keys nl in \<open>auto simp: child_reads_def dest: ws_tabs\<close>)
  with parse_value_step(4) [OF ct [unfolded r] o, of "CHR ''{''" _ n D ?item] t r
  show "parse_value (Suc n) D ?item p =
    Some (Inr (Some (canon D nm' (CJ t vs vi vd nm cs)), advance (length (render D fmt d (CJ t vs vi vd nm cs))) p))" by simp
qed

lemma parse_value_reads:
  "reads_back D x \<Longrightarrow> nesting x \<le> n \<Longrightarrow> e + nesting x \<le> CJSON_NESTING_LIMIT \<Longrightarrow>
     value_reads (parse_value (Suc n) D) D e (render D fmt d x) x"
proof (induction x arbitrary: n e d)
  case (CJ t vs vi vd nm cs)
  let ?t = "t AND 0xFF"
  have kids: "\<forall>c \<in> set cs. child_reads n D fmt e d c" if k: "?t \<in> {cJSON_Array, cJSON_Object}"
  proof
    fix c
    assume c: "c \<in> set cs"
    have b: "reads_back D c" using CJ.prems(1) c by (auto simp: Let_def list_all_iff)
    have k: "nesting c < nesting (CJ t vs vi vd nm cs)" by (rule nesting_child [OF k c])
    obtain n' where n: "n = Suc n'" using k CJ.prems(2) by (cases n) auto
    have "value_reads (parse_value n D) D (Suc e) (render D fmt (Suc d) c) c"
      unfolding n using CJ.prems(2,3) k n by (intro CJ.IH [OF c b]) linarith+
    then show "child_reads n D fmt e d c" using render_first [OF b] unfolding child_reads_def by blast
  qed
  have e: "e < CJSON_NESTING_LIMIT" if "?t \<in> {cJSON_Array, cJSON_Object}"
    using CJ.prems(3) that by auto
  have keys: "\<forall>c \<in> set cs. \<exists>k. cj_string c = Some k \<and> NUL \<notin> set k" if "?t = cJSON_Object"
    using CJ.prems(1) that by (auto simp: Let_def list_all_iff no_zero_def)
  consider "?t = cJSON_Array" | "?t = cJSON_Object" | "?t \<notin> {cJSON_Array, cJSON_Object}" by blast
  then show ?case
  proof cases
    case 1
    then show ?thesis by (intro parse_value_array_reads kids e) simp_all
  next
    case 2
    then show ?thesis by (intro parse_value_object_reads kids e keys) simp_all
  next
    case 3
    then show ?thesis by (rule parse_leaf_reads [OF CJ.prems(1)])
  qed
qed

section \<open>Texts\<close>

lemma parse_rendered:
  assumes "reads_back D x" and "nesting x \<le> CJSON_NESTING_LIMIT"
  shows "cJSON_ParseWithOpts D (Some (render D fmt 0 x)) req =
    Some (Inr (Some (canon D None x), Some (length (render D fmt 0 x))))"
proof -
  let ?t = "render D fmt 0 x"
  let ?b = "\<lparr>content = ?t @ [NUL], pb_offset = 0, pb_depth = 0\<rparr>"
  obtain c r where c: "?t = c # r" "\<not> ws c" "c \<noteq> CHR 0xEF" using render_first [OF assms(1)] by blast
  have bom: "skip_utf8_bom ?b = Some ?b" using c by (simp add: skip_utf8_bom_def)
  have ws0: "buffer_skip_whitespace ?b = ?b"
    using skip_ws_run [of ?b "[]" "[]" c "r @ [NUL]"] c by simp
  have v: "parse_value (Suc CJSON_NESTING_LIMIT) D (cJSON_New_Item D) ?b = Some (Inr (Some (canon D None x), advance (length ?t) ?b))"
    using parse_value_reads [OF assms, of 0 fmt 0] assms(2)
    by (simp add: value_reads_def cJSON_New_Item_def number_char_def)
  have ws1: "buffer_skip_whitespace (advance (length ?t) ?b) = advance (length ?t) ?b"
    by (simp add: buffer_skip_whitespace_def advance_def ws_def)
  have "here (advance (length ?t) ?b) NUL" by (simp add: here_def can_access_at_index_def advance_def)
  with bom ws0 v ws1 show ?thesis
    by (simp add: cJSON_ParseWithOpts_def Let_def advance_def del: CJSON_NESTING_LIMIT_def)
qed

lemma cJSON_Parse_rendered:
  "reads_back D x \<Longrightarrow> nesting x \<le> CJSON_NESTING_LIMIT \<Longrightarrow>
     cJSON_Parse D (Some (render D fmt 0 x)) = Some (Inr (Some (canon D None x)))"
  by (simp add: cJSON_Parse_def parse_rendered del: CJSON_NESTING_LIMIT_def)

section \<open>Properties\<close>


definition digit_dbl :: "int dbl" where
  "digit_dbl = int_dbl\<lparr>d_strtod := (\<lambda>s. if s = ''3'' then (3, 1) else (0, 0))\<rparr>"

lemma ex_json_reads_back: "reads_back digit_dbl ex_json" "nesting ex_json \<le> CJSON_NESTING_LIMIT"
proof -
  note d = ex_json_def named_def jstr_def cJSON_CreateObject_def with_child_def with_type_def cJSON_New_Item_def with_string_def
  have "digit 3 = CHR ''3''" by code_simp
  then have "number_text digit_dbl 3 = ''3''"
    by (simp add: number_text_def digit_dbl_def int_dbl_def dec_int_def dec_nat.simps [of 3])
  then have "number_back digit_dbl 3" by (simp add: number_back_def digit_dbl_def number_char_def)
  then show "reads_back digit_dbl ex_json" by (simp add: d no_zero_def)
  show "nesting ex_json \<le> CJSON_NESTING_LIMIT" by (simp add: d)
qed


end
