(* ===== verification/GW_List.thy ===== *)
theory GW_List
  imports GW_Prelude
begin

text \<open>
  \<open>src/code/dependence/broker/list.h\<close>: the circular doubly linked list embedded in the
  broker's structures, as pointer code over a store, and its refinement to HOL's lists.

  An address is a natural number and the store maps the address of a \<open>struct list_head\<close> to
  its two pointers; a node that is not allocated is absent.  \<open>dll h hp xs\<close> says that the list
  with head \<open>hp\<close> has the nodes \<open>xs\<close> in this order.
\<close>

section \<open>The pointer code\<close>

record list_head =
  lh_next :: nat
  lh_prev :: nat

type_synonym lheap = "nat \<rightharpoonup> list_head"

definition lh :: "lheap \<Rightarrow> nat \<Rightarrow> list_head res" where
  "lh h p = (case h p of None \<Rightarrow> Inl UseAfterFree | Some n \<Rightarrow> Inr n)"

definition set_next :: "nat \<Rightarrow> nat \<Rightarrow> lheap \<Rightarrow> lheap res" where
  "set_next p v h = res_bind (lh h p) (\<lambda>n. Inr (h(p \<mapsto> n\<lparr>lh_next := v\<rparr>)))"

definition set_prev :: "nat \<Rightarrow> nat \<Rightarrow> lheap \<Rightarrow> lheap res" where
  "set_prev p v h = res_bind (lh h p) (\<lambda>n. Inr (h(p \<mapsto> n\<lparr>lh_prev := v\<rparr>)))"

definition INIT_LIST_HEAD :: "nat \<Rightarrow> lheap \<Rightarrow> lheap res" where
  "INIT_LIST_HEAD l h = res_bind (set_next l l h) (set_prev l l)"

definition list_add_between :: "nat \<Rightarrow> nat \<Rightarrow> nat \<Rightarrow> lheap \<Rightarrow> lheap res" where
  "list_add_between new prev next h =
     res_bind (set_prev next new h) (\<lambda>h1.
     res_bind (set_next new next h1) (\<lambda>h2.
     res_bind (set_prev new prev h2) (\<lambda>h3. set_next prev new h3)))"

definition list_add :: "nat \<Rightarrow> nat \<Rightarrow> lheap \<Rightarrow> lheap res" where
  "list_add new head h = res_bind (lh h head) (\<lambda>n. list_add_between new head (lh_next n) h)"

definition list_add_tail :: "nat \<Rightarrow> nat \<Rightarrow> lheap \<Rightarrow> lheap res" where
  "list_add_tail new head h = res_bind (lh h head) (\<lambda>n. list_add_between new (lh_prev n) head h)"

definition list_del_between :: "nat \<Rightarrow> nat \<Rightarrow> lheap \<Rightarrow> lheap res" where
  "list_del_between prev next h = res_bind (set_prev next prev h) (set_next prev next)"

definition list_del :: "nat \<Rightarrow> lheap \<Rightarrow> lheap res" where
  "list_del entry h = res_bind (lh h entry) (\<lambda>n. list_del_between (lh_prev n) (lh_next n) h)"

definition list_del_entry :: "nat \<Rightarrow> lheap \<Rightarrow> lheap res" where
  "list_del_entry entry h = res_bind (lh h entry) (\<lambda>n. list_del_between (lh_prev n) (lh_next n) h)"

text \<open>What \<open>LIST_HEAD\<close> declares: a head that points to itself.\<close>

definition LIST_HEAD_INIT :: "nat \<Rightarrow> list_head" where
  "LIST_HEAD_INIT name = \<lparr>lh_next = name, lh_prev = name\<rparr>"

definition list_is_last :: "nat \<Rightarrow> nat \<Rightarrow> lheap \<Rightarrow> bool res" where
  "list_is_last l head h = res_bind (lh h l) (\<lambda>n. Inr (lh_next n = head))"

definition list_empty :: "nat \<Rightarrow> lheap \<Rightarrow> bool res" where
  "list_empty head h = res_bind (lh h head) (\<lambda>n. Inr (lh_next n = head))"

text \<open>
  \<open>list_for_each_safe\<close>: the next node is read before the body runs; the body says whether it
  breaks.  \<open>None\<close> is a loop that does not end.
\<close>

partial_function (option) for_each_safe ::
    "(nat \<Rightarrow> lheap \<Rightarrow> (bool \<times> lheap) res) \<Rightarrow> nat \<Rightarrow> nat \<Rightarrow> lheap \<Rightarrow> lheap res option" where
  "for_each_safe body head pos h =
     (if pos = head then Some (Inr h)
      else case lh h pos of
        Inl e \<Rightarrow> Some (Inl e)
      | Inr n \<Rightarrow>
          (case body pos h of
             Inl e \<Rightarrow> Some (Inl e)
           | Inr (stop, h') \<Rightarrow>
               if stop then Some (Inr h') else for_each_safe body head (lh_next n) h'))"

definition list_for_each_safe ::
    "(nat \<Rightarrow> lheap \<Rightarrow> (bool \<times> lheap) res) \<Rightarrow> nat \<Rightarrow> lheap \<Rightarrow> lheap res option" where
  "list_for_each_safe body head h =
     (case lh h head of Inl e \<Rightarrow> Some (Inl e) | Inr n \<Rightarrow> for_each_safe body head (lh_next n) h)"

text \<open>\<open>list_for_each\<close> with a body that only collects the nodes.\<close>

partial_function (option) for_each :: "nat \<Rightarrow> nat \<Rightarrow> lheap \<Rightarrow> nat list res option" where
  "for_each head pos h =
     (if pos = head then Some (Inr [])
      else case lh h pos of
        Inl e \<Rightarrow> Some (Inl e)
      | Inr n \<Rightarrow> Option.bind (for_each head (lh_next n) h) (\<lambda>r. Some (res_bind r (\<lambda>ps. Inr (pos # ps)))))"

definition list_for_each :: "nat \<Rightarrow> lheap \<Rightarrow> nat list res option" where
  "list_for_each head h =
     (case lh h head of Inl e \<Rightarrow> Some (Inl e) | Inr n \<Rightarrow> for_each head (lh_next n) h)"

text \<open>The loops backwards.\<close>

partial_function (option) for_each_prev :: "nat \<Rightarrow> nat \<Rightarrow> lheap \<Rightarrow> nat list res option" where
  "for_each_prev head pos h =
     (if pos = head then Some (Inr [])
      else case lh h pos of
        Inl e \<Rightarrow> Some (Inl e)
      | Inr n \<Rightarrow> Option.bind (for_each_prev head (lh_prev n) h) (\<lambda>r. Some (res_bind r (\<lambda>ps. Inr (pos # ps)))))"

definition list_for_each_prev :: "nat \<Rightarrow> lheap \<Rightarrow> nat list res option" where
  "list_for_each_prev head h =
     (case lh h head of Inl e \<Rightarrow> Some (Inl e) | Inr n \<Rightarrow> for_each_prev head (lh_prev n) h)"

partial_function (option) for_each_prev_safe ::
    "(nat \<Rightarrow> lheap \<Rightarrow> (bool \<times> lheap) res) \<Rightarrow> nat \<Rightarrow> nat \<Rightarrow> lheap \<Rightarrow> lheap res option" where
  "for_each_prev_safe body head pos h =
     (if pos = head then Some (Inr h)
      else case lh h pos of
        Inl e \<Rightarrow> Some (Inl e)
      | Inr n \<Rightarrow>
          (case body pos h of
             Inl e \<Rightarrow> Some (Inl e)
           | Inr (stop, h') \<Rightarrow>
               if stop then Some (Inr h') else for_each_prev_safe body head (lh_prev n) h'))"

definition list_for_each_prev_safe ::
    "(nat \<Rightarrow> lheap \<Rightarrow> (bool \<times> lheap) res) \<Rightarrow> nat \<Rightarrow> lheap \<Rightarrow> lheap res option" where
  "list_for_each_prev_safe body head h =
     (case lh h head of Inl e \<Rightarrow> Some (Inl e) | Inr n \<Rightarrow> for_each_prev_safe body head (lh_prev n) h)"

text \<open>
  The structures around the nodes.  \<open>off\<close> is the offset of the member; the address of a structure is an integer,
  because \<open>list_for_each_entry\<close> also computes one for the head, which is in no structure.
\<close>

definition container_of :: "nat \<Rightarrow> nat \<Rightarrow> int" where
  "container_of off ptr = int ptr - int off"

definition member_of :: "nat \<Rightarrow> int \<Rightarrow> nat" where
  "member_of off pos = nat (pos + int off)"

definition list_first_entry :: "nat \<Rightarrow> nat \<Rightarrow> lheap \<Rightarrow> int res" where
  "list_first_entry off ptr h = res_bind (lh h ptr) (\<lambda>n. Inr (container_of off (lh_next n)))"

definition list_last_entry :: "nat \<Rightarrow> nat \<Rightarrow> lheap \<Rightarrow> int res" where
  "list_last_entry off ptr h = res_bind (lh h ptr) (\<lambda>n. Inr (container_of off (lh_prev n)))"

definition list_next_entry :: "nat \<Rightarrow> int \<Rightarrow> lheap \<Rightarrow> int res" where
  "list_next_entry off pos h = res_bind (lh h (member_of off pos)) (\<lambda>n. Inr (container_of off (lh_next n)))"

definition list_prev_entry :: "nat \<Rightarrow> int \<Rightarrow> lheap \<Rightarrow> int res" where
  "list_prev_entry off pos h = res_bind (lh h (member_of off pos)) (\<lambda>n. Inr (container_of off (lh_prev n)))"

partial_function (option) for_each_entry :: "nat \<Rightarrow> nat \<Rightarrow> int \<Rightarrow> lheap \<Rightarrow> int list res option" where
  "for_each_entry off head pos h =
     (if member_of off pos = head then Some (Inr [])
      else case list_next_entry off pos h of
        Inl e \<Rightarrow> Some (Inl e)
      | Inr n \<Rightarrow> Option.bind (for_each_entry off head n h) (\<lambda>r. Some (res_bind r (\<lambda>ps. Inr (pos # ps)))))"

definition list_for_each_entry :: "nat \<Rightarrow> nat \<Rightarrow> lheap \<Rightarrow> int list res option" where
  "list_for_each_entry off head h =
     (case list_first_entry off head h of Inl e \<Rightarrow> Some (Inl e) | Inr n \<Rightarrow> for_each_entry off head n h)"

section \<open>The abstraction\<close>

definition nxt :: "lheap \<Rightarrow> nat \<Rightarrow> nat" where "nxt h p = lh_next (the (h p))"
definition prv :: "lheap \<Rightarrow> nat \<Rightarrow> nat" where "prv h p = lh_prev (the (h p))"

definition dll :: "lheap \<Rightarrow> nat \<Rightarrow> nat list \<Rightarrow> bool" where
  "dll h hp xs \<longleftrightarrow> distinct (hp # xs) \<and> set (hp # xs) \<subseteq> dom h \<and>
     map (nxt h) (hp # xs) = xs @ [hp] \<and> map (prv h) (xs @ [hp]) = hp # xs"

lemma lh_dom [simp]: "p \<in> dom h \<Longrightarrow> lh h p = Inr \<lparr>lh_next = nxt h p, lh_prev = prv h p\<rparr>"
  by (auto simp: lh_def nxt_def prv_def)

lemma set_next_dom:
  "p \<in> dom h \<Longrightarrow> \<exists>h'. set_next p v h = Inr h' \<and> dom h' = dom h \<and> nxt h' = (nxt h)(p := v) \<and> prv h' = prv h"
proof -
  assume "p \<in> dom h"
  then obtain n where n: "h p = Some n" by blast
  then show ?thesis
    by (intro exI [of _ "h(p \<mapsto> n\<lparr>lh_next := v\<rparr>)"])
      (auto simp: set_next_def lh_def nxt_def prv_def fun_eq_iff)
qed

lemma set_prev_dom:
  "p \<in> dom h \<Longrightarrow> \<exists>h'. set_prev p v h = Inr h' \<and> dom h' = dom h \<and> prv h' = (prv h)(p := v) \<and> nxt h' = nxt h"
proof -
  assume "p \<in> dom h"
  then obtain n where n: "h p = Some n" by blast
  then show ?thesis
    by (intro exI [of _ "h(p \<mapsto> n\<lparr>lh_prev := v\<rparr>)"])
      (auto simp: set_prev_def lh_def nxt_def prv_def fun_eq_iff)
qed

lemma list_add_between_dom:
  assumes "prev \<in> dom h" and "next \<in> dom h" and "new \<in> dom h"
  shows "\<exists>h'. list_add_between new prev next h = Inr h' \<and> dom h' = dom h \<and>
    nxt h' = (nxt h)(new := next, prev := new) \<and> prv h' = (prv h)(next := new, new := prev)"
proof -
  from set_prev_dom [OF assms(2), of new] obtain h1 where
    1: "set_prev next new h = Inr h1" "dom h1 = dom h" "prv h1 = (prv h)(next := new)" "nxt h1 = nxt h" by blast
  from set_next_dom [of new h1 "next"] 1 assms(3) obtain h2 where
    2: "set_next new next h1 = Inr h2" "dom h2 = dom h" "nxt h2 = (nxt h)(new := next)" "prv h2 = prv h1" by auto
  from set_prev_dom [of new h2 prev] 2 assms(3) obtain h3 where
    3: "set_prev new prev h2 = Inr h3" "dom h3 = dom h" "prv h3 = (prv h2)(new := prev)" "nxt h3 = nxt h2" by auto
  from set_next_dom [of prev h3 new] 3 assms(1) obtain h4 where
    4: "set_next prev new h3 = Inr h4" "dom h4 = dom h" "nxt h4 = (nxt h3)(prev := new)" "prv h4 = prv h3" by auto
  from 1 2 3 4 show ?thesis by (simp add: list_add_between_def)
qed

lemma list_del_between_dom:
  assumes "prev \<in> dom h" and "next \<in> dom h"
  shows "\<exists>h'. list_del_between prev next h = Inr h' \<and> dom h' = dom h \<and>
    nxt h' = (nxt h)(prev := next) \<and> prv h' = (prv h)(next := prev)"
proof -
  from set_prev_dom [OF assms(2), of prev] obtain h1 where
    1: "set_prev next prev h = Inr h1" "dom h1 = dom h" "prv h1 = (prv h)(next := prev)" "nxt h1 = nxt h" by blast
  from set_next_dom [of prev h1 "next"] 1 assms(1) obtain h2 where
    2: "set_next prev next h1 = Inr h2" "dom h2 = dom h" "nxt h2 = (nxt h)(prev := next)" "prv h2 = prv h1" by auto
  from 1 2 show ?thesis by (simp add: list_del_between_def)
qed

text \<open>The two neighbours of a gap in the list.\<close>

lemma dll_gap:
  "dll h hp (as @ bs) \<longleftrightarrow>
     (\<exists>us p n vs. hp # as = us @ [p] \<and> bs @ [hp] = n # vs \<and> distinct (hp # as @ bs) \<and>
        set (hp # as @ bs) \<subseteq> dom h \<and> map (nxt h) us = as \<and> nxt h p = n \<and> map (nxt h) bs = vs \<and>
        map (prv h) as = us \<and> prv h n = p \<and> map (prv h) vs = bs)"
proof -
  obtain us p where up: "hp # as = us @ [p]" by (metis list.distinct(1) rev_exhaust)
  obtain n vs where nv: "bs @ [hp] = n # vs" by (cases bs) auto
  have len: "length us = length as" "length vs = length bs"
    using arg_cong [OF up, of length] arg_cong [OF nv, of length] by simp_all
  have "map (nxt h) (hp # as @ bs) = (as @ bs) @ [hp] \<longleftrightarrow>
      map (nxt h) us @ nxt h p # map (nxt h) bs = as @ n # vs"
    using up nv by (metis append.assoc append_Cons append_Nil list.simps(9) map_append)
  moreover have "map (prv h) ((as @ bs) @ [hp]) = hp # as @ bs \<longleftrightarrow>
      map (prv h) as @ prv h n # map (prv h) vs = us @ p # bs"
    using up nv by (metis append.assoc append_Cons append_Nil list.simps(9) map_append)
  ultimately have "dll h hp (as @ bs) \<longleftrightarrow> distinct (hp # as @ bs) \<and> set (hp # as @ bs) \<subseteq> dom h \<and>
      map (nxt h) us = as \<and> nxt h p = n \<and> map (nxt h) bs = vs \<and>
      map (prv h) as = us \<and> prv h n = p \<and> map (prv h) vs = bs"
    using len by (auto simp: dll_def)
  with up nv show ?thesis by auto
qed

lemma dll_distinct: "dll h hp xs \<Longrightarrow> distinct (hp # xs)"
  by (simp add: dll_def)

lemma dll_dom: "dll h hp xs \<Longrightarrow> set (hp # xs) \<subseteq> dom h"
  by (simp add: dll_def)

lemma list_add_between_dll:
  assumes "dll h hp (as @ bs)" and "new \<in> dom h" and "new \<notin> set (hp # as @ bs)"
    and "prev = last (hp # as)" and "next = List.hd (bs @ [hp])"
  shows "\<exists>h'. list_add_between new prev next h = Inr h' \<and> dll h' hp (as @ new # bs) \<and> dom h' = dom h"
proof -
  from assms(1) [unfolded dll_gap] obtain us p n vs where
    g: "hp # as = us @ [p]" "bs @ [hp] = n # vs" "distinct (hp # as @ bs)" "set (hp # as @ bs) \<subseteq> dom h"
      "map (nxt h) us = as" "nxt h p = n" "map (nxt h) bs = vs"
      "map (prv h) as = us" "prv h n = p" "map (prv h) vs = bs" by blast
  have pn: "prev = p" "next = n" using assms(4,5) g(1,2) by simp_all
  have d: "distinct (us @ p # bs)" "distinct ((bs @ [hp]) @ as)"
    using g(1,3) by (metis append.assoc append_Cons append_Nil) (use g(3) in auto)
  have s: "set (hp # as) = insert p (set us)" unfolding g(1) by auto
  have dn: "n \<notin> set as" "n \<notin> set vs" using d(2) unfolding g(2) by auto
  have dp: "p \<notin> set us" "p \<notin> set bs" using d(1) by auto
  have nn: "new \<noteq> p" "new \<notin> set us" "new \<notin> set bs" "new \<notin> set as" using assms(3) s by auto
  have sv: "set (bs @ [hp]) = insert n (set vs)" unfolding g(2) by auto
  then have nv: "new \<noteq> n" "new \<notin> set vs" using assms(3) by auto
  have "p \<in> dom h" "n \<in> dom h" using g(4) s sv by auto
  from list_add_between_dom [OF this assms(2)] obtain h' where
    h': "list_add_between new prev next h = Inr h'" "dom h' = dom h"
      "nxt h' = (nxt h)(new := n, p := new)" "prv h' = (prv h)(n := new, new := p)" unfolding pn by blast
  have "dll h' hp ((as @ [new]) @ bs)"
    unfolding dll_gap
  proof (intro exI conjI)
    show "hp # as @ [new] = (us @ [p]) @ [new]" using g(1) by simp
    show "bs @ [hp] = n # vs" by (rule g)
    show "map (nxt h') (us @ [p]) = as @ [new]" using h'(3) g(5) dp nn by (auto simp: map_idI)
    show "nxt h' new = n" using h'(3) nn by simp
    show "map (nxt h') bs = vs" using h'(3) g(7) dp nn by (auto simp: map_idI)
    show "map (prv h') (as @ [new]) = us @ [p]" using h'(4) g(8) dn nn nv by auto
    show "prv h' n = new" using h'(4) nv by simp
    show "map (prv h') vs = bs" using h'(4) g(10) dn nv by auto
  qed (use g(3,4) assms(2,3) h'(2) in auto)
  with h' show ?thesis by auto
qed

lemma list_add_dll:
  assumes "dll h hp xs" and "new \<in> dom h" and "new \<notin> set (hp # xs)"
  shows "\<exists>h'. list_add new hp h = Inr h' \<and> dll h' hp (new # xs) \<and> dom h' = dom h"
proof -
  have "hp \<in> dom h" using assms(1) by (auto simp: dll_def)
  moreover have "nxt h hp = List.hd (xs @ [hp])" using assms(1) by (metis dll_def list.map(2) list.sel(1))
  ultimately show ?thesis
    using list_add_between_dll [of h hp "[]" xs new hp "nxt h hp"] assms by (simp add: list_add_def)
qed

lemma list_add_tail_dll:
  assumes "dll h hp xs" and "new \<in> dom h" and "new \<notin> set (hp # xs)"
  shows "\<exists>h'. list_add_tail new hp h = Inr h' \<and> dll h' hp (xs @ [new]) \<and> dom h' = dom h"
proof -
  have "hp \<in> dom h" using assms(1) by (auto simp: dll_def)
  moreover have "prv h hp = last (hp # xs)"
    using assms(1) by (metis dll_def last_map last_snoc snoc_eq_iff_butlast)
  ultimately show ?thesis
    using list_add_between_dll [of h hp xs "[]" new "prv h hp" hp] assms by (simp add: list_add_tail_def)
qed

lemma list_del_dll:
  assumes "dll h hp (as @ x # bs)"
  shows "\<exists>h'. list_del x h = Inr h' \<and> dll h' hp (as @ bs) \<and> dom h' = dom h"
proof -
  have "dll h hp ((as @ [x]) @ bs)" using assms by simp
  from this [unfolded dll_gap] obtain us p n vs where
    g: "hp # as @ [x] = us @ [p]" "bs @ [hp] = n # vs" "distinct (hp # (as @ [x]) @ bs)"
      "set (hp # (as @ [x]) @ bs) \<subseteq> dom h"
      "map (nxt h) us = as @ [x]" "nxt h p = n" "map (nxt h) bs = vs"
      "map (prv h) (as @ [x]) = us" "prv h n = p" "map (prv h) vs = bs" by blast
  have p: "p = x" "us = hp # as" using g(1) by auto
  obtain ws q where q: "hp # as = ws @ [q]" by (metis list.distinct(1) rev_exhaust)
  have "map (nxt h) (ws @ [q]) = as @ [x]" "map (prv h) (as @ [x]) = ws @ [q]"
    using g(5,8) unfolding p(2) q by auto
  then have w: "map (nxt h) ws = as" "nxt h q = x" "map (prv h) as = ws" "prv h x = q" by simp_all
  have d: "distinct (ws @ [q] @ [x] @ bs)" "distinct ((bs @ [hp]) @ as @ [x])"
    using g(3) q by (metis append.assoc append_Cons append_Nil) (use g(3) in auto)
  have s: "set (hp # as) = insert q (set ws)" unfolding q by auto
  have sv: "set (bs @ [hp]) = insert n (set vs)" unfolding g(2) by auto
  have dn: "n \<notin> set as" "n \<notin> set vs" using d(2) unfolding g(2) by auto
  have dq: "q \<notin> set ws" "q \<notin> set bs" using d(1) by auto
  have "q \<in> dom h" "n \<in> dom h" using g(4) s sv by auto
  from list_del_between_dom [OF this] obtain h' where
    h': "list_del_between q n h = Inr h'" "dom h' = dom h"
      "nxt h' = (nxt h)(q := n)" "prv h' = (prv h)(n := q)" by blast
  have "dll h' hp (as @ bs)"
    unfolding dll_gap
  proof (intro exI conjI)
    show "hp # as = ws @ [q]" by (rule q)
    show "bs @ [hp] = n # vs" by (rule g)
    show "map (nxt h') ws = as" using h'(3) w(1) dq by auto
    show "nxt h' q = n" using h'(3) by simp
    show "map (nxt h') bs = vs" using h'(3) g(7) dq by auto
    show "map (prv h') as = ws" using h'(4) w(3) dn by auto
    show "prv h' n = q" using h'(4) by simp
    show "map (prv h') vs = bs" using h'(4) g(10) dn by auto
  qed (use g(3,4) h'(2) in auto)
  moreover have "list_del x h = Inr h'"
    using g(4,6) w(4) h'(1) p(1) by (simp add: list_del_def)
  ultimately show ?thesis using h'(2) by blast
qed

section \<open>Walking\<close>

lemma dll_first: "dll h hp xs \<Longrightarrow> nxt h hp = List.hd (xs @ [hp])"
  by (metis dll_def list.map(2) list.sel(1))

lemma dll_step:
  assumes "dll h hp (as @ x # bs)"
  shows "x \<in> dom h \<and> x \<noteq> hp \<and> nxt h x = List.hd (bs @ [hp])"
proof -
  have "dll h hp ((as @ [x]) @ bs)" using assms by simp
  from this [unfolded dll_gap] obtain us p n vs where
    "hp # as @ [x] = us @ [p]" "bs @ [hp] = n # vs" "nxt h p = n" by blast
  then have "nxt h x = List.hd (bs @ [hp])"
    by (metis append_Cons butlast_snoc last_snoc list.sel(1))
  with assms show ?thesis by (auto simp: dll_def)
qed

lemma for_each_dll:
  "dll h hp (as @ bs) \<Longrightarrow> for_each hp (List.hd (bs @ [hp])) h = Some (Inr bs)"
proof (induction bs arbitrary: as)
  case Nil
  show ?case by (simp add: for_each.simps)
next
  case (Cons x bs)
  from dll_step [OF Cons.prems] have x: "x \<in> dom h" "x \<noteq> hp" "nxt h x = List.hd (bs @ [hp])" by auto
  from Cons.IH [of "as @ [x]"] Cons.prems have "for_each hp (nxt h x) h = Some (Inr bs)" using x(3) by simp
  with x(1,2) show ?case by (simp add: for_each.simps [of hp x h])
qed

lemma list_for_each_dll: "dll h hp xs \<Longrightarrow> list_for_each hp h = Some (Inr xs)"
  using for_each_dll [of h hp "[]" xs] dll_first [of h hp xs] dll_dom [of h hp xs]
  by (simp add: list_for_each_def)

lemma list_empty_dll: "dll h hp xs \<Longrightarrow> list_empty hp h = Inr (xs = [])"
  using dll_first [of h hp xs] dll_dom [of h hp xs] dll_distinct [of h hp xs]
  by (cases xs) (auto simp: list_empty_def)

lemma list_is_last_dll:
  "dll h hp (as @ x # bs) \<Longrightarrow> list_is_last x hp h = Inr (bs = [])"
  using dll_step [of h hp as x bs] dll_distinct [of h hp "as @ x # bs"]
  by (cases bs) (auto simp: list_is_last_def)

text \<open>The two loops of the broker: one that empties the list, one that removes the first hit and breaks.\<close>

definition del_body :: "nat \<Rightarrow> lheap \<Rightarrow> (bool \<times> lheap) res" where
  "del_body p h = res_bind (list_del p h) (\<lambda>h'. Inr (False, h'))"

definition del_first_body :: "(nat \<Rightarrow> bool) \<Rightarrow> nat \<Rightarrow> lheap \<Rightarrow> (bool \<times> lheap) res" where
  "del_first_body P p h =
     (if P p then res_bind (list_del p h) (\<lambda>h'. Inr (True, h')) else Inr (False, h))"

fun del_first :: "('a \<Rightarrow> bool) \<Rightarrow> 'a list \<Rightarrow> 'a list" where
  "del_first P [] = []"
| "del_first P (x # xs) = (if P x then xs else x # del_first P xs)"

lemma del_all_dll:
  "dll h hp xs \<Longrightarrow> \<exists>h'. for_each_safe del_body hp (List.hd (xs @ [hp])) h = Some (Inr h') \<and> dll h' hp []"
proof (induction xs arbitrary: h)
  case Nil
  then show ?case by (simp add: for_each_safe.simps)
next
  case (Cons x xs)
  from dll_step [of h hp "[]" x xs] Cons.prems have
    x: "x \<in> dom h" "x \<noteq> hp" "nxt h x = List.hd (xs @ [hp])" by auto
  from list_del_dll [of h hp "[]" x xs] Cons.prems obtain h' where
    h': "list_del x h = Inr h'" "dll h' hp xs" by auto
  have "del_body x h = Inr (False, h')" using h'(1) by (simp add: del_body_def)
  with Cons.IH [OF h'(2)] x show ?case by (subst for_each_safe.simps) simp
qed

lemma del_first_dll:
  "dll h hp (as @ bs) \<Longrightarrow>
     \<exists>h'. for_each_safe (del_first_body P) hp (List.hd (bs @ [hp])) h = Some (Inr h') \<and>
       dll h' hp (as @ del_first P bs)"
proof (induction bs arbitrary: as)
  case Nil
  then show ?case by (simp add: for_each_safe.simps)
next
  case (Cons x bs)
  from dll_step [OF Cons.prems] have x: "x \<in> dom h" "x \<noteq> hp" "nxt h x = List.hd (bs @ [hp])" by auto
  show ?case
  proof (cases "P x")
    case True
    from list_del_dll [OF Cons.prems] obtain h' where "list_del x h = Inr h'" "dll h' hp (as @ bs)" by blast
    with True x show ?thesis by (subst for_each_safe.simps) (simp add: del_first_body_def)
  next
    case False
    then have "del_first_body P x h = Inr (False, h)" by (simp add: del_first_body_def)
    with Cons.IH [of "as @ [x]"] Cons.prems x False show ?thesis
      by (subst for_each_safe.simps) simp
  qed
qed

text \<open>
  Backwards: exchanging the two pointers of every node turns the list round, and a walk backwards is a walk forwards
  in the exchanged store.
\<close>

definition turned :: "lheap \<Rightarrow> lheap" where
  "turned h = (\<lambda>p. map_option (\<lambda>n. \<lparr>lh_next = lh_prev n, lh_prev = lh_next n\<rparr>) (h p))"

lemma turned_simps:
  "dom (turned h) = dom h" "p \<in> dom h \<Longrightarrow> nxt (turned h) p = prv h p" "p \<in> dom h \<Longrightarrow> prv (turned h) p = nxt h p"
  by (auto simp: turned_def nxt_def prv_def dom_def)

lemma lh_turned: "lh (turned h) p = res_bind (lh h p) (\<lambda>n. Inr \<lparr>lh_next = lh_prev n, lh_prev = lh_next n\<rparr>)"
  by (cases "h p") (simp_all add: turned_def lh_def)

lemma dll_turned: "dll h hp xs \<Longrightarrow> dll (turned h) hp (rev xs)"
proof -
  assume d: "dll h hp xs"
  have "map (nxt (turned h)) (hp # rev xs) = map (prv h) (hp # rev xs)"
    by (rule map_cong [OF refl turned_simps(2)]) (use dll_dom [OF d] in auto)
  also have "\<dots> = rev (map (prv h) (xs @ [hp]))" by (simp add: rev_map)
  also have "\<dots> = rev xs @ [hp]" using d by (simp add: dll_def)
  finally have n: "map (nxt (turned h)) (hp # rev xs) = rev xs @ [hp]" .
  have "map (prv (turned h)) (rev xs @ [hp]) = map (nxt h) (rev xs @ [hp])"
    by (rule map_cong [OF refl turned_simps(3)]) (use dll_dom [OF d] in auto)
  also have "\<dots> = rev (map (nxt h) (hp # xs))" by (simp add: rev_map)
  also have "\<dots> = hp # rev xs" using d by (simp add: dll_def)
  finally show ?thesis using n d by (simp add: dll_def turned_simps)
qed

lemma for_each_prev_dll:
  "dll h hp (as @ bs) \<Longrightarrow> for_each_prev hp (last (hp # as)) h = Some (Inr (rev as))"
proof (induction as arbitrary: bs rule: rev_induct)
  case Nil
  show ?case by (simp add: for_each_prev.simps)
next
  case (snoc x as)
  have d: "dll (turned h) hp (rev bs @ x # rev as)" using dll_turned [OF snoc.prems] by simp
  have x: "x \<in> dom h" using dll_dom [OF snoc.prems] by auto
  have "nxt (turned h) x = last (hp # as)" "x \<noteq> hp" using dll_step [OF d] by (cases as rule: rev_cases; simp)+
  with x have p: "prv h x = last (hp # as)" "x \<noteq> hp" by (simp_all add: turned_simps)
  from snoc.IH [of "x # bs"] snoc.prems have "for_each_prev hp (prv h x) h = Some (Inr (rev as))" using p(1) by simp
  with x p(2) show ?case by (simp add: for_each_prev.simps [of hp x h])
qed

lemma dll_last: "dll h hp xs \<Longrightarrow> prv h hp = last (hp # xs)"
  by (metis dll_def last_map last_snoc snoc_eq_iff_butlast)

lemma list_for_each_prev_dll: "dll h hp xs \<Longrightarrow> list_for_each_prev hp h = Some (Inr (rev xs))"
  using for_each_prev_dll [of h hp xs "[]"] dll_last [of h hp xs] dll_dom [of h hp xs]
  by (simp add: list_for_each_prev_def)

lemma del_all_prev_dll:
  "dll h hp xs \<Longrightarrow> \<exists>h'. for_each_prev_safe del_body hp (last (hp # xs)) h = Some (Inr h') \<and> dll h' hp []"
proof (induction xs arbitrary: h rule: rev_induct)
  case Nil
  then show ?case by (simp add: for_each_prev_safe.simps)
next
  case (snoc x xs)
  have d: "dll (turned h) hp (x # rev xs)" using dll_turned [OF snoc.prems] by simp
  have x: "x \<in> dom h" using dll_dom [OF snoc.prems] by auto
  have "nxt (turned h) x = last (hp # xs)" "x \<noteq> hp" using dll_step [of "turned h" hp "[]" x "rev xs"] d
    by (cases xs rule: rev_cases; simp)+
  with x have p: "prv h x = last (hp # xs)" "x \<noteq> hp" by (simp_all add: turned_simps)
  from list_del_dll [of h hp xs x "[]"] snoc.prems obtain h' where
    h': "list_del x h = Inr h'" "dll h' hp xs" by auto
  have "del_body x h = Inr (False, h')" using h'(1) by (simp add: del_body_def)
  with snoc.IH [OF h'(2)] x p show ?case by (subst for_each_prev_safe.simps) simp
qed

text \<open>The structures.\<close>

lemma member_container [simp]: "member_of off (container_of off p) = p"
  by (simp add: member_of_def container_of_def)

lemma for_each_entry_dll:
  "dll h hp (as @ bs) \<Longrightarrow>
     for_each_entry off hp (container_of off (List.hd (bs @ [hp]))) h = Some (Inr (map (container_of off) bs))"
proof (induction bs arbitrary: as)
  case Nil
  show ?case by (simp add: for_each_entry.simps)
next
  case (Cons x bs)
  from dll_step [OF Cons.prems] have x: "x \<in> dom h" "x \<noteq> hp" "nxt h x = List.hd (bs @ [hp])" by auto
  from Cons.IH [of "as @ [x]"] Cons.prems
  have "for_each_entry off hp (container_of off (nxt h x)) h = Some (Inr (map (container_of off) bs))" using x(3) by simp
  with x(1,2) show ?case by (simp add: for_each_entry.simps [of off hp "container_of off x" h] list_next_entry_def)
qed

lemma list_for_each_entry_dll:
  "dll h hp xs \<Longrightarrow> list_for_each_entry off hp h = Some (Inr (map (container_of off) xs))"
  using for_each_entry_dll [of h hp "[]" xs off] dll_first [of h hp xs] dll_dom [of h hp xs]
  by (simp add: list_for_each_entry_def list_first_entry_def)

text \<open>The ends: on an empty list both are the structure computed for the head, which does not exist.\<close>

lemma list_ends:
  assumes "dll h hp xs"
  shows "list_first_entry off hp h = Inr (container_of off (List.hd (xs @ [hp])))"
    "list_last_entry off hp h = Inr (container_of off (last (hp # xs)))"
  using dll_first [OF assms] dll_last [OF assms] dll_dom [OF assms]
  by (simp_all add: list_first_entry_def list_last_entry_def)

text \<open>The declared head is an empty list.\<close>

lemma LIST_HEAD_empty: "dll (h(a \<mapsto> LIST_HEAD_INIT a)) a []"
  by (simp add: dll_def nxt_def prv_def LIST_HEAD_INIT_def)

lemma list_del_entry_is_del: "list_del_entry p h = list_del p h"
  by (simp add: list_del_entry_def list_del_def)

section \<open>The interface: a registry that keeps the order of arrival\<close>

text \<open>What the broker relies on; \<open>rep h xs\<close> says that the registry holds \<open>xs\<close>, \<open>node\<close> that a place for an entry is allocated.\<close>

fun add_all :: "('p \<Rightarrow> 'h \<Rightarrow> 'h res) \<Rightarrow> 'p list \<Rightarrow> 'h \<Rightarrow> 'h res" where
  "add_all add [] h = Inr h"
| "add_all add (p # ps) h = res_bind (add p h) (add_all add ps)"

locale registry =
  fixes rep :: "'h \<Rightarrow> 'p list \<Rightarrow> bool"
    and node :: "'h \<Rightarrow> 'p \<Rightarrow> bool"
    and add :: "'p \<Rightarrow> 'h \<Rightarrow> 'h res"
    and del :: "'p \<Rightarrow> 'h \<Rightarrow> 'h res"
    and elems :: "'h \<Rightarrow> 'p list res option"
  assumes add_rep: "rep h xs \<Longrightarrow> node h p \<Longrightarrow> p \<notin> set xs \<Longrightarrow>
      \<exists>h'. add p h = Inr h' \<and> rep h' (xs @ [p]) \<and> node h' = node h"
    and del_rep: "rep h xs \<Longrightarrow> p \<in> set xs \<Longrightarrow>
      \<exists>h'. del p h = Inr h' \<and> rep h' (remove1 p xs) \<and> node h' = node h"
    and elems_rep: "rep h xs \<Longrightarrow> elems h = Some (Inr xs)"
begin

lemma add_all_rep:
  "rep h xs \<Longrightarrow> distinct ps \<Longrightarrow> \<forall>p\<in>set ps. node h p \<and> p \<notin> set xs \<Longrightarrow>
     \<exists>h'. add_all add ps h = Inr h' \<and> rep h' (xs @ ps) \<and> node h' = node h"
proof (induction ps arbitrary: h xs)
  case (Cons p ps)
  then obtain h1 where h1: "add p h = Inr h1" "rep h1 (xs @ [p])" "node h1 = node h"
    using add_rep [of h xs p] by auto
  with Cons.IH [of h1 "xs @ [p]"] Cons.prems show ?case by auto
qed simp

lemma add_then_del:
  assumes "rep h xs" and "node h p" and "p \<notin> set xs"
  shows "\<exists>h1 h2. add p h = Inr h1 \<and> del p h1 = Inr h2 \<and> rep h2 xs \<and> elems h2 = elems h"
proof -
  from add_rep [OF assms] obtain h1 where h1: "add p h = Inr h1" "rep h1 (xs @ [p])" by blast
  from del_rep [OF h1(2), of p] obtain h2 where "del p h1 = Inr h2" "rep h2 (remove1 p (xs @ [p]))" by auto
  moreover have "remove1 p (xs @ [p]) = xs" using assms(3) by (simp add: remove1_append)
  ultimately show ?thesis using h1(1) elems_rep assms(1) by metis
qed

end

lemma dll_del_mem:
  assumes "dll h hp xs" and "p \<in> set xs"
  shows "\<exists>h'. list_del p h = Inr h' \<and> dll h' hp (remove1 p xs) \<and> dom h' = dom h"
proof -
  from split_list [OF assms(2)] obtain as bs where xs: "xs = as @ p # bs" by blast
  with dll_distinct [OF assms(1)] have "remove1 p xs = as @ bs" by (simp add: remove1_append)
  with list_del_dll [of h hp as p bs] assms(1) xs show ?thesis by simp
qed

interpretation reg: registry "\<lambda>h. dll h hp" "\<lambda>h p. p \<in> dom h \<and> p \<noteq> hp" "\<lambda>p. list_add_tail p hp"
    list_del "list_for_each hp" for hp :: nat
  by unfold_locales
    (use list_add_tail_dll dll_del_mem list_for_each_dll in \<open>fastforce simp: fun_eq_iff\<close>)+

section \<open>Properties\<close>

definition ex_lheap :: lheap where
  "ex_lheap = [0 \<mapsto> \<lparr>lh_next = 1, lh_prev = 2\<rparr>, 1 \<mapsto> \<lparr>lh_next = 2, lh_prev = 0\<rparr>,
     2 \<mapsto> \<lparr>lh_next = 0, lh_prev = 1\<rparr>, 3 \<mapsto> \<lparr>lh_next = 7, lh_prev = 7\<rparr>]"

lemma dll_ex: "dll ex_lheap 0 [1, 2]"
  by (simp add: dll_def ex_lheap_def nxt_def prv_def)

lemma dom_ex: "dom ex_lheap = {0, 1, 2, 3}"
  by (auto simp: ex_lheap_def)

text \<open>
  Property C22: The pointer code implements sequences: on a list with the nodes \<open>xs\<close>,
  \<open>list_add\<close> puts an allocated node that is not in the list in front, \<open>list_add_tail\<close> behind,
  \<open>list_del\<close> takes a node out and keeps the others in order, a walk ends and visits exactly
  \<open>xs\<close>, backwards in the opposite order, over the structures around the nodes as well, and \<open>list_empty\<close> answers \<open>xs = []\<close>.
\<close>
theorem list_ops_refine:
  assumes "dll h hp xs" and "new \<in> dom h" and "new \<notin> set (hp # xs)"
  shows "(\<exists>h'. list_add new hp h = Inr h' \<and> dll h' hp (new # xs)) \<and>
    (\<exists>h'. list_add_tail new hp h = Inr h' \<and> dll h' hp (xs @ [new])) \<and>
    (\<forall>p\<in>set xs. \<exists>h'. list_del p h = Inr h' \<and> dll h' hp (remove1 p xs)) \<and>
    list_for_each hp h = Some (Inr xs) \<and> list_for_each_prev hp h = Some (Inr (rev xs)) \<and>
    list_for_each_entry off hp h = Some (Inr (map (container_of off) xs)) \<and> list_empty hp h = Inr (xs = [])"
  using list_add_dll [OF assms] list_add_tail_dll [OF assms] dll_del_mem [OF assms(1)]
    list_for_each_dll [OF assms(1)] list_for_each_prev_dll [OF assms(1)] list_for_each_entry_dll [OF assms(1)]
    list_empty_dll [OF assms(1)] by blast

theorem list_ops_refine_witness:
  "(\<exists>h'. list_add 3 0 ex_lheap = Inr h' \<and> dll h' 0 [3, 1, 2]) \<and>
    (\<exists>h'. list_add_tail 3 0 ex_lheap = Inr h' \<and> dll h' 0 [1, 2, 3]) \<and>
    (\<exists>h'. list_del 1 ex_lheap = Inr h' \<and> dll h' 0 [2]) \<and>
    list_for_each 0 ex_lheap = Some (Inr [1, 2]) \<and> list_for_each_prev 0 ex_lheap = Some (Inr [2, 1]) \<and>
    list_for_each_entry 8 0 ex_lheap = Some (Inr [- 7, - 6]) \<and> list_empty 0 ex_lheap = Inr False"
  using list_ops_refine [OF dll_ex, of 3 8] by (simp add: dom_ex container_of_def)

text \<open>
  \<open>list_for_each_safe\<close> may delete the node it stands on: the loop that deletes
  every node, forwards or backwards, ends with the empty list, and the loop that deletes the first node with a
  property and breaks removes that node only.
\<close>
lemma list_for_each_safe_deletes:
  assumes "dll h hp xs"
  shows "(\<exists>h'. list_for_each_safe del_body hp h = Some (Inr h') \<and> dll h' hp []) \<and>
    (\<exists>h'. list_for_each_prev_safe del_body hp h = Some (Inr h') \<and> dll h' hp []) \<and>
    (\<exists>h'. list_for_each_safe (del_first_body P) hp h = Some (Inr h') \<and> dll h' hp (del_first P xs))"
  using del_all_dll [OF assms] del_all_prev_dll [OF assms] del_first_dll [of h hp "[]" xs P] assms dll_first [OF assms]
    dll_last [OF assms] dll_dom [OF assms]
  by (simp add: list_for_each_safe_def list_for_each_prev_safe_def)

lemma list_for_each_safe_deletes_witness:
  "(\<exists>h'. list_for_each_safe del_body 0 ex_lheap = Some (Inr h') \<and> dll h' 0 []) \<and>
    (\<exists>h'. list_for_each_prev_safe del_body 0 ex_lheap = Some (Inr h') \<and> dll h' 0 []) \<and>
    (\<exists>h'. list_for_each_safe (del_first_body (\<lambda>p. p = 2)) 0 ex_lheap = Some (Inr h') \<and>
       dll h' 0 (del_first (\<lambda>p. p = 2) [1, 2]))"
  by (rule list_for_each_safe_deletes [OF dll_ex])

end
