(* ===== verification/GW_Utility.thy ===== *)
theory GW_Utility
  imports GW_Prelude
begin

text \<open>
  \<open>src/code/src/utility.c\<close>: thread parameters, the integer read from the wire, file
  reading, the program name and the link state of a network interface.

  \<open>malloc\<close> is taken to succeed.  The file system is a parameter: it gives a path's content,
  or \<open>None\<close> when \<open>open\<close>/\<open>fopen\<close> fails.
\<close>

section \<open>Thread parameters\<close>

text \<open>
  A \<open>para_thread\<close> owns three heap objects.  The model keeps, for each, whether it is
  allocated and initialised; the mutex is held or not.
\<close>

datatype mutex = Unlocked | Locked | Destroyed

record para_thread =
  thread_pid :: bool
  pt_mutex :: mutex
  pt_cond :: bool

definition newThreadPara :: para_thread where
  "newThreadPara = \<lparr>thread_pid = True, pt_mutex = Unlocked, pt_cond = True\<rparr>"

definition destoryThreadPara :: "para_thread \<Rightarrow> para_thread" where
  "destoryThreadPara para_t = para_t\<lparr>pt_cond := False, pt_mutex := Destroyed, thread_pid := False\<rparr>"

section \<open>Reading an integer from a message\<close>

text \<open>The conversion from network order is commented out in the source: the bytes are used as they are.\<close>

definition myNtohl :: "bytes \<Rightarrow> int" where
  "myNtohl buf = un_le32 (take 4 buf)"

section \<open>Files\<close>

record c_file =
  f_content :: bytes
  f_pos :: nat

definition filelength :: "c_file \<Rightarrow> int \<times> c_file" where
  "filelength fp =
     (let fp1 = fp\<lparr>f_pos := length (f_content fp)\<rparr>;
          num = int (f_pos fp1);
          fp2 = fp1\<lparr>f_pos := 0\<rparr>
      in (num, fp2))"

definition readfile :: "(string \<Rightarrow> bytes option) \<Rightarrow> string \<Rightarrow> bytes option" where
  "readfile fs path =
     (case fs path of
        None \<Rightarrow> None
      | Some c \<Rightarrow>
          (let (len, fp) = filelength \<lparr>f_content = c, f_pos = 0\<rparr>
           in Some (take (nat len) (drop (f_pos fp) (f_content fp)) @ [NUL])))"

section \<open>The clock\<close>

text \<open>
  \<open>tv_sec\<close> is a \<open>long\<close>, 32 bits wide on the target, so the product is computed in
  32 bits before the result is widened to \<open>int64_t\<close>.
\<close>

definition now :: "int \<Rightarrow> int \<Rightarrow> int res" where
  "now tv_sec tv_usec = res_bind (chk32 (tv_sec * 1000000)) (\<lambda>p. chk32 (p + tv_usec))"

section \<open>The program name\<close>

text \<open>\<open>scan_slash tmp i\<close> is the loop of \<open>get_prog_name\<close> from index \<open>i\<close> downwards: the value of its index when it ends.\<close>

fun scan_slash :: "bytes \<Rightarrow> nat \<Rightarrow> int" where
  "scan_slash tmp 0 = (if (tmp @ [NUL]) ! 0 = CHR ''/'' then 1 else - 1)"
| "scan_slash tmp (Suc i) =
     (if (tmp @ [NUL]) ! Suc i = CHR ''/'' then int (Suc i) + 1 else scan_slash tmp i)"

definition get_prog_name :: "bytes \<Rightarrow> bytes" where
  "get_prog_name argv =
     (let i = scan_slash argv (length argv); i' = (if - 1 = i then 0 else i)
      in drop (nat i') argv)"

lemma scan_slash_bounds:
  "i \<le> length tmp \<Longrightarrow> scan_slash tmp i = - 1 \<and> (\<forall>j\<le>i. (tmp @ [NUL]) ! j \<noteq> CHR ''/'')
     \<or> (\<exists>k\<le>i. k < length tmp \<and> scan_slash tmp i = int k + 1 \<and> tmp ! k = CHR ''/'' \<and>
           (\<forall>j. k < j \<and> j \<le> i \<longrightarrow> (tmp @ [NUL]) ! j \<noteq> CHR ''/''))"
proof (induction i)
  case 0
  then show ?case by (cases tmp) auto
next
  case (Suc i)
  show ?case
  proof (cases "(tmp @ [NUL]) ! Suc i = CHR ''/''")
    case True
    with Suc.prems have "Suc i < length tmp" by (cases "Suc i = length tmp") (auto simp: nth_append)
    with True show ?thesis by (intro disjI2 exI [of _ "Suc i"]) (auto simp: nth_append)
  next
    case False
    with Suc show ?thesis by (auto simp: le_Suc_eq)
  qed
qed

lemma nth_notin_drop:
  "(\<And>j. k \<le> j \<Longrightarrow> j < length xs \<Longrightarrow> xs ! j \<noteq> c) \<Longrightarrow> c \<notin> set (drop k xs)"
  by (auto simp: in_set_conv_nth)

lemma get_prog_name_split:
  "\<exists>pre. argv = pre @ get_prog_name argv \<and> CHR ''/'' \<notin> set (get_prog_name argv) \<and>
     (pre = [] \<or> last pre = CHR ''/'')"
proof -
  from scan_slash_bounds [of "length argv" argv] consider
      (none) "scan_slash argv (length argv) = - 1"
        "\<forall>j\<le>length argv. (argv @ [NUL]) ! j \<noteq> CHR ''/''"
    | (some) k where "k < length argv" "scan_slash argv (length argv) = int k + 1"
        "argv ! k = CHR ''/''"
        "\<forall>j. k < j \<and> j \<le> length argv \<longrightarrow> (argv @ [NUL]) ! j \<noteq> CHR ''/''"
    by auto
  then show ?thesis
  proof cases
    case none
    have "CHR ''/'' \<notin> set (drop 0 argv)"
      using none(2) by (intro nth_notin_drop) (metis nth_append order.strict_implies_order)
    then show ?thesis using none(1) by (simp add: get_prog_name_def)
  next
    case some
    have "CHR ''/'' \<notin> set (drop (Suc k) argv)"
      using some(4) by (intro nth_notin_drop)
        (metis Suc_le_lessD nth_append order.strict_implies_order)
    moreover have "get_prog_name argv = drop (Suc k) argv"
      using some(2) by (simp add: get_prog_name_def nat_add_distrib)
    moreover have "last (take (Suc k) argv) = CHR ''/''"
      using some(1,3) by (simp add: take_Suc_conv_app_nth)
    ultimately show ?thesis
      by (intro exI [of _ "take (Suc k) argv"]) simp
  qed
qed

section \<open>The link state\<close>

text \<open>
  The 20-byte buffer is cleared and at most 10 bytes are read into it; a failing \<open>read\<close> is
  an empty content.
\<close>

definition connect_check :: "(string \<Rightarrow> bytes option) \<Rightarrow> bytes \<Rightarrow> int" where
  "connect_check fs eth =
     (let net_fd = (if eth = ''eth0'' then fs ''/sys/class/net/eth0/operstate''
                    else if eth = ''eth1'' then fs ''/sys/class/net/eth1/operstate''
                    else None)
      in case net_fd of
           None \<Rightarrow> 0
         | Some c \<Rightarrow>
             (let statue = take 10 c @ replicate (20 - length (take 10 c)) NUL
              in if strstr (cstr statue) ''up'' then 0
                 else if strstr (cstr statue) ''down'' then 1
                 else - 1))"

section \<open>Properties\<close>

lemma cstr_pad: "cstr (xs @ replicate n NUL) = cstr xs"
proof (induction xs)
  case Nil
  show ?case by (cases n) (simp_all add: cstr_def)
next
  case (Cons x xs)
  then show ?case by (simp add: cstr_def)
qed

text \<open>
  \<open>get_prog_name\<close> returns the last component of the path: what follows the last
  slash, or the whole string when there is none.
\<close>
lemma get_prog_name_last_component:
  "\<exists>pre. argv = pre @ get_prog_name argv \<and> CHR ''/'' \<notin> set (get_prog_name argv) \<and>
     (pre = [] \<or> last pre = CHR ''/'')"
  by (rule get_prog_name_split)

text \<open>
  The answer of \<open>connect_check\<close>: 1 only for an interface whose state file says
  \<open>down\<close> (and not \<open>up\<close>) in its first ten bytes, and \<open>- 1\<close> only for a state file with
  neither.  An interface that cannot be opened counts as up, although the comment promises
  \<open>- 1\<close> for an error.
\<close>
lemma connect_check_cases:
  "connect_check fs eth =
     (case (if eth \<in> {''eth0'', ''eth1''} then fs (''/sys/class/net/'' @ eth @ ''/operstate'') else None) of
        None \<Rightarrow> 0
      | Some c \<Rightarrow>
          if strstr (cstr (take 10 c)) ''up'' then 0 else if strstr (cstr (take 10 c)) ''down'' then 1 else - 1)"
  by (auto simp: connect_check_def Let_def cstr_pad split: option.split)

end
