(* ===== verification/GW_Broker.thy ===== *)
theory GW_Broker
  imports GW_List GW_Utility
begin

text \<open>
  \<open>src/code/dependence/broker/broker.c\<close> and \<open>broker.h\<close>: publish/subscribe and
  request/response over an MQTT client.

  The client library (mosquitto) is not part of the repository.  The calls made to it are
  recorded in \<open>mosq_calls\<close>; its answers, and what its thread does while a caller waits, are
  inputs (\<open>ack_env\<close>); its topic matching is the parameter \<open>matches\<close>.  The lists are the
  sequences that \<open>GW_List\<close> shows the pointer code to implement; an entry is identified by
  the address of its structure.  Allocation is taken to succeed.
\<close>

section \<open>Data\<close>

record waite_ack_s =
  wa_id :: nat
  mid :: int

record dev_priv =
  waite :: waite_ack_s
  topic :: bytes
  is_req_rsp :: int
  recv_callback :: nat
  dev_buf :: "bytes option"
  dev_buf_len :: int

datatype mosq_call =
    Mq_Publish bytes bytes
  | Mq_Subscribe bytes
  | Mq_Unsubscribe bytes
  | Mq_Disconnect
  | Mq_Destroy
  | Mq_Cleanup

record g_broker_s =
  connect_stat :: int
  big_mutex :: mutex
  cont_mid :: int
  discont_mid :: int
  pub_list :: "waite_ack_s list"
  sub_list :: "waite_ack_s list"
  unsub_list :: "waite_ack_s list"
  brk_id :: bytes
  brk_host :: bytes
  host_port :: int
  mosq :: bool
  cb_list :: "dev_priv list"
  srv_list :: "dev_priv list"
  respond_topic :: bytes
  brk_src :: bytes
  req_resp_seq :: "8 word"
  excep_callback :: "nat option"
  mosq_calls :: "mosq_call list"

text \<open>The object as \<open>g_broker\<close> is initialised statically.\<close>

definition g_broker0 :: g_broker_s where
  "g_broker0 = \<lparr>connect_stat = - 1, big_mutex = Unlocked, cont_mid = 0, discont_mid = 0, pub_list = [],
     sub_list = [], unsub_list = [], brk_id = [], brk_host = [], host_port = 0, mosq = False, cb_list = [],
     srv_list = [], respond_topic = [], brk_src = [], req_resp_seq = 0, excep_callback = None, mosq_calls = []\<rparr>"

definition mq_call :: "mosq_call \<Rightarrow> g_broker_s \<Rightarrow> g_broker_s" where
  "mq_call c b = b\<lparr>mosq_calls := mosq_calls b @ [c]\<rparr>"

section \<open>Topics\<close>

definition MOSQ_MQTT_ID_MAX_LENGTH :: nat where [simp]: "MOSQ_MQTT_ID_MAX_LENGTH = 23"

definition REQUEST_TOPIC :: "bytes \<Rightarrow> bytes \<Rightarrow> int \<Rightarrow> bytes" where
  "REQUEST_TOPIC src dst seq = src @ ''/'' @ dst @ ''/ack/request/'' @ dec_int seq"

definition RESPOND_TOPIC_ACK :: "bytes \<Rightarrow> bytes \<Rightarrow> bytes \<Rightarrow> bytes" where
  "RESPOND_TOPIC_ACK dst src seq = dst @ ''/'' @ src @ ''/ack/respond/'' @ seq"

definition RESPOND_TOPIC :: "bytes \<Rightarrow> bytes" where
  "RESPOND_TOPIC src = ''+/'' @ src @ ''/ack/respond/+''"

definition PUB_TOPIC :: "bytes \<Rightarrow> bytes \<Rightarrow> bytes" where
  "PUB_TOPIC src event = src @ ''/all/pub/'' @ event"

definition TOPIC_TYPE :: "bytes \<Rightarrow> bytes \<Rightarrow> bytes" where
  "TOPIC_TYPE src type = ''+/'' @ src @ ''/pub/'' @ type"

definition TOPIC_ACK :: "bytes \<Rightarrow> bytes" where
  "TOPIC_ACK src = ''+/'' @ src @ ''/ack/#''"

text \<open>\<open>is_pub\<close> is a \<open>strstr\<close>; \<open>is_me\<close> compares the second level with \<open>src\<close> while both last.\<close>

definition is_pub :: "bytes \<Rightarrow> bool" where
  "is_pub t = strstr t ''/pub/''"

fun is_me_loop :: "int \<Rightarrow> bytes \<Rightarrow> bytes \<Rightarrow> int" where
  "is_me_loop ret (c # cs) (s # ss) =
     (if c = CHR ''/'' then ret else if c \<noteq> s then 0 else is_me_loop 1 cs ss)"
| "is_me_loop ret _ _ = ret"

definition is_me :: "bytes \<Rightarrow> bytes \<Rightarrow> int" where
  "is_me t src = is_me_loop 0 (drop 1 (dropWhile (\<lambda>c. c \<noteq> CHR ''/'') t)) src"

section \<open>Waiting for an acknowledgement\<close>

definition waite_ack_init :: "nat \<Rightarrow> int \<Rightarrow> waite_ack_s list \<Rightarrow> waite_ack_s list" where
  "waite_ack_init a m l = l @ [\<lparr>wa_id = a, mid = m\<rparr>]"

definition wakeup_waite_ack :: "waite_ack_s \<Rightarrow> int \<Rightarrow> int \<times> waite_ack_s" where
  "wakeup_waite_ack w m = (if mid w = m then (0, w\<lparr>mid := 0\<rparr>) else (- ENODEV, w))"

definition entry_mid :: "nat \<Rightarrow> waite_ack_s list \<Rightarrow> int" where
  "entry_mid a l = (case find (\<lambda>w. wa_id w = a) l of Some w \<Rightarrow> mid w | None \<Rightarrow> 0)"

text \<open>\<open>tw\<close> is what \<open>pthread_cond_timedwait\<close> returns when it is called.\<close>

definition waite_ack_timeout :: "nat \<Rightarrow> bool \<Rightarrow> int \<Rightarrow> waite_ack_s list \<Rightarrow> int \<times> waite_ack_s list" where
  "waite_ack_timeout a flag tw l =
     ((if flag then (if entry_mid a l \<noteq> 0 then tw else 0) else - EINVAL),
      filter (\<lambda>w. wa_id w \<noteq> a) l)"

text \<open>The loop of the three callbacks: the first entry with the message id is woken.\<close>

fun wake_first :: "int \<Rightarrow> waite_ack_s list \<Rightarrow> waite_ack_s list" where
  "wake_first m [] = []"
| "wake_first m (w # ws) =
     (let (ret, w') = wakeup_waite_ack w m in if ret = 0 then w' # ws else w' # wake_first m ws)"

definition publish_callback :: "int \<Rightarrow> g_broker_s \<Rightarrow> g_broker_s" where
  "publish_callback m b = b\<lparr>pub_list := wake_first m (pub_list b)\<rparr>"

definition subscribe_callback :: "int \<Rightarrow> g_broker_s \<Rightarrow> g_broker_s" where
  "subscribe_callback m b = b\<lparr>sub_list := wake_first m (sub_list b)\<rparr>"

definition unsubscribe_callback :: "int \<Rightarrow> g_broker_s \<Rightarrow> g_broker_s" where
  "unsubscribe_callback m b = b\<lparr>unsub_list := wake_first m (unsub_list b)\<rparr>"

text \<open>
  The library's answer to a request: its return code, the message id it stores, the ids
  acknowledged before the caller tests its entry, and the result of the timed wait.
\<close>

record ack_env =
  rc :: int
  new_mid :: int
  acked :: "int list"
  timedwait :: int

definition set_mid :: "nat \<Rightarrow> int \<Rightarrow> waite_ack_s list \<Rightarrow> waite_ack_s list" where
  "set_mid a m l = map (\<lambda>w. if wa_id w = a then w\<lparr>mid := m\<rparr> else w) l"

text \<open>Entry, request, acknowledgements, wait: the sequence every request goes through.\<close>

definition ack_wait :: "nat \<Rightarrow> ack_env \<Rightarrow> waite_ack_s list \<Rightarrow> int \<times> waite_ack_s list" where
  "ack_wait a env l =
     (let l1 = waite_ack_init a 0 l;
          l2 = (if rc env = 0 then set_mid a (new_mid env) l1 else l1);
          l3 = fold wake_first (acked env) l2
      in waite_ack_timeout a (rc env = 0) (timedwait env) l3)"

section \<open>Sending\<close>

definition dev_send_to :: "nat \<Rightarrow> ack_env \<Rightarrow> bytes \<Rightarrow> int \<Rightarrow> bytes \<Rightarrow> g_broker_s \<Rightarrow> (int \<times> g_broker_s) res" where
  "dev_send_to a env buf buf_len dst b =
     res_bind (rd buf 0 buf_len) (\<lambda>d.
       let (ret, l) = ack_wait a env (pub_list b)
       in Inr (ret, (mq_call (Mq_Publish dst d) b)\<lparr>pub_list := l\<rparr>))"

definition dev_send :: "nat \<Rightarrow> ack_env \<Rightarrow> bytes \<Rightarrow> int \<Rightarrow> bytes \<Rightarrow> g_broker_s \<Rightarrow> (int \<times> g_broker_s) res" where
  "dev_send a env buf buf_len event b =
     dev_send_to a env buf buf_len (snprintf 256 (PUB_TOPIC (brk_src b) event)) b"

section \<open>Receiving\<close>

text \<open>A pending request takes the message when its topic matches the response topic.\<close>

fun srv_loop ::
    "(bytes \<Rightarrow> bytes \<Rightarrow> bool) \<Rightarrow> bytes \<Rightarrow> bytes \<Rightarrow> bytes \<Rightarrow> dev_priv list \<Rightarrow> bool \<times> dev_priv list" where
  "srv_loop matches resp payload t [] = (False, [])"
| "srv_loop matches resp payload t (d # ds) =
     (if \<not> matches resp t then (let (found, ds') = srv_loop matches resp payload t ds in (found, d # ds'))
      else (True, d\<lparr>dev_buf := Some payload, dev_buf_len := int (length payload),
                    waite := snd (wakeup_waite_ack (waite d) 1)\<rparr> # ds))"

text \<open>
  A call of a registered callback: function, data, topic.  The thread's copy of the topic
  goes into an array of 256 bytes.
\<close>

type_synonym cb_call = "nat \<times> bytes \<times> bytes"

fun cb_loop :: "(bytes \<Rightarrow> bytes \<Rightarrow> bool) \<Rightarrow> bytes \<Rightarrow> bytes \<Rightarrow> dev_priv list \<Rightarrow> cb_call list res" where
  "cb_loop matches payload t [] = Inr []"
| "cb_loop matches payload t (d # ds) =
     (if \<not> matches (topic d) t then cb_loop matches payload t ds
      else if 256 \<le> length t then Inl OutOfBounds
      else res_bind (cb_loop matches payload t ds) (\<lambda>cs. Inr ((recv_callback d, payload, t) # cs)))"

definition message_callback ::
    "(bytes \<Rightarrow> bytes \<Rightarrow> bool) \<Rightarrow> bytes \<Rightarrow> bytes \<Rightarrow> g_broker_s \<Rightarrow> (cb_call list \<times> g_broker_s) res" where
  "message_callback matches payload t b =
     (let (found, ds) = srv_loop matches (respond_topic b) payload t (srv_list b);
          b' = b\<lparr>srv_list := ds\<rparr>
      in if found then Inr ([], b')
         else res_bind (cb_loop matches payload t (cb_list b')) (\<lambda>cs. Inr (cs, b')))"

section \<open>Registering callbacks\<close>

definition topic_of :: "bytes \<Rightarrow> bytes option \<Rightarrow> bytes" where
  "topic_of src type = snprintf 256 (case type of Some t \<Rightarrow> TOPIC_TYPE src t | None \<Rightarrow> TOPIC_ACK src)"

text \<open>The topic is built and then not used: the comparison is with \<open>src\<close>.\<close>

definition found_cb :: "bytes option \<Rightarrow> bytes option \<Rightarrow> g_broker_s \<Rightarrow> dev_priv option" where
  "found_cb src type b =
     (case src of
        None \<Rightarrow> None
      | Some s \<Rightarrow> (let t = topic_of s type in find (\<lambda>d. s = topic d) (cb_list b)))"

definition register_cb_common ::
    "nat \<Rightarrow> nat \<Rightarrow> ack_env \<Rightarrow> bytes option \<Rightarrow> nat option \<Rightarrow> bytes option \<Rightarrow> g_broker_s \<Rightarrow> int \<times> g_broker_s" where
  "register_cb_common a aw env src cb type b =
     (case (src, cb) of
        (Some s, Some f) \<Rightarrow>
          (if found_cb src type b \<noteq> None then (- ENOTEMPTY, b)
           else let d = \<lparr>waite = \<lparr>wa_id = a, mid = 0\<rparr>, topic = topic_of s type, is_req_rsp = 0,
                         recv_callback = f, dev_buf = None, dev_buf_len = 0\<rparr>;
                    b1 = b\<lparr>cb_list := cb_list b @ [d]\<rparr>;
                    (ret, l) = ack_wait aw env (sub_list b1);
                    b2 = (mq_call (Mq_Subscribe (topic d)) b1)\<lparr>sub_list := l\<rparr>
                in if ret \<noteq> 0 then (ret, b2\<lparr>cb_list := filter (\<lambda>x. wa_id (waite x) \<noteq> a) (cb_list b2)\<rparr>)
                   else (ret, b2))
      | _ \<Rightarrow> (- EINVAL, b))"

text \<open>\<open>envs k\<close> is the library's answer to the \<open>k\<close>-th request of the loop.\<close>

fun unregister_loop ::
    "bytes \<Rightarrow> nat \<Rightarrow> (nat \<Rightarrow> ack_env) \<Rightarrow> nat \<Rightarrow> int \<Rightarrow> dev_priv list \<Rightarrow> g_broker_s \<Rightarrow> int \<times> dev_priv list \<times> g_broker_s" where
  "unregister_loop t aw envs k ret [] b = (ret, [], b)"
| "unregister_loop t aw envs k ret (d # ds) b =
     (if t \<noteq> topic d then
        (let (r, ds', b') = unregister_loop t aw envs k ret ds b in (r, d # ds', b'))
      else
        let (r, l) = ack_wait aw (envs k) (unsub_list b);
            b1 = (mq_call (Mq_Unsubscribe (topic d)) b)\<lparr>unsub_list := l\<rparr>
        in if r = 0 then (r, ds, b1)
           else (let (r', ds', b') = unregister_loop t aw envs (Suc k) r ds b1 in (r', d # ds', b')))"

definition unregister_cb_common ::
    "nat \<Rightarrow> (nat \<Rightarrow> ack_env) \<Rightarrow> bytes option \<Rightarrow> bytes option \<Rightarrow> g_broker_s \<Rightarrow> int \<times> g_broker_s" where
  "unregister_cb_common aw envs src type b =
     (case src of
        None \<Rightarrow> (- EINVAL, b)
      | Some s \<Rightarrow>
          (let (ret, ds, b') = unregister_loop (topic_of s type) aw envs 0 0 (cb_list b) b
           in (ret, b'\<lparr>cb_list := ds\<rparr>)))"

definition register_callback ::
    "nat \<Rightarrow> nat \<Rightarrow> ack_env \<Rightarrow> bytes option \<Rightarrow> nat option \<Rightarrow> bytes option \<Rightarrow> g_broker_s \<Rightarrow> int \<times> g_broker_s" where
  "register_callback a aw env src cb type b = register_cb_common a aw env src cb type b"

definition unregister_callback ::
    "nat \<Rightarrow> (nat \<Rightarrow> ack_env) \<Rightarrow> bytes option \<Rightarrow> bytes option \<Rightarrow> g_broker_s \<Rightarrow> int \<times> g_broker_s" where
  "unregister_callback aw envs src type b = unregister_cb_common aw envs src type b"

section \<open>Request and response\<close>

text \<open>
  \<open>dev_transfer\<close> up to its wait: the entry in \<open>srv_list\<close>, the request, and the result of
  sending it.  \<open>outs\<close> says whether the two result pointers are given.  The test of the
  arguments refuses only a call with all of them null, and then frees an uninitialised pointer.
\<close>

definition dev_transfer_start ::
    "nat \<Rightarrow> nat \<Rightarrow> ack_env \<Rightarrow> bool \<Rightarrow> bytes option \<Rightarrow> int \<Rightarrow> bytes option \<Rightarrow> g_broker_s \<Rightarrow> (int \<times> g_broker_s) res" where
  "dev_transfer_start a aw env outs buf buf_len dst b =
     (if \<not> outs \<and> buf = None \<and> dst = None then Inl Uninitialised
      else case (buf, dst) of
        (Some d, Some to) \<Rightarrow>
          (let request = snprintf 256 (REQUEST_TOPIC (brk_src b) to (uint (req_resp_seq b)));
               dev = \<lparr>waite = \<lparr>wa_id = a, mid = 1\<rparr>, topic = snprintf 256 (respond_topic b), is_req_rsp = 0,
                      recv_callback = 0, dev_buf = None, dev_buf_len = 0\<rparr>;
               b1 = b\<lparr>req_resp_seq := req_resp_seq b + 1, srv_list := srv_list b @ [dev]\<rparr>
           in dev_send_to aw env d buf_len request b1)
      | _ \<Rightarrow> Inl NullDeref)"

definition dev_transfer_end :: "nat \<Rightarrow> int \<Rightarrow> int \<Rightarrow> bool \<Rightarrow> g_broker_s \<Rightarrow> (int \<times> (bytes option \<times> int) \<times> g_broker_s) res" where
  "dev_transfer_end a sent tw outs b =
     (case find (\<lambda>d. wa_id (waite d) = a) (srv_list b) of
        None \<Rightarrow> Inl UseAfterFree
      | Some d \<Rightarrow>
          (let ret = (if sent = 0 then (if mid (waite d) \<noteq> 0 then tw else 0) else - EINVAL);
               b' = b\<lparr>srv_list := filter (\<lambda>x. wa_id (waite x) \<noteq> a) (srv_list b)\<rparr>
           in if ret = 0 then (if outs then Inr (ret, (dev_buf d, dev_buf_len d), b') else Inl NullDeref)
              else Inr (ret, (None, 0), b')))"

text \<open>The messages that arrive before the wait is over, in order.\<close>

fun deliver ::
    "(bytes \<Rightarrow> bytes \<Rightarrow> bool) \<Rightarrow> (bytes \<times> bytes) list \<Rightarrow> g_broker_s \<Rightarrow> (cb_call list \<times> g_broker_s) res" where
  "deliver matches [] b = Inr ([], b)"
| "deliver matches ((payload, t) # ms) b =
     res_bind (message_callback matches payload t b) (\<lambda>(cs, b1).
     res_bind (deliver matches ms b1) (\<lambda>(cs', b2). Inr (cs @ cs', b2)))"

definition dev_transfer ::
    "(bytes \<Rightarrow> bytes \<Rightarrow> bool) \<Rightarrow> nat \<Rightarrow> nat \<Rightarrow> ack_env \<Rightarrow> (bytes \<times> bytes) list \<Rightarrow> int \<Rightarrow> bytes option \<Rightarrow> int
       \<Rightarrow> bytes option \<Rightarrow> g_broker_s \<Rightarrow> (int \<times> (bytes option \<times> int) \<times> g_broker_s) res" where
  "dev_transfer matches a aw env arrivals tw buf buf_len dst b =
     res_bind (dev_transfer_start a aw env True buf buf_len dst b) (\<lambda>(sent, b1).
     res_bind (deliver matches arrivals b1) (\<lambda>(_, b2). dev_transfer_end a sent tw True b2))"

text \<open>
  \<open>dev_send_respond\<close> cuts the request topic in place: \<open>src\<close> is what comes before the first
  slash, \<open>dst\<close> what follows it up to the next, \<open>seq\<close> what follows the fourth.
\<close>

fun respond_scan :: "nat \<Rightarrow> bytes option \<Rightarrow> bytes \<Rightarrow> bytes option \<times> bytes option" where
  "respond_scan split dst [] = (dst, None)"
| "respond_scan split dst (c # p) =
     (let split' = (if c = CHR ''/'' then Suc split else split)
      in if dst = None \<and> split' = 1 then respond_scan split' (Some (takeWhile (\<lambda>c. c \<noteq> CHR ''/'') p)) p
         else if split' = 4 then (dst, Some p)
         else respond_scan split' dst p)"

definition dev_send_respond ::
    "nat \<Rightarrow> ack_env \<Rightarrow> bytes \<Rightarrow> int \<Rightarrow> bytes \<Rightarrow> g_broker_s \<Rightarrow> (int \<times> g_broker_s) res" where
  "dev_send_respond a env buf buf_len from b =
     (let src = takeWhile (\<lambda>c. c \<noteq> CHR ''/'') from
      in case respond_scan 0 None from of
           (Some dst, Some seq) \<Rightarrow>
             dev_send_to a env buf buf_len (snprintf 256 (RESPOND_TOPIC_ACK dst src seq)) b
         | _ \<Rightarrow> Inl NullDeref)"

section \<open>Connecting and closing\<close>

text \<open>
  The client id.  The bound given to \<open>snprintf\<close> is computed from the strings, not from the
  array \<open>id\<close> of \<open>MOSQ_MQTT_ID_MAX_LENGTH + 1\<close> bytes; the length is checked after the write.
\<close>

definition client_id_generate :: "bytes \<Rightarrow> int \<Rightarrow> bytes \<Rightarrow> g_broker_s \<Rightarrow> g_broker_s res" where
  "client_id_generate id_base pid host b =
     (let hostname = take 255 host;
          len = length id_base + 2 + 6 + length hostname;
          text = snprintf len (id_base @ ''|'' @ dec_int pid @ ''-'' @ hostname)
      in if MOSQ_MQTT_ID_MAX_LENGTH + 1 < length text + 1 then Inl OutOfBounds
         else Inr (b\<lparr>brk_id := (if length text > MOSQ_MQTT_ID_MAX_LENGTH
                                 then take MOSQ_MQTT_ID_MAX_LENGTH text else text)\<rparr>))"

text \<open>
  What the library, the operating system and the client thread do during \<open>init_broker\<close>:
  \<open>ie_conn\<close> is the code \<open>connect_callback\<close> reports before the wait is over, if it does.
\<close>

record init_env =
  ie_lib_init :: int
  ie_errno :: int
  ie_new :: bool
  ie_pid :: int
  ie_hostname :: bytes
  ie_thread :: int
  ie_conn :: "int option"
  ie_timedwait :: int
  ie_sub :: ack_env

definition connect_callback :: "int \<Rightarrow> g_broker_s \<Rightarrow> g_broker_s" where
  "connect_callback code b = b\<lparr>cont_mid := 0, connect_stat := code\<rparr>"

text \<open>The end of \<open>init_broker\<close>: a failure destroys the mutexes of the global object.\<close>

definition init_exit0 :: "int \<Rightarrow> g_broker_s \<Rightarrow> int \<times> g_broker_s" where
  "init_exit0 ret b = (let b1 = b\<lparr>big_mutex := Unlocked\<rparr> in (ret, if ret \<noteq> 0 then b1\<lparr>big_mutex := Destroyed\<rparr> else b1))"

definition init_exit1 :: "int \<Rightarrow> g_broker_s \<Rightarrow> int \<times> g_broker_s" where
  "init_exit1 ret b = init_exit0 ret (if ret \<noteq> 0 then mq_call Mq_Cleanup b else b)"

definition init_exit2 :: "int \<Rightarrow> g_broker_s \<Rightarrow> int \<times> g_broker_s" where
  "init_exit2 ret b =
     (if connect_stat b \<noteq> 0 then init_exit1 (connect_stat b) (mq_call Mq_Disconnect b) else init_exit1 ret b)"

definition init_connected :: "nat \<Rightarrow> init_env \<Rightarrow> bytes \<Rightarrow> nat option \<Rightarrow> g_broker_s \<Rightarrow> int \<times> g_broker_s" where
  "init_connected aw env src excep_cb b =
     (let b1 = b\<lparr>respond_topic := snprintf 256 (RESPOND_TOPIC src), brk_src := snprintf 256 src, req_resp_seq := 0\<rparr>;
          (ret, l) = ack_wait aw (ie_sub env) (sub_list b1);
          b2 = (mq_call (Mq_Subscribe (respond_topic b1)) b1)\<lparr>sub_list := l, excep_callback := excep_cb\<rparr>
      in init_exit2 ret b2)"

definition init_broker ::
    "nat \<Rightarrow> init_env \<Rightarrow> bytes \<Rightarrow> bytes option \<Rightarrow> int \<Rightarrow> nat option \<Rightarrow> g_broker_s \<Rightarrow> (int \<times> g_broker_s) res" where
  "init_broker aw env src host port excep_cb b0 =
     (if big_mutex b0 = Destroyed then Inl UseAfterFree
      else let b = b0\<lparr>big_mutex := Locked\<rparr>
      in if connect_stat b = 0 then Inr (init_exit0 (- EEXIST) b)
         else if ie_lib_init env \<noteq> 0 then Inr (init_exit0 (- ie_errno env) b)
         else res_bind (client_id_generate src (ie_pid env) (ie_hostname env) b) (\<lambda>b1.
           let b2 = b1\<lparr>mosq := ie_new env\<rparr>
           in if \<not> mosq b2 then Inr (init_exit1 (- ie_errno env) b2)
              else let h = (case host of None \<Rightarrow> ''localhost'' | Some x \<Rightarrow> x)
                   in if 16 \<le> length h then Inl OutOfBounds
                      else let b3 = b2\<lparr>brk_host := h, host_port := (if port \<le> 0 then 1883 else port),
                                       cb_list := [], srv_list := [], pub_list := [], sub_list := [], unsub_list := [],
                                       cont_mid := - 1\<rparr>
                           in if ie_thread env \<noteq> 0 then Inr (init_exit1 (ie_thread env) b3)
                              else let b4 = (case ie_conn env of None \<Rightarrow> b3 | Some c \<Rightarrow> connect_callback c b3);
                                       ret = (if cont_mid b4 \<noteq> 0 then ie_timedwait env else 0)
                                   in if ret \<noteq> 0 \<or> connect_stat b4 \<noteq> 0 then Inr (init_exit2 ret b4)
                                      else Inr (init_connected aw env src excep_cb b4)))"

definition clean_list :: "g_broker_s \<Rightarrow> g_broker_s" where
  "clean_list b = b\<lparr>srv_list := [], cb_list := []\<rparr>"

definition clean_global :: "g_broker_s \<Rightarrow> g_broker_s" where
  "clean_global b = clean_list (b\<lparr>excep_callback := None\<rparr>)"

text \<open>The end of the client thread; the first result is the exception callback it calls.\<close>

definition mqtt_thread_exit :: "g_broker_s \<Rightarrow> nat option \<times> g_broker_s" where
  "mqtt_thread_exit b =
     (let b1 = (if mosq b then clean_global ((mq_call Mq_Cleanup (mq_call Mq_Destroy b))\<lparr>mosq := False\<rparr>) else b);
          b2 = b1\<lparr>connect_stat := - 1\<rparr>;
          b3 = (if discont_mid b2 \<noteq> 0 then b2\<lparr>discont_mid := 0\<rparr> else b2)
      in (excep_callback b, b3))"

text \<open>
  The client thread.  \<open>mosquitto_loop_forever\<close> calls back with what happens on the connection; the callbacks
  for acknowledgements and messages are the ones \<open>init_broker\<close> sets.  \<open>disconnect_callback\<close> only writes to the log.
\<close>

datatype mq_event =
    Ev_Connect int
  | Ev_Disconnect int
  | Ev_Published int
  | Ev_Subscribed int
  | Ev_Unsubscribed int
  | Ev_Message bytes bytes

definition disconnect_callback :: "int \<Rightarrow> g_broker_s \<Rightarrow> g_broker_s" where
  "disconnect_callback result b = b"

fun mqtt_event :: "(bytes \<Rightarrow> bytes \<Rightarrow> bool) \<Rightarrow> mq_event \<Rightarrow> g_broker_s \<Rightarrow> (cb_call list \<times> g_broker_s) res" where
  "mqtt_event matches (Ev_Connect code) b = Inr ([], connect_callback code b)"
| "mqtt_event matches (Ev_Disconnect result) b = Inr ([], disconnect_callback result b)"
| "mqtt_event matches (Ev_Published m) b = Inr ([], publish_callback m b)"
| "mqtt_event matches (Ev_Subscribed m) b = Inr ([], subscribe_callback m b)"
| "mqtt_event matches (Ev_Unsubscribed m) b = Inr ([], unsubscribe_callback m b)"
| "mqtt_event matches (Ev_Message payload t) b = message_callback matches payload t b"

fun mqtt_loop :: "(bytes \<Rightarrow> bytes \<Rightarrow> bool) \<Rightarrow> mq_event list \<Rightarrow> g_broker_s \<Rightarrow> (cb_call list \<times> g_broker_s) res" where
  "mqtt_loop matches [] b = Inr ([], b)"
| "mqtt_loop matches (e # es) b =
     res_bind (mqtt_event matches e b) (\<lambda>(cs, b1).
     res_bind (mqtt_loop matches es b1) (\<lambda>(cs', b2). Inr (cs @ cs', b2)))"

text \<open>
  \<open>code\<close> is what \<open>mosquitto_connect\<close> returns, \<open>es\<close> what happens until the loop gives up.  Either way the
  object is taken down: the results are the calls of registered callbacks, the exception callback, the object.
\<close>

definition mqtt_thread ::
    "(bytes \<Rightarrow> bytes \<Rightarrow> bool) \<Rightarrow> int \<Rightarrow> mq_event list \<Rightarrow> g_broker_s \<Rightarrow> (cb_call list \<times> nat option \<times> g_broker_s) res" where
  "mqtt_thread matches code es b =
     (if code \<noteq> 0 then Inr ([], mqtt_thread_exit b)
      else res_bind (mqtt_loop matches es b) (\<lambda>(cs, b'). Inr (cs, mqtt_thread_exit b')))"

text \<open>
  The thread of one call: \<open>run\<close> calls the registered function with the copied payload, its length and
  the copied topic; the copy is freed afterwards.
\<close>

definition cb_thread :: "(nat \<Rightarrow> bytes \<Rightarrow> int \<Rightarrow> bytes \<Rightarrow> 's \<Rightarrow> (int \<times> 's) res) \<Rightarrow> cb_call \<Rightarrow> 's \<Rightarrow> 's res" where
  "cb_thread run c s =
     (case c of (f, buf, from) \<Rightarrow> res_bind (run f buf (int (length buf)) from s) (\<lambda>(_, s'). Inr s'))"

text \<open>\<open>get_timeout_val\<close>: the time now is given in seconds and microseconds, the result in seconds and nanoseconds.\<close>

definition WAITE_TIMEOUT :: int where [simp]: "WAITE_TIMEOUT = 30"

definition get_timeout_val :: "int \<times> int \<Rightarrow> int \<times> int" where
  "get_timeout_val tv = (fst tv + WAITE_TIMEOUT, 0)"

text \<open>\<open>close_broker\<close>; \<open>ends\<close> says whether the client thread ends before the timed wait does.\<close>

definition close_broker :: "bool \<Rightarrow> g_broker_s \<Rightarrow> int \<times> g_broker_s" where
  "close_broker ends b =
     (let b1 = b\<lparr>discont_mid := 1\<rparr>;
          b2 = (if mosq b1 then mq_call Mq_Disconnect b1 else b1);
          b3 = (if ends then snd (mqtt_thread_exit b2) else b2)
      in (0, b3\<lparr>big_mutex := Destroyed\<rparr>))"

section \<open>Lemmas on waiting\<close>

lemma wake_first_append:
  "wake_first m (l @ [w]) =
     (if m \<in> mid ` set l then wake_first m l @ [w] else l @ [snd (wakeup_waite_ack w m)])"
  by (induction l) (auto simp: wakeup_waite_ack_def Let_def)

lemma wake_first_notin: "m \<notin> mid ` set l \<Longrightarrow> wake_first m l = l"
  by (induction l) (auto simp: wakeup_waite_ack_def Let_def)

lemma wake_first_mids: "mid ` set (wake_first m l) \<subseteq> insert 0 (mid ` set l)"
  by (induction l) (auto simp: wakeup_waite_ack_def Let_def)

lemma wake_first_ids [simp]: "map wa_id (wake_first m l) = map wa_id l"
  by (induction l) (auto simp: wakeup_waite_ack_def Let_def)

lemma fold_wake_ids [simp]: "map wa_id (fold wake_first ms l) = map wa_id l"
  by (induction ms arbitrary: l) simp_all

lemma fold_wake_own:
  assumes "m \<noteq> 0" and "m \<notin> mid ` set l"
  shows "\<exists>l'. fold wake_first ms (l @ [\<lparr>wa_id = a, mid = m\<rparr>]) =
      l' @ [\<lparr>wa_id = a, mid = if m \<in> set ms then 0 else m\<rparr>] \<and> map wa_id l' = map wa_id l"
proof -
  have gen: "\<exists>l'. fold wake_first ms (l @ [\<lparr>wa_id = a, mid = v\<rparr>]) =
      l' @ [\<lparr>wa_id = a, mid = if m \<in> set ms then 0 else v\<rparr>] \<and> map wa_id l' = map wa_id l"
    if "v = m \<or> v = 0" "m \<notin> mid ` set l" for v
    using that
  proof (induction ms arbitrary: l v)
    case (Cons k ms)
    show ?case
    proof (cases "k \<in> mid ` set l")
      case True
      have "m \<notin> mid ` set (wake_first k l)" using wake_first_mids [of k l] Cons.prems(2) assms(1) by blast
      from Cons.IH [OF Cons.prems(1) this] True Cons.prems(2) show ?thesis
        by (auto simp: wake_first_append)
    next
      case False
      have "(if v = k then 0 else v) = m \<or> (if v = k then 0 else v) = (0::int)" using Cons.prems(1) by auto
      from Cons.IH [OF this Cons.prems(2)] False Cons.prems(1) show ?thesis
        by (auto simp: wake_first_append wakeup_waite_ack_def)
    qed
  qed simp
  from gen [of m] assms(2) show ?thesis by simp
qed

lemma ack_wait_own:
  assumes "a \<notin> wa_id ` set l" and "rc env = 0" and "new_mid env \<noteq> 0" and "new_mid env \<notin> mid ` set l"
  shows "\<exists>l'. ack_wait a env l = ((if new_mid env \<in> set (acked env) then 0 else timedwait env), l') \<and>
    map wa_id l' = map wa_id l"
proof -
  have l2: "set_mid a (new_mid env) (waite_ack_init a 0 l) = l @ [\<lparr>wa_id = a, mid = new_mid env\<rparr>]"
  proof -
    have "set_mid a (new_mid env) l = l"
      unfolding set_mid_def by (rule map_idI) (use assms(1) in \<open>auto simp: image_iff\<close>)
    then show ?thesis by (simp add: set_mid_def waite_ack_init_def)
  qed
  from fold_wake_own [OF assms(3,4), of "acked env" a] obtain l' where
    l': "fold wake_first (acked env) (l @ [\<lparr>wa_id = a, mid = new_mid env\<rparr>]) =
      l' @ [\<lparr>wa_id = a, mid = if new_mid env \<in> set (acked env) then 0 else new_mid env\<rparr>]"
    "map wa_id l' = map wa_id l" by blast
  have ids: "wa_id ` set l' = wa_id ` set l" using arg_cong [OF l'(2), of set] by simp
  then have na: "\<forall>w\<in>set l'. wa_id w \<noteq> a" using assms(1) by (metis image_eqI)
  then have f: "find (\<lambda>w. wa_id w = a) (l' @ [x]) = (if wa_id x = a then Some x else None)" for x
    by (induction l') auto
  have "filter (\<lambda>w. wa_id w \<noteq> a) l' = l'" using na by (simp add: filter_id_conv)
  with l' f assms(2,3) l2 show ?thesis
    by (auto simp: ack_wait_def waite_ack_timeout_def entry_mid_def Let_def)
qed

lemma ack_wait_signalled: "rc env = 0 \<Longrightarrow> timedwait env = 0 \<Longrightarrow> fst (ack_wait a env l) = 0"
  by (simp add: ack_wait_def waite_ack_timeout_def Let_def)

section \<open>Lemmas on topics\<close>

abbreviation (input) no_slash :: "bytes \<Rightarrow> bool" where
  "no_slash s \<equiv> CHR ''/'' \<notin> set s"

lemma takeWhile_level: "no_slash a \<Longrightarrow> takeWhile (\<lambda>c. c \<noteq> CHR ''/'') (a @ CHR ''/'' # r) = a"
  by (subst takeWhile_append2) auto

lemma respond_scan_level:
  "no_slash a \<Longrightarrow> (dst = None \<longrightarrow> n \<noteq> 1) \<Longrightarrow> n < 4 \<Longrightarrow> respond_scan n dst (a @ r) = respond_scan n dst r"
  by (induction a) auto

lemma respond_scan_request:
  assumes "no_slash src" and "no_slash dst"
  shows "respond_scan 0 None (REQUEST_TOPIC src dst seq) = (Some dst, Some (dec_int seq))"
  using assms takeWhile_level [of dst "''ack/request/'' @ dec_int seq"]
  by (simp add: REQUEST_TOPIC_def respond_scan_level)

lemma takeWhile_request:
  "no_slash src \<Longrightarrow> takeWhile (\<lambda>c. c \<noteq> CHR ''/'') (REQUEST_TOPIC src dst seq) = src"
  by (simp add: REQUEST_TOPIC_def takeWhile_level)

lemma length_dec_nat: "n < 1000 \<Longrightarrow> length (dec_nat n) \<le> 3"
  by (simp add: dec_nat.simps [of n] dec_nat.simps [of "n div 10"] dec_nat.simps [of "n div 100"]
      div_mult2_eq [symmetric])

lemma length_dec_seq: "length (dec_int (uint (w :: 8 word))) \<le> 3"
proof -
  have "unat w < 256" using unsigned_less [of w] by simp
  then show ?thesis using length_dec_nat [of "unat w"] by (simp add: dec_int_def)
qed

lemma no_slash_dec_int: "no_slash (dec_int v)"
  using notin_dec_nat [of "CHR ''/''"] by (simp add: dec_int_def)

text \<open>A transfer that is under way: its entry is the last one of \<open>srv_list\<close> and waits.\<close>

lemma dev_transfer_start_effect:
  assumes "length (brk_src b) + length dst < 200"
  shows "\<exists>sent l. dev_transfer_start a aw env True (Some req) (int (length req)) (Some dst) b =
    Inr (sent, b\<lparr>req_resp_seq := req_resp_seq b + 1,
       srv_list := srv_list b @ [\<lparr>waite = \<lparr>wa_id = a, mid = 1\<rparr>, topic = snprintf 256 (respond_topic b),
         is_req_rsp = 0, recv_callback = 0, dev_buf = None, dev_buf_len = 0\<rparr>],
       mosq_calls := mosq_calls b @ [Mq_Publish (REQUEST_TOPIC (brk_src b) dst (uint (req_resp_seq b))) req],
       pub_list := l\<rparr>)"
proof -
  have "length (REQUEST_TOPIC (brk_src b) dst (uint (req_resp_seq b))) < 256"
    using assms length_dec_seq [of "req_resp_seq b"] by (simp add: REQUEST_TOPIC_def)
  then show ?thesis
    by (cases "ack_wait aw env (pub_list b)")
      (simp add: dev_transfer_start_def dev_send_to_def rd_def mq_call_def, blast)
qed

lemma dev_send_respond_effect:
  assumes "no_slash src" and "no_slash dst" and "length src + length dst < 200" and "0 \<le> seq" and "seq < 256"
  shows "\<exists>ret l. dev_send_respond a env reply (int (length reply)) (REQUEST_TOPIC src dst seq) b =
    Inr (ret, b\<lparr>mosq_calls := mosq_calls b @ [Mq_Publish (RESPOND_TOPIC_ACK dst src (dec_int seq)) reply],
               pub_list := l\<rparr>)"
proof -
  have "length (dec_int seq) \<le> 3" using assms(4,5) length_dec_nat [of "nat seq"] by (simp add: dec_int_def)
  then have "length (RESPOND_TOPIC_ACK dst src (dec_int seq)) < 256"
    using assms(3) by (simp add: RESPOND_TOPIC_ACK_def)
  then show ?thesis
    using respond_scan_request [OF assms(1,2), of seq] takeWhile_request [OF assms(1), of dst seq]
    by (cases "ack_wait a env (pub_list b)")
      (simp add: dev_send_respond_def dev_send_to_def rd_def mq_call_def, blast)
qed

lemma message_to_pending:
  assumes "srv_list b = d # ds" and "matches (respond_topic b) t"
  shows "message_callback matches payload t b =
    Inr ([], b\<lparr>srv_list := d\<lparr>dev_buf := Some payload, dev_buf_len := int (length payload),
                waite := snd (wakeup_waite_ack (waite d) 1)\<rparr> # ds\<rparr>)"
  using assms by (simp add: message_callback_def)

section \<open>MQTT's topic filters\<close>

text \<open>The documented meaning of a filter, used where a property is applied to a concrete case.\<close>

fun levels :: "bytes \<Rightarrow> bytes list" where
  "levels [] = [[]]"
| "levels (c # cs) =
     (if c = CHR ''/'' then [] # levels cs
      else case levels cs of [] \<Rightarrow> [[c]] | l # ls \<Rightarrow> (c # l) # ls)"

fun level_match :: "bytes list \<Rightarrow> bytes list \<Rightarrow> bool" where
  "level_match [] [] = True"
| "level_match (p # ps) ls =
     (if p = ''#'' then True
      else case ls of [] \<Rightarrow> False | l # ls' \<Rightarrow> (p = ''+'' \<or> p = l) \<and> level_match ps ls')"
| "level_match [] (l # ls) = False"

definition mqtt_matches :: "bytes \<Rightarrow> bytes \<Rightarrow> bool" where
  "mqtt_matches flt t = level_match (levels flt) (levels t)"

lemma levels_app: "no_slash a \<Longrightarrow> levels (a @ CHR ''/'' # r) = a # levels r"
  by (induction a) auto

lemma levels_single: "no_slash a \<Longrightarrow> levels a = [a]"
  by (induction a) auto

lemma mqtt_matches_respond:
  assumes "no_slash src" and "no_slash a" and "no_slash c"
  shows "mqtt_matches (RESPOND_TOPIC src) (RESPOND_TOPIC_ACK a src c)"
  using levels_app [OF assms(1)] levels_app [OF assms(2)] levels_single [OF assms(3)]
  by (simp add: mqtt_matches_def RESPOND_TOPIC_def RESPOND_TOPIC_ACK_def)

section \<open>Properties\<close>

definition ex_env :: ack_env where
  "ex_env = \<lparr>rc = 0, new_mid = 5, acked = [5], timedwait = ETIMEDOUT\<rparr>"

definition ex_signalled :: ack_env where
  "ex_signalled = \<lparr>rc = 0, new_mid = 6, acked = [], timedwait = 0\<rparr>"

definition ex_adapter :: g_broker_s where
  "ex_adapter = g_broker0\<lparr>connect_stat := 0, mosq := True, brk_src := ''dev'', respond_topic := RESPOND_TOPIC ''dev''\<rparr>"

lemma ex_adapter_simps [simp]:
  "connect_stat ex_adapter = 0" "big_mutex ex_adapter = Unlocked" "brk_src ex_adapter = ''dev''"
  "respond_topic ex_adapter = RESPOND_TOPIC ''dev''" "srv_list ex_adapter = []" "cb_list ex_adapter = []"
  "pub_list ex_adapter = []" "sub_list ex_adapter = []" "mosq_calls ex_adapter = []" "req_resp_seq ex_adapter = 0"
  by (simp_all add: ex_adapter_def g_broker0_def)



text \<open>
  Responses are not told apart: with two transfers pending, a response to either
  goes to the older one, whatever its sequence number, and the older transfer returns it as
  its own while the younger goes on waiting.
\<close>
lemma responses_cross:
  assumes "srv_list b = [d1, d2]" and "wa_id (waite d1) \<noteq> wa_id (waite d2)"
    and "mid (waite d1) = 1" and "mid (waite d2) = 1"
    and "matches (respond_topic b) (RESPOND_TOPIC_ACK from src seq)"
  shows "\<exists>b1 b2. message_callback matches reply (RESPOND_TOPIC_ACK from src seq) b = Inr ([], b1) \<and>
    dev_transfer_end (wa_id (waite d1)) 0 tw True b1 = Inr (0, (Some reply, int (length reply)), b2) \<and>
    srv_list b2 = [d2] \<and> mid (waite d2) = 1"
  using message_to_pending [of b d1 "[d2]" matches "RESPOND_TOPIC_ACK from src seq" reply] assms
  by (auto simp: dev_transfer_end_def wakeup_waite_ack_def)

definition ex_two_pending :: g_broker_s where
  "ex_two_pending = ex_adapter\<lparr>srv_list :=
     map (\<lambda>a. \<lparr>waite = \<lparr>wa_id = a, mid = 1\<rparr>, topic = RESPOND_TOPIC ''dev'', is_req_rsp = 0, recv_callback = 0,
       dev_buf = None, dev_buf_len = 0\<rparr>) [1, 2]\<rparr>"

lemma responses_cross_witness:
  "\<exists>b1 b2. message_callback mqtt_matches ''for 1'' (RESPOND_TOPIC_ACK ''rf'' ''dev'' ''1'') ex_two_pending = Inr ([], b1) \<and>
    dev_transfer_end 1 0 ETIMEDOUT True b1 = Inr (0, (Some ''for 1'', int (length ''for 1'')), b2) \<and>
    srv_list b2 = [srv_list ex_two_pending ! 1]"
  using responses_cross [of ex_two_pending "srv_list ex_two_pending ! 0" "srv_list ex_two_pending ! 1"
      mqtt_matches "''rf''" "''dev''" "''1''" "''for 1''" ETIMEDOUT] mqtt_matches_respond [of "''dev''" "''rf''" "''1''"]
  by (auto simp: ex_two_pending_def)

text \<open>
  Property C28: A sender waits for its own acknowledgement.  Among any other waiting senders, with
  message ids that differ from its own, a request the library accepts returns 0 exactly when
  its id is acknowledged before its test, and the result of the timed wait otherwise; its entry
  is gone and the others are still in the list.
\<close>
theorem dev_send_waits_for_ack:
  assumes "rc env = 0" and "new_mid env \<noteq> 0" and "new_mid env \<notin> mid ` set (pub_list b)"
    and "a \<notin> wa_id ` set (pub_list b)" and "n = int (length buf)"
  shows "\<exists>ret b'. dev_send a env buf n event b = Inr (ret, b') \<and>
    ret = (if new_mid env \<in> set (acked env) then 0 else timedwait env) \<and>
    map wa_id (pub_list b') = map wa_id (pub_list b) \<and>
    mosq_calls b' = mosq_calls b @ [Mq_Publish (snprintf 256 (PUB_TOPIC (brk_src b) event)) buf]"
  using ack_wait_own [OF assms(4,1,2,3)] assms(5)
  by (auto simp: dev_send_def dev_send_to_def rd_def mq_call_def)

theorem dev_send_waits_for_ack_witness:
  "\<exists>ret b'. dev_send 9 ex_env ''hello'' 5 ''stat'' ex_adapter = Inr (ret, b') \<and>
    ret = (if new_mid ex_env \<in> set (acked ex_env) then 0 else timedwait ex_env) \<and>
    map wa_id (pub_list b') = map wa_id (pub_list ex_adapter) \<and>
    mosq_calls b' = mosq_calls ex_adapter @ [Mq_Publish (snprintf 256 (PUB_TOPIC (brk_src ex_adapter) ''stat'')) ''hello'']"
  by (rule dev_send_waits_for_ack) (simp_all add: ex_env_def)

text \<open>
  Registering is not idempotent.  The search for an existing registration
  compares the subscriber's name with whole topics, so it finds none; a second registration
  of the same name and type is accepted, each message is then delivered twice, and one call of
  \<open>unregister_callback\<close> leaves the other registration in force.
\<close>
lemma register_twice_delivers_twice:
  assumes "src \<noteq> []" and "List.hd src \<noteq> CHR ''+''" and "cb_list b = []" and "srv_list b = []"
    and "t0 = topic_of src type" and "matches t0 t" and "length t < 256" and "a1 \<noteq> a2"
    and "rc env = 0" and "timedwait env = 0"
  shows "\<exists>b1 b2 b3. register_callback a1 aw env (Some src) (Some f) type b = (0, b1) \<and>
    register_callback a2 aw env (Some src) (Some f) type b1 = (0, b2) \<and>
    message_callback matches payload t b2 = Inr ([(f, payload, t), (f, payload, t)], b2) \<and>
    unregister_callback aw (\<lambda>_. env) (Some src) type b2 = (0, b3) \<and>
    message_callback matches payload t b3 = Inr ([(f, payload, t)], b3)"
proof -
  have ne: "src \<noteq> topic_of src type"
  proof -
    have "topic_of src type \<noteq> [] \<and> List.hd (topic_of src type) = CHR ''+''"
      by (simp add: topic_of_def snprintf_def TOPIC_TYPE_def TOPIC_ACK_def split: option.split)
    with assms(1,2) show ?thesis by metis
  qed
  let ?d = "\<lambda>a. \<lparr>waite = \<lparr>wa_id = a, mid = 0\<rparr>, topic = t0, is_req_rsp = 0, recv_callback = f,
    dev_buf = None, dev_buf_len = 0\<rparr>"
  have reg: "\<exists>b'. register_callback a aw env (Some src) (Some f) type c = (0, b') \<and>
      cb_list b' = cb_list c @ [?d a] \<and> srv_list b' = srv_list c"
    if "\<forall>d\<in>set (cb_list c). topic d = t0" for c a
  proof -
    have "found_cb (Some src) type c = None"
      using that ne assms(5) by (simp add: found_cb_def find_None_iff)
    with ack_wait_signalled [OF assms(9,10), of aw "sub_list c"] show ?thesis
      by (cases "ack_wait aw env (sub_list c)")
        (simp add: register_callback_def register_cb_common_def Let_def mq_call_def assms(5))
  qed
  from reg [of b a1] assms(3,4) obtain b1 where b1: "register_callback a1 aw env (Some src) (Some f) type b = (0, b1)"
    "cb_list b1 = [?d a1]" "srv_list b1 = []" by auto
  from reg [of b1 a2] b1(2,3) obtain b2 where b2: "register_callback a2 aw env (Some src) (Some f) type b1 = (0, b2)"
    "cb_list b2 = [?d a1, ?d a2]" "srv_list b2 = []" by auto
  obtain l where "ack_wait aw env (unsub_list b2) = (0, l)"
    using ack_wait_signalled [OF assms(9,10), of aw "unsub_list b2"] by (cases "ack_wait aw env (unsub_list b2)") auto
  then have u: "\<exists>b3. unregister_callback aw (\<lambda>_. env) (Some src) type b2 = (0, b3) \<and>
      cb_list b3 = [?d a2] \<and> srv_list b3 = []"
    using b2(2,3) assms(5) by (simp add: unregister_callback_def unregister_cb_common_def mq_call_def)
  have msg: "message_callback matches payload t c = Inr (map (\<lambda>d. (f, payload, t)) (cb_list c), c)"
    if "srv_list c = []" "\<forall>d\<in>set (cb_list c). topic d = t0 \<and> recv_callback d = f" for c
  proof -
    have "cb_loop matches payload t ds = Inr (map (\<lambda>d. (f, payload, t)) ds)"
      if "\<forall>d\<in>set ds. topic d = t0 \<and> recv_callback d = f" for ds
      using that assms(6,7) by (induction ds) auto
    with that show ?thesis by (simp add: message_callback_def)
  qed
  from b1 b2 u msg show ?thesis by fastforce
qed

lemma register_twice_delivers_twice_witness:
  "\<exists>b1 b2 b3. register_callback 1 7 ex_signalled (Some ''all'') (Some 77) (Some ''#'') ex_adapter = (0, b1) \<and>
    register_callback 2 7 ex_signalled (Some ''all'') (Some 77) (Some ''#'') b1 = (0, b2) \<and>
    message_callback mqtt_matches ''x'' ''mon/all/pub/system_stat'' b2 =
      Inr ([(77, ''x'', ''mon/all/pub/system_stat''), (77, ''x'', ''mon/all/pub/system_stat'')], b2) \<and>
    unregister_callback 7 (\<lambda>_. ex_signalled) (Some ''all'') (Some ''#'') b2 = (0, b3) \<and>
    message_callback mqtt_matches ''x'' ''mon/all/pub/system_stat'' b3 = Inr ([(77, ''x'', ''mon/all/pub/system_stat'')], b3)"
proof (rule register_twice_delivers_twice [where ?t0.0 = "''+/all/pub/#''"])
  show "mqtt_matches ''+/all/pub/#'' ''mon/all/pub/system_stat''" by (simp add: mqtt_matches_def)
qed (simp_all add: topic_of_def TOPIC_TYPE_def ex_signalled_def)

lemma init_broker_connects:
  assumes "big_mutex b0 = Unlocked" and "connect_stat b0 \<noteq> 0" and "ie_lib_init env = 0" and "ie_new env"
    and "ie_thread env = 0" and "ie_conn env = Some 0" and "rc (ie_sub env) = 0" and "timedwait (ie_sub env) = 0"
    and "0 \<le> ie_pid env" and "length src + length (dec_int (ie_pid env)) + length (ie_hostname env) \<le> 21"
  shows "\<exists>b1. init_broker aw env src None (- 1) cb b0 = Inr (0, b1) \<and>
    connect_stat b1 = 0 \<and> big_mutex b1 = Unlocked \<and> brk_src b1 = src \<and> respond_topic b1 = RESPOND_TOPIC src \<and>
    req_resp_seq b1 = 0 \<and> host_port b1 = 1883 \<and> cb_list b1 = [] \<and> srv_list b1 = [] \<and> mosq b1 \<and>
    mosq_calls b1 = mosq_calls b0 @ [Mq_Subscribe (RESPOND_TOPIC src)]"
proof -
  have l: "length src \<le> 21" "length (ie_hostname env) \<le> 21" using assms(10) by simp_all
  then have t: "snprintf 256 src = src" "snprintf 256 (RESPOND_TOPIC src) = RESPOND_TOPIC src"
    by (simp_all add: RESPOND_TOPIC_def)
  have c: "\<exists>i. client_id_generate src (ie_pid env) (ie_hostname env) b = Inr (b\<lparr>brk_id := i\<rparr>)" for b
    using assms(10) l(2) by (auto simp: client_id_generate_def Let_def snprintf_def)
  obtain i where i: "client_id_generate src (ie_pid env) (ie_hostname env) (b0\<lparr>big_mutex := Locked\<rparr>) =
      Inr (b0\<lparr>big_mutex := Locked\<rparr>\<lparr>brk_id := i\<rparr>)" using c by blast
  obtain l where l: "ack_wait aw (ie_sub env) [] = (0, l)"
    using ack_wait_signalled [OF assms(7,8), of aw "[]"] by (cases "ack_wait aw (ie_sub env) []") auto
  show ?thesis
    using assms i l t
    by (simp add: init_broker_def connect_callback_def init_connected_def init_exit2_def init_exit1_def
        init_exit0_def mq_call_def Let_def)
qed

text \<open>
  A successful \<open>init_broker\<close> leaves the object connected, subscribed to its
  response topic, with empty registries; a second call while connected does not only answer
  \<open>- EEXIST\<close>: it destroys the mutex of the object in use, so that no further call is defined.
\<close>
lemma init_broker_then_again:
  assumes "big_mutex b0 = Unlocked" and "connect_stat b0 \<noteq> 0" and "ie_lib_init env = 0" and "ie_new env"
    and "ie_thread env = 0" and "ie_conn env = Some 0" and "rc (ie_sub env) = 0" and "timedwait (ie_sub env) = 0"
    and "0 \<le> ie_pid env" and "length src + length (dec_int (ie_pid env)) + length (ie_hostname env) \<le> 21"
  shows "\<exists>b1 b2. init_broker aw env src None (- 1) cb b0 = Inr (0, b1) \<and>
    connect_stat b1 = 0 \<and> big_mutex b1 = Unlocked \<and> brk_src b1 = src \<and> respond_topic b1 = RESPOND_TOPIC src \<and>
    req_resp_seq b1 = 0 \<and> host_port b1 = 1883 \<and> cb_list b1 = [] \<and> srv_list b1 = [] \<and>
    mosq_calls b1 = mosq_calls b0 @ [Mq_Subscribe (RESPOND_TOPIC src)] \<and>
    init_broker aw2 env2 src2 h2 p2 cb2 b1 = Inr (- EEXIST, b2) \<and>
    init_broker aw3 env3 src3 h3 p3 cb3 b2 = Inl UseAfterFree"
proof -
  from init_broker_connects [OF assms, of aw cb] obtain b1 where b1: "init_broker aw env src None (- 1) cb b0 = Inr (0, b1)"
    "connect_stat b1 = 0" "big_mutex b1 = Unlocked" "brk_src b1 = src" "respond_topic b1 = RESPOND_TOPIC src"
    "req_resp_seq b1 = 0" "host_port b1 = 1883" "cb_list b1 = []" "srv_list b1 = []"
    "mosq_calls b1 = mosq_calls b0 @ [Mq_Subscribe (RESPOND_TOPIC src)]" by blast
  from b1(2,3) have "init_broker aw2 env2 src2 h2 p2 cb2 b1 = Inr (- EEXIST, b1\<lparr>big_mutex := Destroyed\<rparr>)"
    by (simp add: init_broker_def init_exit0_def Let_def)
  moreover have "init_broker aw3 env3 src3 h3 p3 cb3 (b1\<lparr>big_mutex := Destroyed\<rparr>) = Inl UseAfterFree"
    by (simp add: init_broker_def)
  ultimately show ?thesis using b1 by blast
qed

definition ex_init_env :: init_env where
  "ex_init_env = \<lparr>ie_lib_init = 0, ie_errno = 0, ie_new = True, ie_pid = 7, ie_hostname = ''zynq'', ie_thread = 0,
     ie_conn = Some 0, ie_timedwait = 0, ie_sub = ex_signalled\<rparr>"

lemma init_broker_starts: "\<exists>b1. init_broker 1 ex_init_env ''devAdapter'' None (- 1) None g_broker0 = Inr (0, b1) \<and>
    mosq b1 \<and> cb_list b1 = [] \<and> srv_list b1 = []"
  using init_broker_connects [of g_broker0 ex_init_env "''devAdapter''" 1 None]
  by (simp add: ex_init_env_def ex_signalled_def g_broker0_def dec_int_def dec_nat.simps) blast

lemma init_broker_then_again_witness:
  "\<exists>b1 b2. init_broker 1 ex_init_env ''devAdapter'' None (- 1) None g_broker0 = Inr (0, b1) \<and>
    connect_stat b1 = 0 \<and> big_mutex b1 = Unlocked \<and> brk_src b1 = ''devAdapter'' \<and>
    respond_topic b1 = RESPOND_TOPIC ''devAdapter'' \<and> req_resp_seq b1 = 0 \<and> host_port b1 = 1883 \<and>
    cb_list b1 = [] \<and> srv_list b1 = [] \<and>
    mosq_calls b1 = mosq_calls g_broker0 @ [Mq_Subscribe (RESPOND_TOPIC ''devAdapter'')] \<and>
    init_broker 1 ex_init_env ''devAdapter'' None (- 1) None b1 = Inr (- EEXIST, b2) \<and>
    init_broker 1 ex_init_env ''devAdapter'' None (- 1) None b2 = Inl UseAfterFree"
  by (rule init_broker_then_again)
    (simp_all add: ex_init_env_def ex_signalled_def g_broker0_def dec_int_def dec_nat.simps)

text \<open>
  The client id \<open>name|pid-host\<close> is written whole, and the limit of 23 characters
  is checked afterwards: a longer id overruns the array, and the truncation that follows
  is never reached.
\<close>
lemma client_id_overflow:
  assumes "length host \<le> 255" and "length (dec_int pid) \<le> 5"
  shows "client_id_generate base pid host b =
    (if 23 < length (base @ ''|'' @ dec_int pid @ ''-'' @ host) then Inl OutOfBounds
     else Inr (b\<lparr>brk_id := base @ ''|'' @ dec_int pid @ ''-'' @ host\<rparr>))"
  using assms by (simp add: client_id_generate_def Let_def)

lemma client_id_overflow_witness:
  "client_id_generate ''devAdapter'' 1234 ''zynq-7000'' g_broker0 =
    (if 23 < length (''devAdapter'' @ ''|'' @ dec_int 1234 @ ''-'' @ ''zynq-7000'') then Inl OutOfBounds
     else Inr (g_broker0\<lparr>brk_id := ''devAdapter'' @ ''|'' @ dec_int 1234 @ ''-'' @ ''zynq-7000''\<rparr>)) \<and>
   23 < length (''devAdapter'' @ ''|'' @ dec_int 1234 @ ''-'' @ ''zynq-7000'')"
  using client_id_overflow [of "''zynq-7000''" 1234 "''devAdapter''" g_broker0]
  by (simp add: dec_int_def dec_nat.simps)

end
