(* ===== verification/GW_Stream.thy ===== *)
theory GW_Stream
  imports GW_Prelude
begin

text \<open>
  The wire format shared by both directions of the TCP connection, as an abstract
  specification: a frame is a 32-bit length, a 32-bit type and a payload, where the length
  counts the type and the payload.  The receiver of \<open>GW_Receive\<close> and the senders of
  \<open>GW_Server\<close>, \<open>GW_ProcBroker\<close> and \<open>GW_Dma\<close> are related to it.
\<close>

type_synonym frame = "int \<times> bytes"

definition mk_frame :: "frame \<Rightarrow> bytes" where
  "mk_frame f = le32 (int (length (snd f)) + 4) @ le32 (fst f) @ snd f"

definition stream :: "frame list \<Rightarrow> bytes" where
  "stream fs = concat (map mk_frame fs)"

definition frame_ok :: "nat \<Rightarrow> frame \<Rightarrow> bool" where
  "frame_ok n f \<longleftrightarrow> int32 (fst f) \<and> length (mk_frame f) \<le> n"

lemma length_mk_frame [simp]: "length (mk_frame f) = length (snd f) + 8"
  by (simp add: mk_frame_def)

lemma stream_simps [simp]:
  "stream [] = []" "stream (f # fs) = mk_frame f @ stream fs" "stream (fs @ gs) = stream fs @ stream gs"
  by (simp_all add: stream_def)

lemma mk_frame_length_field:
  "length (snd f) < 2147483640 \<Longrightarrow> un_le32 (take 4 (mk_frame f)) = int (length (snd f)) + 4"
  by (simp add: mk_frame_def un_le32_le32)

lemma mk_frame_type_field: "int32 (fst f) \<Longrightarrow> un_le32 (take 4 (drop 4 (mk_frame f))) = fst f"
  by (simp add: mk_frame_def un_le32_le32)

text \<open>
  A receiver holding \<open>rest\<close> has no complete frame: a header is not there, or the bytes it
  announces are not.
\<close>

definition incomplete :: "bytes \<Rightarrow> bool" where
  "incomplete rest \<longleftrightarrow> length rest \<le> 4 \<or>
     (int (length rest) < un_le32 (take 4 rest) + 4 \<and> int32 (un_le32 (take 4 rest) + 4))"

lemma incomplete_Nil [simp]: "incomplete []"
  by (simp add: incomplete_def)

lemma incomplete_proper_prefix:
  assumes "length (snd f) < 2147483640" and "n < length (mk_frame f)"
  shows "incomplete (take n (mk_frame f))"
proof (cases "n \<le> 4")
  case True
  then show ?thesis by (simp add: incomplete_def)
next
  case False
  then have "take 4 (take n (mk_frame f)) = take 4 (mk_frame f)" by (simp add: min_def)
  with assms mk_frame_length_field [OF assms(1)] show ?thesis
    by (simp add: incomplete_def del: take_take)
qed

text \<open>
  Wherever a stream of frames is cut, the part before the cut is whole frames and an
  incomplete rest, and the rest with what follows the cut is again a stream.
\<close>

definition cut_rest :: "bytes \<Rightarrow> frame list \<Rightarrow> bool" where
  "cut_rest rest hs \<longleftrightarrow>
     rest = [] \<or> (hs \<noteq> [] \<and> length rest < length (mk_frame (hd hs)) \<and>
       rest = take (length rest) (mk_frame (hd hs)))"

lemma append_eq_split:
  assumes "xs @ ys = f @ zs"
  shows "if length xs < length f then xs = take (length xs) f
         else \<exists>us. xs = f @ us \<and> us @ ys = zs"
  using assms by (auto simp: append_eq_append_conv2)

lemma stream_cut:
  assumes "xs @ ys = stream fs"
  shows "\<exists>gs hs rest. fs = gs @ hs \<and> xs = stream gs @ rest \<and> rest @ ys = stream hs \<and> cut_rest rest hs"
  using assms
proof (induction fs arbitrary: xs)
  case Nil
  then show ?case by (intro exI [of _ "[]"]) (simp add: cut_rest_def)
next
  case (Cons f fs)
  note split = append_eq_split [OF Cons.prems [unfolded stream_simps(2)]]
  show ?case
  proof (cases "length xs < length (mk_frame f)")
    case True
    with split have "cut_rest xs (f # fs)" by (simp add: cut_rest_def)
    with Cons.prems show ?thesis
      by (intro exI [of _ "[]"] exI [of _ "f # fs"] exI [of _ xs]) simp
  next
    case False
    with split obtain us where us: "xs = mk_frame f @ us" "us @ ys = stream fs" by auto
    from Cons.IH [OF us(2)] obtain gs hs rest where
      "fs = gs @ hs" "us = stream gs @ rest" "rest @ ys = stream hs" "cut_rest rest hs" by blast
    with us(1) show ?thesis
      by (intro exI [of _ "f # gs"] exI [of _ hs] exI [of _ rest]) simp
  qed
qed

end
