(* ===== verification/GW_MsgQueue.thy ===== *)
theory GW_MsgQueue
  imports GW_Utility
begin

text \<open>
  \<open>src/code/src/msg_queue.c\<close> and \<open>src/code/include/msg_queue.h\<close>: the System V message
  queue through which every thread posts events to the main loop.

  The kernel's queue object is a list of entries \<open>(mtype, mtext)\<close>; \<open>msgsnd\<close> appends,
  \<open>msgrcv\<close> with type 0 removes the first entry and blocks on an empty queue, and both fail
  on a removed queue.  A full queue blocks the sender until there is room; the model has no
  bound on the queue, so a blocked sender is one whose step comes later.
\<close>

section \<open>Messages\<close>

definition MAX_TEXT :: int where [simp]: "MAX_TEXT = 2048"

definition MSG_ACCEPT_NEW_CLIENT :: int where [simp]: "MSG_ACCEPT_NEW_CLIENT = 10"
definition MSG_INQUIRY_STATE :: int where [simp]: "MSG_INQUIRY_STATE = 11"
definition MSG_RECEIVED_HEART_BEAT :: int where [simp]: "MSG_RECEIVED_HEART_BEAT = 12"
definition MSG_RSSI_STATE_CHANGE :: int where [simp]: "MSG_RSSI_STATE_CHANGE = 13"
definition MSG_START_CSI :: int where [simp]: "MSG_START_CSI = 14"
definition MSG_STOP_CSI :: int where [simp]: "MSG_STOP_CSI = 15"
definition MSG_START_CONSTELLATION :: int where [simp]: "MSG_START_CONSTELLATION = 16"
definition MSG_STOP_CONSTELLATION :: int where [simp]: "MSG_STOP_CONSTELLATION = 17"
definition MSG_RF_MF_STATE :: int where [simp]: "MSG_RF_MF_STATE = 18"
definition MSG_RECEIVE_THREAD_CLOSED :: int where [simp]: "MSG_RECEIVE_THREAD_CLOSED = 19"
definition MSG_TIMEOUT :: int where [simp]: "MSG_TIMEOUT = 20"
definition MSG_STOP_TIMER :: int where [simp]: "MSG_STOP_TIMER = 21"

definition STATE_DISCONNECTED :: int where [simp]: "STATE_DISCONNECTED = 0"
definition STATE_STARTUP :: int where [simp]: "STATE_STARTUP = 1"
definition STATE_CONNECTED :: int where [simp]: "STATE_CONNECTED = 2"

record msg_st =
  msg_type :: int
  msg_number :: int
  msg_len :: int
  msg_json :: bytes

section \<open>The kernel's queue\<close>

record kqueue =
  kq_live :: bool
  kq_msgs :: "(int \<times> bytes) list"

definition msgsnd :: "kqueue \<Rightarrow> int \<Rightarrow> bytes \<Rightarrow> int \<times> kqueue" where
  "msgsnd k t text =
     (if \<not> kq_live k \<or> t < 1 then (- 1, k)
      else (0, k\<lparr>kq_msgs := kq_msgs k @ [(t, text)]\<rparr>))"

datatype rcv = Rcv_Blocks | Rcv_Fails | Rcv_Got int bytes kqueue

definition msgrcv :: "kqueue \<Rightarrow> rcv" where
  "msgrcv k =
     (if \<not> kq_live k then Rcv_Fails
      else case kq_msgs k of [] \<Rightarrow> Rcv_Blocks
           | (t, text) # ms \<Rightarrow> Rcv_Got t text (k\<lparr>kq_msgs := ms\<rparr>))"

section \<open>The queue's operations\<close>

record g_msg_queue_para =
  msgid :: int
  mq_para_t :: para_thread
  seq_id :: int
  mq_kernel :: kqueue

text \<open>
  \<open>msgget\<close> is the identifier \<open>msgget\<close> returned, with the kernel object behind it: the key
  is fixed and \<open>IPC_EXCL\<close> is not given, so the object may exist already and hold messages.
\<close>

definition createMsgQueue :: "int \<times> kqueue \<Rightarrow> g_msg_queue_para option" where
  "createMsgQueue msgget =
     (if fst msgget = - 1 then None
      else Some \<lparr>msgid = fst msgget, mq_para_t = newThreadPara, seq_id = 1,
                 mq_kernel = snd msgget\<rparr>)"

text \<open>
  \<open>msgsnd\<close> is given \<open>MAX_TEXT\<close> as the size of what follows \<open>msg_type\<close>, and the struct
  has the two integers there before \<open>msg_json\<close>: the last eight bytes of \<open>msg_json\<close> are
  not sent.
\<close>

definition mtext :: "msg_st \<Rightarrow> bytes" where
  "mtext m = take (nat MAX_TEXT) (le32 (msg_number m) @ le32 (msg_len m) @ msg_json m)"

definition postMsgQueue :: "msg_st \<Rightarrow> g_msg_queue_para \<Rightarrow> g_msg_queue_para res" where
  "postMsgQueue data q =
     (let data' = data\<lparr>msg_number := seq_id q\<rparr>
      in res_bind (chk32 (seq_id q + 1)) (\<lambda>s.
           Inr (q\<lparr>seq_id := s,
                  mq_kernel := snd (msgsnd (mq_kernel q) (msg_type data') (mtext data'))\<rparr>)))"

text \<open>
  \<open>junk\<close> is what the fresh \<open>malloc\<close>ed struct holds behind the bytes \<open>msgrcv\<close> fills in.
  The result is \<open>None\<close> while the call blocks, \<open>Some None\<close> for the returned \<open>NULL\<close>.
\<close>

definition getMsgQueue ::
    "bytes \<Rightarrow> g_msg_queue_para \<Rightarrow> (msg_st option \<times> g_msg_queue_para) option" where
  "getMsgQueue junk q =
     (case msgrcv (mq_kernel q) of
        Rcv_Blocks \<Rightarrow> None
      | Rcv_Fails \<Rightarrow> Some (None, q)
      | Rcv_Got t text k \<Rightarrow>
          Some (Some \<lparr>msg_type = t, msg_number = un_le32 (take 4 text),
                      msg_len = un_le32 (take 4 (drop 4 text)),
                      msg_json = drop 8 text @ take 8 junk\<rparr>,
                q\<lparr>mq_kernel := k\<rparr>))"

text \<open>The memory is released; the kernel's object stays as it is, and is the result.\<close>

definition delMsgQueue :: "g_msg_queue_para \<Rightarrow> int \<times> kqueue" where
  "delMsgQueue q = (let q' = q\<lparr>mq_para_t := destoryThreadPara (mq_para_t q)\<rparr> in (0, mq_kernel q'))"

section \<open>The interface: a first-in first-out mailbox\<close>

text \<open>
  What the posting threads and the event loop rely on.  \<open>ev\<close> is the part of a message that
  the queue transports, \<open>evs\<close> the events under way, \<open>ready n\<close> that \<open>n\<close> more posts
  succeed, and \<open>fits\<close> that a message is one the queue takes.
\<close>

fun post_list :: "('m \<Rightarrow> 'q \<Rightarrow> 'q res) \<Rightarrow> 'm list \<Rightarrow> 'q \<Rightarrow> 'q res" where
  "post_list post [] q = Inr q"
| "post_list post (m # ms) q = res_bind (post m q) (post_list post ms)"

lemma post_list_append [res_simps]:
  "post_list post (ms @ ns) q = res_bind (post_list post ms q) (post_list post ns)"
proof (induction ms arbitrary: q)
  case (Cons m ms)
  then show ?case by (cases "post m q") simp_all
qed simp

lemma post_list_Nil [simp]: "post_list post [] = Inr"
  by (rule ext) simp

lemma post_list_single [res_simps]: "post_list post [m] q = post m q"
  by (cases "post m q") auto

fun get_list :: "('q \<Rightarrow> ('m option \<times> 'q) option) \<Rightarrow> nat \<Rightarrow> 'q \<Rightarrow> 'm list \<times> 'q" where
  "get_list get 0 q = ([], q)"
| "get_list get (Suc n) q =
     (case get q of
        Some (Some m, q') \<Rightarrow> (let (ms, q'') = get_list get n q' in (m # ms, q''))
      | _ \<Rightarrow> ([], q))"

locale mailbox =
  fixes post :: "'m \<Rightarrow> 'q \<Rightarrow> 'q res"
    and get :: "'q \<Rightarrow> ('m option \<times> 'q) option"
    and ev :: "'m \<Rightarrow> 'e"
    and evs :: "'q \<Rightarrow> 'e list"
    and ready :: "nat \<Rightarrow> 'q \<Rightarrow> bool"
    and fits :: "'m \<Rightarrow> bool"
  assumes post_evs: "ready (Suc n) q \<Longrightarrow> fits m \<Longrightarrow>
      \<exists>q'. post m q = Inr q' \<and> evs q' = evs q @ [ev m] \<and> ready n q'"
    and get_evs: "ready n q \<Longrightarrow> evs q = e # es \<Longrightarrow>
      \<exists>m q'. get q = Some (Some m, q') \<and> ev m = e \<and> evs q' = es \<and> ready n q'"
    and get_blocks: "ready n q \<Longrightarrow> evs q = [] \<Longrightarrow> get q = None"
begin

lemma post_list_evs:
  "ready (length ms + n) q \<Longrightarrow> \<forall>m\<in>set ms. fits m \<Longrightarrow>
     \<exists>q'. post_list post ms q = Inr q' \<and> evs q' = evs q @ map ev ms \<and> ready n q'"
proof (induction ms arbitrary: q)
  case (Cons m ms)
  then obtain q1 where "post m q = Inr q1" "evs q1 = evs q @ [ev m]" "ready (length ms + n) q1"
    using post_evs [of "length ms + n" q m] by auto
  with Cons.IH [of q1] Cons.prems show ?case by auto
qed simp

lemma get_list_evs:
  "ready n q \<Longrightarrow> evs q = es @ es' \<Longrightarrow>
     \<exists>ms q'. get_list get (length es) q = (ms, q') \<and> map ev ms = es \<and> evs q' = es' \<and> ready n q'"
proof (induction es arbitrary: q)
  case (Cons e es)
  then obtain m q1 where "get q = Some (Some m, q1)" "ev m = e" "evs q1 = es @ es'" "ready n q1"
    using get_evs [of n q e "es @ es'"] by auto
  with Cons.IH [of q1] show ?case by auto
qed simp

lemma fifo:
  assumes "ready (length ms + n) q" and "\<forall>m\<in>set ms. fits m" and "evs q = []"
  shows "\<exists>q' ms' q''. post_list post ms q = Inr q' \<and> get_list get (length ms) q' = (ms', q'') \<and>
           map ev ms' = map ev ms \<and> get q'' = None"
proof -
  obtain q' where q': "post_list post ms q = Inr q'" "evs q' = map ev ms @ []" "ready n q'"
    using post_list_evs [OF assms(1,2)] assms(3) by auto
  from get_list_evs [OF q'(3,2)] q'(1) get_blocks show ?thesis by fastforce
qed

end

section \<open>The model is a mailbox\<close>

definition mq_entry_ok :: "int \<times> bytes \<Rightarrow> bool" where
  "mq_entry_ok e \<longleftrightarrow> 1 \<le> fst e \<and> length (snd e) = nat MAX_TEXT"

definition mq_ready :: "nat \<Rightarrow> g_msg_queue_para \<Rightarrow> bool" where
  "mq_ready n q \<longleftrightarrow> kq_live (mq_kernel q) \<and> int32 (seq_id q) \<and> int32 (seq_id q + int n) \<and>
     list_all mq_entry_ok (kq_msgs (mq_kernel q))"

text \<open>An event: type, length and the 2040 bytes of text the queue carries.\<close>

type_synonym event = "int \<times> int \<times> bytes"

definition mq_ev :: "msg_st \<Rightarrow> event" where
  "mq_ev m = (msg_type m, msg_len m, take 2040 (msg_json m))"

definition mq_evs :: "g_msg_queue_para \<Rightarrow> event list" where
  "mq_evs q = map (\<lambda>(t, text). (t, un_le32 (take 4 (drop 4 text)), drop 8 text))
     (kq_msgs (mq_kernel q))"

definition mq_fits :: "msg_st \<Rightarrow> bool" where
  "mq_fits m \<longleftrightarrow> 1 \<le> msg_type m \<and> int32 (msg_len m) \<and> length (msg_json m) = nat MAX_TEXT"

lemma mtext_layout:
  assumes "length (msg_json m) = 2048"
  shows "mtext m = le32 (msg_number m) @ le32 (msg_len m) @ take 2040 (msg_json m)"
  by (simp add: mtext_def)

lemma postMsgQueue_evs:
  assumes "mq_ready (Suc n) q" and "mq_fits m"
  shows "\<exists>q'. postMsgQueue m q = Inr q' \<and> mq_evs q' = mq_evs q @ [mq_ev m] \<and> mq_ready n q'"
  using assms
  by (auto simp: mq_ready_def mq_fits_def postMsgQueue_def Let_def msgsnd_def mq_evs_def mq_ev_def
      mtext_layout un_le32_le32 mq_entry_ok_def)

lemma getMsgQueue_evs:
  assumes "mq_ready n q" and "mq_evs q = e # es"
  shows "\<exists>m q'. getMsgQueue junk q = Some (Some m, q') \<and> mq_ev m = e \<and> mq_evs q' = es \<and> mq_ready n q'"
  using assms
  by (auto simp: mq_ready_def getMsgQueue_def msgrcv_def mq_evs_def mq_ev_def mq_entry_ok_def)

lemma getMsgQueue_blocks: "mq_ready n q \<Longrightarrow> mq_evs q = [] \<Longrightarrow> getMsgQueue junk q = None"
  by (auto simp: mq_ready_def getMsgQueue_def msgrcv_def mq_evs_def)

interpretation mbox: mailbox postMsgQueue "getMsgQueue junk" mq_ev mq_evs mq_ready mq_fits
  for junk :: bytes
  by unfold_locales (use postMsgQueue_evs getMsgQueue_evs getMsgQueue_blocks in blast)+

section \<open>Properties\<close>

definition ex_queue :: g_msg_queue_para where
  "ex_queue = \<lparr>msgid = 0, mq_para_t = newThreadPara, seq_id = 1,
     mq_kernel = \<lparr>kq_live = True, kq_msgs = []\<rparr>\<rparr>"

lemma ex_queue_ready: "n \<le> 1000 \<Longrightarrow> mq_ready n ex_queue"
  by (simp add: ex_queue_def mq_ready_def)

lemma ex_queue_evs [simp]: "mq_evs ex_queue = []"
  by (simp add: ex_queue_def mq_evs_def)

definition ex_msg :: "int \<Rightarrow> byte \<Rightarrow> msg_st" where
  "ex_msg t c = \<lparr>msg_type = t, msg_number = t, msg_len = 2048, msg_json = replicate 2048 c\<rparr>"

lemma mq_fits_ex_msg: "1 \<le> t \<Longrightarrow> mq_fits (ex_msg t c)"
  by (simp add: mq_fits_def ex_msg_def)

text \<open>
  Property C26: The queue is first in, first out: messages posted to an empty queue come out of
  \<open>getMsgQueue\<close> in the order of posting, with their type, their length and the first 2040
  bytes of their text, and then the queue blocks.
\<close>
theorem queue_fifo:
  assumes "mq_ready (length ms + n) q" and "\<forall>m\<in>set ms. mq_fits m" and "mq_evs q = []"
  shows "\<exists>q' ms' q''. post_list postMsgQueue ms q = Inr q' \<and>
    get_list (getMsgQueue junk) (length ms) q' = (ms', q'') \<and>
    map (\<lambda>m. (msg_type m, msg_len m, take 2040 (msg_json m))) ms' =
      map (\<lambda>m. (msg_type m, msg_len m, take 2040 (msg_json m))) ms \<and>
    getMsgQueue junk q'' = None"
  using mbox.fifo [OF assms] unfolding mq_ev_def by blast

theorem queue_fifo_witness:
  "\<exists>q' ms' q''. post_list postMsgQueue [ex_msg 11 CHR ''a'', ex_msg 20 CHR ''b''] ex_queue = Inr q' \<and>
    get_list (getMsgQueue []) (length [ex_msg 11 CHR ''a'', ex_msg 20 CHR ''b'']) q' = (ms', q'') \<and>
    map (\<lambda>m. (msg_type m, msg_len m, take 2040 (msg_json m))) ms' =
      map (\<lambda>m. (msg_type m, msg_len m, take 2040 (msg_json m))) [ex_msg 11 CHR ''a'', ex_msg 20 CHR ''b''] \<and>
    getMsgQueue [] q'' = None"
  by (rule queue_fifo [where n = 3]) (simp_all add: ex_queue_ready mq_fits_ex_msg)

text \<open>
  The text is not transported whole: \<open>msgsnd\<close> is told \<open>MAX_TEXT\<close> bytes and these
  include the two integers before the text, so of 2048 bytes posted the reader sees 2040 and,
  behind them, eight bytes of its own fresh memory, whatever \<open>msg_len\<close> says.
\<close>
lemma queue_truncates_text:
  assumes "mq_ready (Suc n) q" and "mq_fits m" and "mq_evs q = []" and "length junk = 8"
  shows "\<exists>q' q''. postMsgQueue m q = Inr q' \<and>
    getMsgQueue junk q' = Some (Some \<lparr>msg_type = msg_type m, msg_number = seq_id q, msg_len = msg_len m,
      msg_json = take 2040 (msg_json m) @ junk\<rparr>, q'')"
  using assms
  by (auto simp: mq_ready_def mq_fits_def postMsgQueue_def Let_def msgsnd_def getMsgQueue_def msgrcv_def
      mtext_layout un_le32_le32 mq_evs_def)

lemma queue_truncates_text_witness:
  "\<exists>q' q''. postMsgQueue (ex_msg 11 CHR ''a'') ex_queue = Inr q' \<and>
    getMsgQueue (replicate 8 CHR ''?'') q' =
      Some (Some \<lparr>msg_type = msg_type (ex_msg 11 CHR ''a''), msg_number = seq_id ex_queue,
        msg_len = msg_len (ex_msg 11 CHR ''a''),
        msg_json = take 2040 (msg_json (ex_msg 11 CHR ''a'')) @ replicate 8 CHR ''?''\<rparr>, q'')"
  by (rule queue_truncates_text [where n = 3]) (simp_all add: ex_queue_ready mq_fits_ex_msg)

text \<open>
  \<open>delMsgQueue\<close> releases the process's memory only: a queue created afterwards
  under the same key, by this process or by its next run, starts with the events that were
  under way.
\<close>
lemma deleted_queue_events_survive:
  "\<exists>q2. createMsgQueue (0, snd (delMsgQueue q)) = Some q2 \<and> mq_evs q2 = mq_evs q \<and> seq_id q2 = 1"
  by (simp add: createMsgQueue_def delMsgQueue_def mq_evs_def)

end
