(* ===== verification/GW_Receive.thy ===== *)
theory GW_Receive
  imports GW_Stream GW_MsgQueue
begin

text \<open>
  The receiving side of \<open>src/code/src/server.c\<close>: \<open>receive_thread\<close> reads the TCP stream
  into \<open>recvbuf\<close>, cuts it into frames and posts an event for each.

  \<open>recvbuf\<close> is a buffer of \<open>BUFFER_SIZE\<close> bytes.  New data goes to offset 2000; an
  incomplete frame of \<open>gMoreData\<close> bytes is kept right before that offset.
\<close>

section \<open>State\<close>

definition BUFFER_SIZE :: int where [simp]: "BUFFER_SIZE = 2560 * 4"

record g_receive_para =
  receive_running :: int
  rx_para_t :: para_thread
  rx_para_t_cancel :: para_thread
  connfd :: int
  connected :: int
  disconnect_cnt :: int
  gMoreData :: int
  sendMessage :: "bytes option"
  recvbuf :: "bytes option"
  rcv_cnt :: "32 word"
  send_cnt :: "32 word"
  comp_send_cnt :: "32 word"
  point_1_send_cnt :: "32 word"
  point_2_send_cnt :: "32 word"

text \<open>
  \<open>InitReceThread\<close>: \<open>sbuf\<close> and \<open>rbuf\<close> are the indeterminate contents of the two
  \<open>malloc\<close>ed buffers, \<open>pcreate\<close> is what \<open>pthread_create\<close> returns.  The socket options it
  sets are in \<open>GW_Socket\<close>.
\<close>

definition InitReceThread :: "bytes \<Rightarrow> bytes \<Rightarrow> int \<Rightarrow> int \<Rightarrow> int \<times> g_receive_para" where
  "InitReceThread sbuf rbuf pcreate fd =
     ((if pcreate \<noteq> 0 then - 1 else 0),
      \<lparr>receive_running = 1, rx_para_t = newThreadPara, rx_para_t_cancel = newThreadPara,
       connfd = fd, connected = 0, disconnect_cnt = 0, gMoreData = 0,
       sendMessage = Some sbuf, recvbuf = Some rbuf, rcv_cnt = 0, send_cnt = 0,
       comp_send_cnt = 0, point_1_send_cnt = 0, point_2_send_cnt = 0\<rparr>)"

section \<open>Posting\<close>

text \<open>
  \<open>junk\<close> is what the uninitialised local \<open>data.msg_json\<close> holds; \<open>buf\<close> is \<open>NULL\<close> or a
  buffer with an offset.  A negative \<open>buf_len\<close> becomes a huge \<open>size_t\<close>, which \<open>rd\<close> refuses.
\<close>

definition postMsg ::
    "bytes \<Rightarrow> int \<Rightarrow> (bytes \<times> int) option \<Rightarrow> int \<Rightarrow> g_msg_queue_para \<Rightarrow> g_msg_queue_para res" where
  "postMsg junk mtype buf buf_len q =
     res_bind
       (case buf of
          None \<Rightarrow> Inr junk
        | Some (b, off) \<Rightarrow>
            if buf_len \<noteq> 0 then res_bind (rd b off buf_len) (wr junk 0) else Inr junk)
       (\<lambda>json. postMsgQueue \<lparr>msg_type = mtype, msg_number = mtype, msg_len = buf_len, msg_json = json\<rparr> q)"

definition processMessage ::
    "bytes \<Rightarrow> bytes \<Rightarrow> int \<Rightarrow> int \<Rightarrow> g_msg_queue_para \<Rightarrow> g_msg_queue_para res" where
  "processMessage junk b buf len q =
     res_bind (rd b (buf + 4) 4) (\<lambda>tb.
       let type = myNtohl tb; jsonfile = Some (b, buf + 4 + 4)
       in if type = 99 then postMsg junk MSG_RECEIVED_HEART_BEAT None 0 q
          else if type = 4 then postMsg junk MSG_START_CONSTELLATION None 0 q
          else if type = 5 then postMsg junk MSG_STOP_CONSTELLATION None 0 q
          else if type = 7 then postMsg junk MSG_START_CSI None 0 q
          else if type = 8 then postMsg junk MSG_STOP_CSI None 0 q
          else if type = 1 then
            res_bind (chk32 (len - 4)) (\<lambda>n. postMsg junk MSG_INQUIRY_STATE jsonfile n q)
          else if type = 2 then
            res_bind (chk32 (len - 4)) (\<lambda>n. postMsg junk MSG_RSSI_STATE_CHANGE jsonfile n q)
          else if type = 22 then postMsg junk MSG_RF_MF_STATE None 0 q
          else Inr q)"

section \<open>The reassembly loop\<close>

definition keep_rest :: "bool \<Rightarrow> bytes \<Rightarrow> int \<Rightarrow> int \<Rightarrow> (bytes \<times> int) res" where
  "keep_rest ovl b pStart totalByte =
     (if totalByte > 0
      then res_bind (memcpy_in ovl b (2000 - totalByte) pStart totalByte) (\<lambda>b'. Inr (b', totalByte))
      else Inr (b, totalByte))"

text \<open>
  One pass of the \<open>while(1)\<close> over the buffer from \<open>pStart\<close>; \<open>None\<close> is a loop that does
  not end.  The result is the buffer, \<open>gMoreData\<close> and the queue at the \<open>break\<close>.
\<close>

partial_function (option) receive_loop ::
    "bool \<Rightarrow> bytes \<Rightarrow> bytes \<Rightarrow> int \<Rightarrow> int \<Rightarrow> g_msg_queue_para
       \<Rightarrow> (bytes \<times> int \<times> g_msg_queue_para) res option" where
  "receive_loop ovl junk b pStart totalByte q =
     (if totalByte \<le> 4 then
        Some (res_bind (keep_rest ovl b pStart totalByte) (\<lambda>(b', more). Inr (b', more, q)))
      else case res_bind (rd b pStart 4) (\<lambda>h. let messageLength = myNtohl h in
                  res_bind (chk32 (messageLength + 4)) (\<lambda>need. Inr (messageLength, need))) of
        Inl e \<Rightarrow> Some (Inl e)
      | Inr (messageLength, need) \<Rightarrow>
          if totalByte < need then
            Some (res_bind (keep_rest ovl b pStart totalByte) (\<lambda>(b', more). Inr (b', more, q)))
          else case res_bind (processMessage junk b pStart messageLength q) (\<lambda>q'.
                      res_bind (chk32 (totalByte - messageLength)) (\<lambda>t.
                        res_bind (chk32 (t - 4)) (\<lambda>total'. Inr (q', total')))) of
            Inl e \<Rightarrow> Some (Inl e)
          | Inr (q', total') \<Rightarrow>
              if total' = 0 then Some (Inr (b, 0, q'))
              else receive_loop ovl junk b (pStart + messageLength + 4) total' q')"

text \<open>
  \<open>avail\<close> is what the socket has: \<open>None\<close> for an error or the receive timeout.  \<open>recv\<close> takes at
  most \<open>BUFFER_SIZE\<close> bytes; no bytes is the closed connection.
\<close>

definition rx_done ::
    "g_receive_para \<Rightarrow> (bytes \<times> int \<times> g_msg_queue_para) res
       \<Rightarrow> (g_receive_para \<times> g_msg_queue_para) res" where
  "rx_done r x = res_bind x (\<lambda>(b, more, q).
     Inr (r\<lparr>rcv_cnt := rcv_cnt r + 1, recvbuf := Some b, gMoreData := more\<rparr>, q))"

definition receive ::
    "bool \<Rightarrow> bytes \<Rightarrow> bytes option \<Rightarrow> g_receive_para \<times> g_msg_queue_para
       \<Rightarrow> (g_receive_para \<times> g_msg_queue_para) res option" where
  "receive ovl junk avail s =
     (let r = fst s; q = snd s;
          data = (case avail of None \<Rightarrow> [] | Some d \<Rightarrow> take (nat BUFFER_SIZE) d);
          n = int (length data)
      in case recvbuf r of
           None \<Rightarrow> Some (Inl NullDeref)
         | Some b \<Rightarrow>
             if n \<le> 0 then Some (Inr (r, q))
             else case res_bind (wr b 2000 data) (\<lambda>b1.
                         res_bind (chk32 (n + gMoreData r)) (\<lambda>totalByte. Inr (b1, totalByte))) of
               Inl e \<Rightarrow> Some (Inl e)
             | Inr (b1, totalByte) \<Rightarrow>
                 map_option (rx_done r)
                   (receive_loop ovl junk b1 (2000 - gMoreData r) totalByte q))"

section \<open>The thread\<close>

text \<open>The shared flag; with \<open>value = 1\<close> the main thread asks the receiver to stop.\<close>

definition getRunningState :: "g_receive_para \<Rightarrow> int \<Rightarrow> int \<times> g_receive_para" where
  "getRunningState r value =
     (if value = 1 then (0, r\<lparr>receive_running := 0\<rparr>) else (receive_running r, r))"

text \<open>
  What happens to the thread, in order: the outcome of its next \<open>recv\<close>, or the main thread
  setting the flag.
\<close>

datatype rx_event = Rx "bytes option" | Rx_Stop

fun receive_thread ::
    "bool \<Rightarrow> bytes \<Rightarrow> rx_event list \<Rightarrow> g_receive_para \<times> g_msg_queue_para
       \<Rightarrow> (bool \<times> g_receive_para \<times> g_msg_queue_para) res option" where
  "receive_thread ovl junk es s =
     (if fst (getRunningState (fst s) 0) = 1 then
        (case es of
           [] \<Rightarrow> Some (Inr (False, s))
         | Rx_Stop # es' \<Rightarrow> receive_thread ovl junk es' (snd (getRunningState (fst s) 1), snd s)
         | Rx avail # es' \<Rightarrow>
             (case receive ovl junk avail s of
                None \<Rightarrow> None
              | Some (Inl e) \<Rightarrow> Some (Inl e)
              | Some (Inr s') \<Rightarrow> receive_thread ovl junk es' s'))
      else Some (res_bind (postMsg junk MSG_RECEIVE_THREAD_CLOSED None 0 (snd s))
                   (\<lambda>q'. Inr (True, fst s, q'))))"

declare receive_thread.simps [simp del]

section \<open>What a frame posts\<close>

text \<open>The event a frame type stands for (the table of \<open>processMessage\<close>), and the message posted.\<close>

definition frame_event :: "int \<Rightarrow> int option" where
  "frame_event t =
     (if t = 99 then Some 12 else if t = 4 then Some 16 else if t = 5 then Some 17
      else if t = 7 then Some 14 else if t = 8 then Some 15 else if t = 1 then Some 11
      else if t = 2 then Some 13 else if t = 22 then Some 18 else None)"

definition frame_msgs :: "bytes \<Rightarrow> frame \<Rightarrow> msg_st list" where
  "frame_msgs junk f =
     (case frame_event (fst f) of
        None \<Rightarrow> []
      | Some e \<Rightarrow>
          [\<lparr>msg_type = e, msg_number = e,
            msg_len = (if fst f \<in> {1, 2} then int (length (snd f)) else 0),
            msg_json = (if fst f \<in> {1, 2} then snd f @ drop (length (snd f)) junk else junk)\<rparr>])"

lemma postMsg_NULL [simp]:
  "postMsg junk t None n q = postMsgQueue \<lparr>msg_type = t, msg_number = t, msg_len = n, msg_json = junk\<rparr> q"
  by (simp add: postMsg_def)

lemma postMsg_buf:
  assumes "off = int (length pre)" and "n = int (length d)" and "length d \<le> length junk"
  shows "postMsg junk t (Some (pre @ d @ post, off)) n q =
    postMsgQueue \<lparr>msg_type = t, msg_number = t, msg_len = n, msg_json = d @ drop (length d) junk\<rparr> q"
  using assms by (simp add: postMsg_def buf_simps)

lemma processMessage_frame:
  assumes "int32 (fst f)" and "length (snd f) \<le> length junk" and "length (snd f) \<le> 2048"
    and "p = int (length pre)" and "n = int (length (snd f)) + 4"
  shows "processMessage junk (pre @ mk_frame f @ post) p n q = post_list postMsgQueue (frame_msgs junk f) q"
proof -
  let ?b = "pre @ mk_frame f @ post"
  have b1: "?b = (pre @ le32 n) @ le32 (fst f) @ (snd f @ post)"
    and b2: "?b = (pre @ le32 n @ le32 (fst f)) @ snd f @ post"
    using assms(5) by (simp_all add: mk_frame_def)
  have ty: "rd ?b (p + 4) 4 = Inr (le32 (fst f))"
    unfolding b1 by (rule rd_mid) (use assms(4) in simp_all)
  have js: "postMsg junk e (Some (?b, p + 4 + 4)) (n - 4) q = postMsgQueue
      \<lparr>msg_type = e, msg_number = e, msg_len = int (length (snd f)),
       msg_json = snd f @ drop (length (snd f)) junk\<rparr> q" for e
    unfolding b2 by (subst postMsg_buf) (use assms in simp_all)
  from assms(3,5) have n: "int32 (n - 4)" by simp
  show ?thesis
    unfolding processMessage_def ty res_bind_Inr myNtohl_def Let_def
    by (simp only: js chk32_Inr [OF n] take_all [OF eq_imp_le [OF length_le32]] un_le32_le32 [OF assms(1)]
          res_bind_Inr)
      (simp add: frame_msgs_def frame_event_def res_simps)
qed

section \<open>The loop cuts a stream into frames\<close>

lemma receive_loop_rest:
  assumes "incomplete rest" and "p = int (length pre)" and "t = int (length rest)"
  shows "receive_loop ovl junk (pre @ rest @ post) p t q =
    Some (res_bind (keep_rest ovl (pre @ rest @ post) p t) (\<lambda>(b', more). Inr (b', more, q)))"
proof (cases "t \<le> 4")
  case True
  then show ?thesis by (subst receive_loop.simps) simp
next
  case False
  let ?u = "un_le32 (take 4 rest)"
  have b: "pre @ rest @ post = pre @ take 4 rest @ (drop 4 rest @ post)" by simp
  have "rd (pre @ rest @ post) p 4 = Inr (take 4 rest)"
    unfolding b by (rule rd_mid) (use False assms in simp_all)
  moreover have "int32 (?u + 4)" "t < ?u + 4"
    using assms False by (auto simp: incomplete_def)
  ultimately show ?thesis
    using False by (subst receive_loop.simps) (simp add: myNtohl_def Let_def)
qed

definition rx_frame_ok :: "frame \<Rightarrow> bool" where
  "rx_frame_ok f \<longleftrightarrow> int32 (fst f) \<and> length (snd f) \<le> 2048"

text \<open>One frame at the front: it is posted, and the loop goes on behind it with the bytes that are left.\<close>

lemma receive_loop_frame:
  assumes f: "rx_frame_ok f" and "length junk = 2048" and "p = int (length pre)"
    and "t = int (length (snd f)) + 8 + t'" and "0 \<le> t'" and "t' \<le> 1000000"
  shows "receive_loop ovl junk (pre @ mk_frame f @ post) p t q =
    (case post_list postMsgQueue (frame_msgs junk f) q of
       Inl e \<Rightarrow> Some (Inl e)
     | Inr q' \<Rightarrow> if t' = 0 then Some (Inr (pre @ mk_frame f @ post, 0, q'))
         else receive_loop ovl junk (pre @ mk_frame f @ post) (p + int (length (mk_frame f))) t' q')"
proof -
  let ?b = "pre @ mk_frame f @ post"
  let ?n = "int (length (snd f)) + 4"
  have len: "int32 (fst f)" "length (snd f) \<le> 2048" using f by (simp_all add: rx_frame_ok_def)
  have b: "?b = pre @ le32 ?n @ (le32 (fst f) @ snd f @ post)" by (simp add: mk_frame_def)
  have hd: "rd ?b p 4 = Inr (le32 ?n)"
    unfolding b by (rule rd_mid) (use assms(3) in simp_all)
  have pm: "processMessage junk ?b p ?n q = post_list postMsgQueue (frame_msgs junk f) q"
    by (rule processMessage_frame) (use len assms(2,3) in simp_all)
  have un: "un_le32 (le32 ?n) = ?n" using len by (intro un_le32_le32) simp
  have t: "t = ?n + 4 + t'" "p + int (length (mk_frame f)) = p + ?n + 4" using assms(4) by simp_all
  show ?thesis
    unfolding t using assms(5,6) len
    by (subst receive_loop.simps) (simp add: hd un pm myNtohl_def Let_def split: sum.split)
qed

lemma receive_loop_stream:
  assumes "\<forall>f\<in>set fs. rx_frame_ok f" and "incomplete rest" and "length junk = 2048"
    and "length (stream fs) + length rest \<le> 1000000"
    and "p = int (length pre)" and "t = int (length (stream fs) + length rest)"
  shows "receive_loop ovl junk (pre @ stream fs @ rest @ post) p t q =
    Some (res_bind (post_list postMsgQueue (concat (map (frame_msgs junk) fs)) q) (\<lambda>q'.
      res_bind (keep_rest ovl (pre @ stream fs @ rest @ post) (p + int (length (stream fs))) (int (length rest)))
        (\<lambda>(b', more). Inr (b', more, q'))))"
  using assms
proof (induction fs arbitrary: pre p t q)
  case Nil
  then show ?case by (simp add: receive_loop_rest)
next
  case (Cons f fs)
  let ?b = "pre @ mk_frame f @ stream fs @ rest @ post"
  define t' where "t' = int (length (stream fs) + length rest)"
  have step: "receive_loop ovl junk ?b p t q =
      (case post_list postMsgQueue (frame_msgs junk f) q of
         Inl e \<Rightarrow> Some (Inl e)
       | Inr q' \<Rightarrow> if t' = 0 then Some (Inr (?b, 0, q'))
           else receive_loop ovl junk ?b (p + int (length (mk_frame f))) t' q')"
    by (rule receive_loop_frame) (use Cons.prems in \<open>simp_all add: t'_def\<close>)
  show ?case
  proof (cases "post_list postMsgQueue (frame_msgs junk f) q")
    case (Inl e)
    with step show ?thesis by (simp add: res_simps)
  next
    case (Inr q')
    show ?thesis
    proof (cases "t' = 0")
      case True
      then have "fs = [] \<and> rest = []" by (cases fs) (simp_all add: t'_def)
      with step Inr True show ?thesis by (simp add: res_simps keep_rest_def)
    next
      case False
      have "receive_loop ovl junk ((pre @ mk_frame f) @ stream fs @ rest @ post) (p + int (length (mk_frame f))) t' q' =
        Some (res_bind (post_list postMsgQueue (concat (map (frame_msgs junk) fs)) q') (\<lambda>q'.
          res_bind (keep_rest ovl ((pre @ mk_frame f) @ stream fs @ rest @ post)
              (p + int (length (mk_frame f)) + int (length (stream fs))) (int (length rest)))
            (\<lambda>(b', more). Inr (b', more, q'))))"
        by (rule Cons.IH) (use Cons.prems t'_def in simp_all)
      with step Inr False show ?thesis by (simp add: res_simps algebra_simps)
    qed
  qed
qed

section \<open>One call of \<open>receive\<close>\<close>

text \<open>\<open>rx_inv r rest\<close>: between two calls the buffer keeps the incomplete frame \<open>rest\<close> in front of offset 2000.\<close>

definition rx_inv :: "g_receive_para \<Rightarrow> bytes \<Rightarrow> bool" where
  "rx_inv r rest \<longleftrightarrow> gMoreData r = int (length rest) \<and>
     (\<exists>pre post. recvbuf r = Some (pre @ rest @ post) \<and> length pre + length rest = 2000 \<and>
        length post = 8240)"

lemma rx_invI:
  assumes "recvbuf r = Some b" and "length b = 10240" and "gMoreData r = int (length rest)"
    and "length rest \<le> 2000" and "take (length rest) (drop (2000 - length rest) b) = rest"
  shows "rx_inv r rest"
proof -
  have "b = take (2000 - length rest) b @ take (length rest) (drop (2000 - length rest) b) @ drop 2000 b"
    using assms(4) by (metis append_take_drop_id drop_drop le_add_diff_inverse2 add.commute)
  then show ?thesis unfolding rx_inv_def
    using assms by (intro conjI exI [of _ "take (2000 - length rest) b"] exI [of _ "drop 2000 b"]) simp_all
qed

lemma keep_rest_ok:
  assumes "b = pre @ rest @ post" and "length b = 10240" and "length rest \<le> 2000"
    and "2000 \<le> length pre + length rest" and "ovl \<or> rest = [] \<or> 2000 \<le> length pre"
    and "src = int (length pre)" and "t = int (length rest)"
  shows "\<exists>pre' post'. keep_rest ovl b src t = Inr (pre' @ rest @ post', t) \<and>
    length pre' + length rest = 2000 \<and> length post' = 8240"
proof (cases "rest = []")
  case True
  then show ?thesis using assms
    by (intro exI [of _ "take 2000 b"] exI [of _ "drop 2000 b"]) (simp add: keep_rest_def)
next
  case False
  let ?d = "2000 - length rest"
  have no: "\<not> (overlap (2000 - t) src t \<and> \<not> (ovl \<and> 2000 - t \<le> src))"
    using assms by (auto simp: overlap_def)
  have "rd b src t = Inr rest"
    unfolding assms(1) by (rule rd_mid) (use assms in simp_all)
  moreover have "wr b (2000 - t) rest = Inr (take ?d b @ rest @ drop (?d + length rest) b)"
    using assms by (subst wr_Inr) (simp_all add: nat_diff_distrib)
  ultimately have "keep_rest ovl b src t = Inr (take ?d b @ rest @ drop 2000 b, t)"
    using False assms no by (simp add: keep_rest_def memcpy_in_def)
  then show ?thesis using assms(2,3)
    by (intro exI [of _ "take ?d b"] exI [of _ "drop 2000 b"]) simp
qed

lemma receive_nothing [simp]:
  "recvbuf r = Some b \<Longrightarrow> receive ovl junk None (r, q) = Some (Inr (r, q))"
  "recvbuf r = Some b \<Longrightarrow> receive ovl junk (Some []) (r, q) = Some (Inr (r, q))"
  by (simp_all add: receive_def)

lemma receive_chunk:
  assumes inv: "rx_inv r rest" and d: "d \<noteq> []" "length d \<le> 8240"
    and cut: "rest @ d = stream fs @ rest'"
    and ok: "\<forall>f\<in>set fs. rx_frame_ok f" "incomplete rest'" "length rest' \<le> 2000" "length junk = 2048"
    and ovl: "ovl \<or> rest' = [] \<or> length rest \<le> length (stream fs)"
    and posts: "post_list postMsgQueue (concat (map (frame_msgs junk) fs)) q = Inr q'"
  shows "\<exists>r'. receive ovl junk (Some d) (r, q) = Some (Inr (r', q')) \<and> rx_inv r' rest' \<and>
    rcv_cnt r' = rcv_cnt r + 1 \<and> receive_running r' = receive_running r"
proof -
  from inv obtain pre post where b: "recvbuf r = Some (pre @ rest @ post)"
    and len: "length pre + length rest = 2000" "length post = 8240"
    and more: "gMoreData r = int (length rest)" by (auto simp: rx_inv_def)
  define post2 where "post2 = drop (length d) post"
  let ?b1 = "pre @ stream fs @ rest' @ post2"
  have "wr ((pre @ rest) @ take (length d) post @ post2) 2000 d = Inr ((pre @ rest) @ d @ post2)"
    by (rule wr_mid) (use len d in simp_all)
  moreover have "(pre @ rest) @ d @ post2 = ?b1" using cut by simp
  moreover have "(pre @ rest) @ take (length d) post @ post2 = pre @ rest @ post"
    by (simp add: post2_def)
  ultimately have wr: "wr (pre @ rest @ post) 2000 d = Inr ?b1" by simp
  have lcut: "length rest + length d = length (stream fs) + length rest'"
    using arg_cong [OF cut, of length] by simp
  have apart: "ovl \<or> rest' = [] \<or> 2000 \<le> length pre + length (stream fs)"
    using ovl len by linarith
  have "receive_loop ovl junk ?b1 (2000 - int (length rest)) (int (length d) + int (length rest)) q =
    Some (res_bind (post_list postMsgQueue (concat (map (frame_msgs junk) fs)) q) (\<lambda>q'.
      res_bind (keep_rest ovl ?b1 (2000 - int (length rest) + int (length (stream fs))) (int (length rest')))
        (\<lambda>(b', more). Inr (b', more, q'))))"
    by (rule receive_loop_stream) (use ok lcut len d in simp_all)
  moreover have kept: "\<exists>pre' post'. keep_rest ovl ?b1 (2000 - int (length rest) + int (length (stream fs)))
      (int (length rest')) = Inr (pre' @ rest' @ post', int (length rest')) \<and>
      length pre' + length rest' = 2000 \<and> length post' = 8240"
    by (rule keep_rest_ok [where pre = "pre @ stream fs" and post = post2])
      (use ok lcut len d apart in \<open>simp_all add: post2_def\<close>)
  moreover from kept obtain pre' post' where new: "length pre' + length rest' = 2000"
      "length post' = 8240" and "keep_rest ovl ?b1 (2000 - int (length rest) + int (length (stream fs)))
      (int (length rest')) = Inr (pre' @ rest' @ post', int (length rest'))" by blast
  moreover have "rx_inv (r\<lparr>rcv_cnt := rcv_cnt r + 1, recvbuf := Some (pre' @ rest' @ post'),
      gMoreData := int (length rest')\<rparr>) rest'"
    unfolding rx_inv_def using new by auto
  ultimately show ?thesis using wr more b d posts len
    by (simp add: receive_def Let_def min_def rx_done_def)
qed

section \<open>The thread delivers the stream\<close>

lemma frame_ok_rx: "frame_ok 2001 f \<Longrightarrow> rx_frame_ok f"
  by (simp add: frame_ok_def rx_frame_ok_def)

lemma cut_rest_bounds:
  assumes "cut_rest rest fs" and "\<forall>f\<in>set fs. frame_ok 2001 f"
  shows "incomplete rest \<and> length rest \<le> 2000"
proof (cases "rest = []")
  case False
  with assms have f: "frame_ok 2001 (hd fs)" "length rest < length (mk_frame (hd fs))"
      "rest = take (length rest) (mk_frame (hd fs))"
    by (simp_all add: cut_rest_def)
  then have "incomplete (take (length rest) (mk_frame (hd fs)))"
    by (intro incomplete_proper_prefix) (simp_all add: frame_ok_def)
  with f show ?thesis by (simp add: frame_ok_def)
qed simp

lemma frame_msgs_fit:
  assumes "frame_ok 2001 f" and "length junk = 2048" and "m \<in> set (frame_msgs junk f)"
  shows "mq_fits m"
  using assms by (auto simp: frame_msgs_def frame_event_def mq_fits_def frame_ok_def split: if_splits)

lemma length_frame_msgs: "length (frame_msgs junk f) \<le> 1"
  by (simp add: frame_msgs_def split: option.split)

lemma length_concat_frame_msgs: "length (concat (map (frame_msgs junk) fs)) \<le> length fs"
  by (induction fs) (simp_all add: add_mono [OF length_frame_msgs, simplified])

lemma mq_ready_mono: "mq_ready n q \<Longrightarrow> m \<le> n \<Longrightarrow> mq_ready m q"
  by (auto simp: mq_ready_def)

lemma post_frames:
  assumes "\<forall>f\<in>set fs. frame_ok 2001 f" and "length junk = 2048" and "mq_ready (length fs + n) q"
  shows "\<exists>q'. post_list postMsgQueue (concat (map (frame_msgs junk) fs)) q = Inr q' \<and>
    mq_evs q' = mq_evs q @ map mq_ev (concat (map (frame_msgs junk) fs)) \<and> mq_ready n q'"
proof (rule mbox.post_list_evs)
  show "mq_ready (length (concat (map (frame_msgs junk) fs)) + n) q"
    using mq_ready_mono [OF assms(3)] length_concat_frame_msgs by simp
qed (use assms frame_msgs_fit in fastforce)

text \<open>One chunk: the frames \<open>gs\<close> it completes are posted.  An empty read changes nothing, and cuts the stream where it was cut.\<close>

lemma receive_chunk_cut:
  assumes "rx_inv r rest" and "length c \<le> 8240" and "rest @ c = stream gs @ rest'" and "cut_rest rest (gs @ hs)"
    and "cut_rest rest' hs" and ok: "\<forall>f\<in>set (gs @ hs). frame_ok 2001 f" and "length junk = 2048"
    and q1: "post_list postMsgQueue (concat (map (frame_msgs junk) gs)) q = Inr q1"
  shows "\<exists>r1. receive True junk (Some c) (r, q) = Some (Inr (r1, q1)) \<and> rx_inv r1 rest' \<and>
    receive_running r1 = receive_running r"
proof (cases "c = []")
  case True
  obtain b where b: "recvbuf r = Some b" using assms(1) by (auto simp: rx_inv_def)
  have "gs = []"
  proof (cases gs)
    case (Cons g gs')
    with assms(4) have "length rest < length (mk_frame g)" by (auto simp: cut_rest_def)
    moreover from assms(3) True Cons have "length (mk_frame g) \<le> length rest" by simp
    ultimately show ?thesis by simp
  qed
  with True assms(1,3) q1 b show ?thesis by simp
next
  case False
  have "\<forall>f\<in>set gs. rx_frame_ok f" using ok frame_ok_rx by simp
  moreover have "incomplete rest' \<and> length rest' \<le> 2000"
    by (rule cut_rest_bounds [OF assms(5)]) (use ok in simp)
  ultimately show ?thesis
    using receive_chunk [OF assms(1) False assms(2,3) _ _ _ assms(7) _ q1, of True] by auto
qed

lemma receive_thread_chunks:
  assumes "rest @ concat cs = stream fs" and "cut_rest rest fs" and "rx_inv r rest"
    and "\<forall>c\<in>set cs. length c \<le> 8240" and "\<forall>f\<in>set fs. frame_ok 2001 f"
    and "length junk = 2048" and "receive_running r = 1" and "mq_ready (length fs + n) q"
  shows "\<exists>r' q'. (\<forall>es. receive_thread True junk (map (\<lambda>c. Rx (Some c)) cs @ es) (r, q)
        = receive_thread True junk es (r', q')) \<and>
      mq_evs q' = mq_evs q @ map mq_ev (concat (map (frame_msgs junk) fs)) \<and>
      mq_ready n q' \<and> rx_inv r' [] \<and> receive_running r' = 1"
  using assms
proof (induction cs arbitrary: rest fs r q)
  case Nil
  then have fs: "fs = []"
    by (cases fs) (auto simp: cut_rest_def dest: arg_cong [of _ _ length])
  with Nil show ?case by (intro exI [of _ r] exI [of _ q]) simp
next
  case (Cons c cs)
  from Cons.prems(1) have "(rest @ c) @ concat cs = stream fs" by simp
  from stream_cut [OF this] obtain gs hs rest' where fs: "fs = gs @ hs"
    and cut: "rest @ c = stream gs @ rest'" "rest' @ concat cs = stream hs" "cut_rest rest' hs" by blast
  obtain q1 where q1: "post_list postMsgQueue (concat (map (frame_msgs junk) gs)) q = Inr q1"
    "mq_evs q1 = mq_evs q @ map mq_ev (concat (map (frame_msgs junk) gs))" "mq_ready (length hs + n) q1"
    using post_frames [of gs junk "length hs + n" q] Cons.prems fs by (auto simp: add.assoc)
  have "\<exists>r1. receive True junk (Some c) (r, q) = Some (Inr (r1, q1)) \<and> rx_inv r1 rest' \<and>
      receive_running r1 = receive_running r"
    by (rule receive_chunk_cut [OF _ _ cut(1) _ cut(3) _ _ q1(1)]) (use Cons.prems fs in auto)
  then obtain r1 where r1: "receive True junk (Some c) (r, q) = Some (Inr (r1, q1))"
      "rx_inv r1 rest'" "receive_running r1 = 1" using Cons.prems(7) by auto
  have step: "receive_thread True junk (map (\<lambda>c. Rx (Some c)) (c # cs) @ es) (r, q) =
      receive_thread True junk (map (\<lambda>c. Rx (Some c)) cs @ es) (r1, q1)" for es
    using r1(1) Cons.prems(7) by (subst receive_thread.simps) (simp add: getRunningState_def)
  from Cons.IH [OF cut(2,3) r1(2) _ _ _ r1(3) q1(3)] Cons.prems fs
  obtain r' q' where "\<forall>es. receive_thread True junk (map (\<lambda>c. Rx (Some c)) cs @ es) (r1, q1)
        = receive_thread True junk es (r', q')"
      "mq_evs q' = mq_evs q1 @ map mq_ev (concat (map (frame_msgs junk) hs))"
      "mq_ready n q'" "rx_inv r' []" "receive_running r' = 1" by auto
  with step q1(2) fs show ?case by (intro exI [of _ r'] exI [of _ q']) simp
qed

section \<open>Properties\<close>

lemma rx_inv_init:
  assumes "length rbuf = 10240"
  shows "rx_inv (snd (InitReceThread sbuf rbuf pcreate fd)) []"
  unfolding rx_inv_def InitReceThread_def using assms
  by (simp, intro exI [of _ "take 2000 rbuf"] exI [of _ "drop 2000 rbuf"]) simp

lemma postMsg_NULL_evs:
  assumes "mq_ready (Suc n) q" and "1 \<le> t" and "length junk = 2048"
  shows "\<exists>q'. postMsg junk t None 0 q = Inr q' \<and> mq_evs q' = mq_evs q @ [(t, 0, take 2040 junk)] \<and> mq_ready n q'"
  using postMsgQueue_evs [OF assms(1), of "\<lparr>msg_type = t, msg_number = t, msg_len = 0, msg_json = junk\<rparr>"]
    assms(2,3) by (simp add: mq_fits_def mq_ev_def)

text \<open>
  Property C2: the receiving thread, started by \<open>InitReceThread\<close>, turns the TCP stream of a
  sequence of frames into the sequence of their events, whatever the chunks in which the
  bytes arrive; after the main thread asks it to stop, it ends and its last event is
  \<open>MSG_RECEIVE_THREAD_CLOSED\<close>.  Chunks are at most 8240 bytes and frames at most 2001
  bytes, as the buffer's layout needs, and the platform's \<open>memcpy\<close> copies upwards.
\<close>

theorem receive_thread_delivers:
  assumes "length rbuf = 10240" and "length junk = 2048"
    and "concat cs = stream fs"
    and "\<forall>c\<in>set cs. length c \<le> 8240" and "\<forall>f\<in>set fs. frame_ok 2001 f"
    and "mq_ready (length fs + 1) q"
  shows "\<exists>r' q'.
    receive_thread True junk (map (\<lambda>c. Rx (Some c)) cs @ [Rx_Stop])
      (snd (InitReceThread sbuf rbuf 0 fd), q) = Some (Inr (True, r', q')) \<and>
    mq_evs q' = mq_evs q @ map mq_ev (concat (map (frame_msgs junk) fs)) @ [(19, 0, take 2040 junk)] \<and>
    gMoreData r' = 0"
proof -
  let ?r = "snd (InitReceThread sbuf rbuf 0 fd)"
  obtain r' q' where run:
      "\<forall>es. receive_thread True junk (map (\<lambda>c. Rx (Some c)) cs @ es) (?r, q) = receive_thread True junk es (r', q')"
      "mq_evs q' = mq_evs q @ map mq_ev (concat (map (frame_msgs junk) fs))"
      "mq_ready 1 q'" "rx_inv r' []" "receive_running r' = 1"
    using receive_thread_chunks [of "[]" cs fs ?r junk 1 q] assms rx_inv_init [OF assms(1)]
    by (auto simp: cut_rest_def InitReceThread_def)
  obtain q'' where q'': "postMsg junk MSG_RECEIVE_THREAD_CLOSED None 0 q' = Inr q''"
      "mq_evs q'' = mq_evs q' @ [(19, 0, take 2040 junk)]"
    using postMsg_NULL_evs [of 0 q' 19 junk] run(3) assms(2) by auto
  have "receive_thread True junk [Rx_Stop] (r', q') = Some (Inr (True, r'\<lparr>receive_running := 0\<rparr>, q''))"
    using run(5) q''(1)
    by (simp add: receive_thread.simps [of _ _ "[Rx_Stop]"] receive_thread.simps [of _ _ "[]"]
        getRunningState_def)
  with run q'' show ?thesis by (auto simp: rx_inv_def)
qed

theorem receive_thread_delivers_witness:
  "\<exists>r' q'. receive_thread True (replicate 2048 NUL)
      [Rx (Some (take 3 (stream [(99, []), (7, ''x'')]))), Rx (Some (drop 3 (stream [(99, []), (7, ''x'')]))), Rx_Stop]
      (snd (InitReceThread [] (replicate 10240 NUL) 0 5), ex_queue) = Some (Inr (True, r', q')) \<and>
    map fst (mq_evs q') = [12, 14, 19]"
proof -
  let ?s = "stream [(99, []), (7, ''x'')]"
  have h: "length (replicate 10240 NUL) = 10240" "length (replicate 2048 NUL) = 2048"
      "concat [take 3 ?s, drop 3 ?s] = ?s" "\<forall>c\<in>set [take 3 ?s, drop 3 ?s]. length c \<le> 8240"
      "\<forall>f\<in>set [(99, []), (7, ''x'')]. frame_ok 2001 f"
      "mq_ready (length [(99::int, []), (7, ''x'')] + 1) ex_queue"
    by (simp_all add: frame_ok_def ex_queue_ready)
  from receive_thread_delivers [OF h, of "[]" 5] show ?thesis
    by (auto simp: frame_msgs_def frame_event_def mq_ev_def simp del: stream_simps)
qed

text \<open>
  The receiver has no guard against a chunk that does not fit: \<open>recv\<close> may
  store up to 10240 bytes at offset 2000 of the 10240-byte buffer, and any chunk of more
  than 8240 bytes runs over its end.
\<close>

lemma receive_overruns_buffer:
  assumes "recvbuf r = Some b" and "length b = 10240" and "8240 < length d" and "length d \<le> 10240"
  shows "receive ovl junk (Some d) (r, q) = Some (Inl OutOfBounds)"
  using assms by (cases d) (simp_all add: receive_def Let_def wr_def)

lemma receive_overruns_buffer_witness:
  "receive True [] (Some (replicate 8241 NUL)) (snd (InitReceThread [] (replicate 10240 NUL) 0 5), ex_queue)
     = Some (Inl OutOfBounds)"
  by (rule receive_overruns_buffer [of _ "replicate 10240 NUL"]) (simp_all add: InitReceThread_def)

text \<open>
  An incomplete frame of more than 2000 bytes is kept before the start of the
  buffer: the first chunk of a long frame makes \<open>receive\<close> write out of bounds.
\<close>

lemma receive_underruns_buffer:
  assumes "rx_inv r []" and "incomplete d" and "2000 < length d" and "length d \<le> 8240"
  shows "receive ovl junk (Some d) (r, q) = Some (Inl OutOfBounds)"
proof -
  from assms(1) obtain pre post where b: "recvbuf r = Some (pre @ post)" "length pre = 2000"
      "length post = 8240" "gMoreData r = 0" by (auto simp: rx_inv_def)
  let ?post2 = "drop (length d) post"
  have "wr (pre @ take (length d) post @ ?post2) 2000 d = Inr (pre @ d @ ?post2)"
    by (rule wr_mid) (use b assms in simp_all)
  then have wr: "wr (pre @ post) 2000 d = Inr (pre @ d @ ?post2)" by simp
  have rd: "rd (pre @ d @ ?post2) 2000 (int (length d)) = Inr d"
    by (rule rd_mid) (use b in simp_all)
  have "keep_rest ovl (pre @ d @ ?post2) 2000 (int (length d)) = Inl OutOfBounds"
    using assms(3) rd by (cases d) (simp_all add: keep_rest_def memcpy_in_def overlap_def wr_def)
  then have "receive_loop ovl junk (pre @ d @ ?post2) 2000 (int (length d)) q = Some (Inl OutOfBounds)"
    using receive_loop_rest [OF assms(2), of 2000 pre "int (length d)" ovl junk ?post2 q] b(2) by simp
  with b wr assms show ?thesis by (auto simp: receive_def Let_def rx_done_def)
qed

lemma receive_underruns_buffer_witness:
  "receive True [] (Some (le32 3000 @ replicate 2000 NUL))
     (snd (InitReceThread [] (replicate 10240 NUL) 0 5), ex_queue) = Some (Inl OutOfBounds)"
  by (rule receive_underruns_buffer)
    (simp_all add: rx_inv_init incomplete_def un_le32_le32)

text \<open>The buffer after a chunk \<open>d\<close> has been stored behind the rest \<open>rest\<close>.\<close>

lemma receive_stores:
  assumes "rx_inv r rest" and "d \<noteq> []" and "length d \<le> 8240"
  shows "\<exists>pre post. length pre + length rest = 2000 \<and> length post + length d = 8240 \<and>
    receive ovl junk (Some d) (r, q) =
      map_option (rx_done r) (receive_loop ovl junk (pre @ (rest @ d) @ post) (int (length pre)) (int (length (rest @ d))) q)"
proof -
  from assms(1) obtain pre post where b: "recvbuf r = Some (pre @ rest @ post)"
    "length pre + length rest = 2000" "length post = 8240" "gMoreData r = int (length rest)"
    by (auto simp: rx_inv_def)
  let ?post2 = "drop (length d) post"
  have "wr ((pre @ rest) @ take (length d) post @ ?post2) 2000 d = Inr ((pre @ rest) @ d @ ?post2)"
    by (rule wr_mid) (use b assms in simp_all)
  then have "wr (pre @ rest @ post) 2000 d = Inr (pre @ (rest @ d) @ ?post2)" by simp
  moreover have e: "2000 - int (length rest) = int (length pre)" using b(2) by linarith
  moreover have "length ?post2 + length d = 8240" using b(3) assms(3) by simp
  ultimately have "length pre + length rest = 2000 \<and> length ?post2 + length d = 8240 \<and>
    receive ovl junk (Some d) (r, q) = map_option (rx_done r)
      (receive_loop ovl junk (pre @ (rest @ d) @ ?post2) (int (length pre)) (int (length (rest @ d))) q)"
    using assms b by (simp add: receive_def Let_def add.commute e)
  then show ?thesis by blast
qed

lemma receive_loop_diverges:
  assumes "rd b p 4 = Inr (le32 (- 4))" and "rd b (p + 4) 4 = Inr (le32 t)" and "int32 t"
    and "frame_event t = None" and "4 < n" and "n < 1000000"
  shows "receive_loop ovl junk b p n q = None"
proof (rule ccontr)
  assume "receive_loop ovl junk b p n q \<noteq> None"
  then obtain r where ret: "receive_loop ovl junk b p n q = Some r" by auto
  have "\<not> (rd b p 4 = Inr (le32 (- 4)) \<and> rd b (p + 4) 4 = Inr (le32 t) \<and> 4 < n \<and> n < 1000000)"
  proof (rule receive_loop.raw_induct [where P = "\<lambda>ovl junk b p n q r.
      \<not> (rd b p 4 = Inr (le32 (- 4)) \<and> rd b (p + 4) 4 = Inr (le32 t) \<and> 4 < n \<and> n < 1000000)", OF _ ret],
      rule notI, elim conjE)
    fix f :: "bool \<Rightarrow> bytes \<Rightarrow> bytes \<Rightarrow> int \<Rightarrow> int \<Rightarrow> g_msg_queue_para \<Rightarrow> (bytes \<times> int \<times> g_msg_queue_para) res option"
    fix ovl :: bool and junk b :: bytes and p n :: int and q :: g_msg_queue_para and r
    assume IH: "\<And>ovl junk b p n q r. f ovl junk b p n q = Some r \<Longrightarrow>
        \<not> (rd b p 4 = Inr (le32 (- 4)) \<and> rd b (p + 4) 4 = Inr (le32 t) \<and> 4 < n \<and> n < 1000000)"
    assume h: "rd b p 4 = Inr (le32 (- 4))" "rd b (p + 4) 4 = Inr (le32 t)" "4 < n" "n < 1000000"
    assume body: "(if n \<le> 4 then
        Some (res_bind (keep_rest ovl b p n) (\<lambda>(b', more). Inr (b', more, q)))
      else (case res_bind (rd b p 4) (\<lambda>h. let messageLength = myNtohl h in
                  res_bind (chk32 (messageLength + 4)) (\<lambda>need. Inr (messageLength, need))) of
        Inl e \<Rightarrow> Some (Inl e)
      | Inr (messageLength, need) \<Rightarrow>
          if n < need then
            Some (res_bind (keep_rest ovl b p n) (\<lambda>(b', more). Inr (b', more, q)))
          else (case res_bind (processMessage junk b p messageLength q) (\<lambda>q'.
                      res_bind (chk32 (n - messageLength)) (\<lambda>t.
                        res_bind (chk32 (t - 4)) (\<lambda>total'. Inr (q', total')))) of
            Inl e \<Rightarrow> Some (Inl e)
          | Inr (q', total') \<Rightarrow>
              if total' = 0 then Some (Inr (b, 0, q'))
              else f ovl junk b (p + messageLength + 4) total' q'))) = Some r"
    have ml: "myNtohl (le32 (- 4)) = - 4" and ty: "myNtohl (le32 t) = t"
      using assms(3) by (simp_all add: myNtohl_def un_le32_le32)
    have pm: "processMessage junk b p (- 4) q = Inr q"
      using assms(4) by (simp add: processMessage_def h(2) ty Let_def frame_event_def split: if_splits)
    from body h(3,4) have "f ovl junk b p n q = Some r"
      by (simp add: h(1) ml pm Let_def)
    from IH [OF this] h show False by simp
  qed
  with assms show False by simp
qed

text \<open>
  Property C38: a frame whose length field is \<open>-4\<close> and whose type is not one of the
  program's makes \<open>receive\<close> loop for ever: the scan neither advances nor consumes.
\<close>

theorem receive_negative_length_diverges:
  assumes "rx_inv r []" and "d = le32 (- 4) @ le32 t @ x" and "length d \<le> 8240"
    and "int32 t" and "frame_event t = None"
  shows "receive ovl junk (Some d) (r, q) = None"
proof -
  have "d \<noteq> []" using assms(2) by (simp add: le32_def)
  from receive_stores [OF assms(1) this assms(3), of ovl junk q] obtain pre post where
    rec: "receive ovl junk (Some d) (r, q) =
      map_option (rx_done r) (receive_loop ovl junk (pre @ ([] @ d) @ post) (int (length pre)) (int (length ([] @ d))) q)"
    by blast
  have b: "pre @ d @ post = pre @ le32 (- 4) @ (le32 t @ x @ post)"
    and b': "pre @ d @ post = (pre @ le32 (- 4)) @ le32 t @ (x @ post)" using assms(2) by simp_all
  have "rd (pre @ d @ post) (int (length pre)) 4 = Inr (le32 (- 4))"
    unfolding b by (rule rd_mid) simp_all
  moreover have "rd (pre @ d @ post) (int (length pre) + 4) 4 = Inr (le32 t)"
    unfolding b' by (rule rd_mid) simp_all
  ultimately have "receive_loop ovl junk (pre @ d @ post) (int (length pre)) (int (length d)) q = None"
    using assms by (intro receive_loop_diverges) simp_all
  with rec show ?thesis by simp
qed

theorem receive_negative_length_diverges_witness:
  "receive True [] (Some (le32 (- 4) @ le32 0))
     (snd (InitReceThread [] (replicate 10240 NUL) 0 5), ex_queue) = None"
  by (rule receive_negative_length_diverges [of _ _ 0 "[]"])
    (simp_all add: rx_inv_init frame_event_def)

text \<open>
  Under ISO C's \<open>memcpy\<close> a frame may not arrive in three pieces: when a chunk
  continues an incomplete frame and does not complete it, the kept bytes are copied onto an
  overlapping range.
\<close>

lemma receive_third_piece_overlaps:
  assumes "rx_inv r rest" and "rest \<noteq> []" and "d \<noteq> []" and "incomplete (rest @ d)"
    and "length rest + length d \<le> 2000"
  shows "receive False junk (Some d) (r, q) = Some (Inl OverlapCopy)"
proof -
  have "length d \<le> 8240" using assms(5) by simp
  from receive_stores [OF assms(1,3) this, of False junk q] obtain pre post where
    len: "length pre + length rest = 2000" and rec: "receive False junk (Some d) (r, q) =
      map_option (rx_done r) (receive_loop False junk (pre @ (rest @ d) @ post) (int (length pre)) (int (length (rest @ d))) q)"
    by blast
  have "keep_rest False (pre @ (rest @ d) @ post) (int (length pre)) (int (length (rest @ d)))
      = Inl OverlapCopy"
    using assms(2,3) len by (cases rest) (auto simp: keep_rest_def memcpy_in_def overlap_def)
  then have "receive_loop False junk (pre @ (rest @ d) @ post) (int (length pre)) (int (length (rest @ d))) q
      = Some (Inl OverlapCopy)"
    by (subst receive_loop_rest [OF assms(4)]) simp_all
  with rec show ?thesis by (simp add: rx_done_def)
qed

lemma receive_third_piece_overlaps_witness:
  "receive False [] (Some [NUL])
     ((snd (InitReceThread [] (replicate 10240 NUL) 0 5))\<lparr>gMoreData := 1\<rparr>, ex_queue) = Some (Inl OverlapCopy)"
proof (rule receive_third_piece_overlaps [of _ "[NUL]"])
  show "rx_inv ((snd (InitReceThread [] (replicate 10240 NUL) 0 5))\<lparr>gMoreData := 1\<rparr>) [NUL]"
    by (rule rx_invI [of _ "replicate 10240 NUL"]) (simp_all add: InitReceThread_def)
qed (simp_all add: incomplete_def)

text \<open>
  A JSON request of more than 2048 bytes overruns the message on the stack of
  \<open>postMsg\<close>, although the receive buffer takes it.
\<close>

lemma receive_json_overflow:
  assumes "rx_inv r []" and "t = 1 \<or> t = 2" and "2048 < length p" and "length p \<le> 8232"
    and "length junk = 2048"
  shows "receive ovl junk (Some (mk_frame (t, p))) (r, q) = Some (Inl OutOfBounds)"
proof -
  let ?d = "mk_frame (t, p)" and ?n = "int (length p) + 4"
  have "?d \<noteq> []" "length ?d \<le> 8240" using assms(4) by (simp_all add: mk_frame_def le32_def)
  from receive_stores [OF assms(1) this, of ovl junk q] obtain pre post where
    rec: "receive ovl junk (Some ?d) (r, q) =
      map_option (rx_done r) (receive_loop ovl junk (pre @ ([] @ ?d) @ post) (int (length pre)) (int (length ([] @ ?d))) q)"
    by blast
  have b1: "pre @ ?d @ post = pre @ le32 ?n @ (le32 t @ p @ post)"
    and b2: "pre @ ?d @ post = (pre @ le32 ?n) @ le32 t @ (p @ post)"
    and b3: "pre @ ?d @ post = (pre @ le32 ?n @ le32 t) @ p @ post" by (simp_all add: mk_frame_def)
  have r1: "rd (pre @ ?d @ post) (int (length pre)) 4 = Inr (le32 ?n)"
    unfolding b1 by (rule rd_mid) simp_all
  have r2: "rd (pre @ ?d @ post) (int (length pre) + 4) 4 = Inr (le32 t)"
    unfolding b2 by (rule rd_mid) simp_all
  have r3: "rd (pre @ ?d @ post) (8 + int (length pre)) (int (length p)) = Inr p"
    unfolding b3 by (rule rd_mid) simp_all
  have "processMessage junk (pre @ ?d @ post) (int (length pre)) ?n q = Inl OutOfBounds"
    using assms r2 r3
    by (auto simp: processMessage_def myNtohl_def un_le32_le32 Let_def postMsg_def wr_def)
  with rec r1 assms show ?thesis
    by (simp add: receive_loop.simps [of ovl junk "pre @ ?d @ post"] myNtohl_def un_le32_le32 Let_def
        rx_done_def)
qed

lemma receive_json_overflow_witness:
  "receive True (replicate 2048 NUL) (Some (mk_frame (1, replicate 2049 NUL)))
     (snd (InitReceThread [] (replicate 10240 NUL) 0 5), ex_queue) = Some (Inl OutOfBounds)"
  by (rule receive_json_overflow) (simp_all add: rx_inv_init)

end
