(* ===== verification/GW_Server.thy ===== *)
theory GW_Server
  imports GW_Receive
begin

text \<open>
  The server side of \<open>src/code/src/server.c\<close>: accepting a client, sending to it from several
  threads, and tearing its receive thread down.

  The \<open>g_receive_para\<close> objects are shared between the receive threads and the server, so they
  live in a store \<open>rx_heap\<close>; \<open>g_receive\<close> is a pointer into it, and a freed object is absent.
  \<open>wire\<close> records what the kernel took from \<open>send\<close>, per socket; \<open>send_env\<close> is the list of
  outcomes of the coming calls of \<open>send\<close> (the value returned, and whether \<open>errno\<close> is
  \<open>EAGAIN\<close> or \<open>EWOULDBLOCK\<close>), and a call beyond the list takes the whole buffer.
\<close>

section \<open>State\<close>

record g_server_para =
  g_receive :: "nat option"
  listenfd :: int
  waiting :: int
  hasTimer :: int
  enableCallback :: int
  send_enable :: int
  sv_para_t :: para_thread
  sv_para_waiting_t :: para_thread

record srv =
  sv :: g_server_para
  rx_heap :: "nat \<rightharpoonup> g_receive_para"
  wire :: "(int \<times> bytes) list"
  send_env :: "(int \<times> bool) list"

definition InitServerThread :: "int \<Rightarrow> int \<times> g_server_para" where
  "InitServerThread pcreate =
     ((if pcreate \<noteq> 0 then - 1 else 0),
      \<lparr>g_receive = None, listenfd = 0, waiting = STATE_STARTUP, hasTimer = 0, enableCallback = 0,
       send_enable = 0, sv_para_t = newThreadPara, sv_para_waiting_t = newThreadPara\<rparr>)"

definition getServerwaiting :: "g_server_para \<Rightarrow> int \<Rightarrow> int \<times> g_server_para" where
  "getServerwaiting s value =
     (if value = 1 then (0, s\<lparr>waiting := STATE_DISCONNECTED\<rparr>) else (waiting s, s))"

text \<open>Following the pointer \<open>g_server->g_receive\<close>.\<close>

definition deref_rx :: "nat option \<Rightarrow> (nat \<rightharpoonup> g_receive_para) \<Rightarrow> (nat \<times> g_receive_para) res" where
  "deref_rx p h =
     (case p of None \<Rightarrow> Inl NullDeref
      | Some a \<Rightarrow> (case h a of None \<Rightarrow> Inl UseAfterFree | Some r \<Rightarrow> Inr (a, r)))"

section \<open>Sending\<close>

text \<open>
  \<open>sendToPc\<close> up to the point where it holds the mutex.  The counter is incremented through
  \<open>g_receive\<close> before any check.  The result is the pointer to go on with, or \<open>None\<close> for
  \<open>return 0\<close>; the test \<open>g_receive == NULL\<close> of the source comes after the dereference.
\<close>

definition sendToPc_enter :: "srv \<Rightarrow> (nat option \<times> srv) res" where
  "sendToPc_enter s =
     res_bind (deref_rx (g_receive (sv s)) (rx_heap s)) (\<lambda>(a, r).
       let s1 = s\<lparr>rx_heap := (rx_heap s)(a \<mapsto> r\<lparr>send_cnt := send_cnt r + 1\<rparr>)\<rparr>
       in if fst (getServerwaiting (sv s1) 0) = STATE_DISCONNECTED then Inr (None, s1)
          else if g_receive (sv s) = None then Inr (None, s1)
          else if send_enable (sv s1) = 0 then Inr (None, s1)
          else Inr (Some a, s1\<lparr>sv := (sv s1)\<lparr>sv_para_t := (sv_para_t (sv s1))\<lparr>pt_mutex := Locked\<rparr>\<rparr>\<rparr>))"

text \<open>Logging \<open>send_buf + 8\<close> with \<open>%s\<close> reads up to a terminating zero.\<close>

definition log_string :: "bytes \<Rightarrow> nat \<Rightarrow> unit res" where
  "log_string b off = (if NUL \<in> set (drop off b) then Inr () else Inl OutOfBounds)"

definition next_send :: "srv \<Rightarrow> int \<Rightarrow> (int \<times> bool) \<times> srv" where
  "next_send s n =
     (case send_env s of [] \<Rightarrow> ((n, False), s) | x # xs \<Rightarrow> (x, s\<lparr>send_env := xs\<rparr>))"

definition sendToPc_finish :: "bytes \<Rightarrow> int \<Rightarrow> nat \<Rightarrow> srv \<Rightarrow> (int \<times> srv) res" where
  "sendToPc_finish buf len a s =
     res_bind (deref_rx (Some a) (rx_heap s)) (\<lambda>(_, r).
     res_bind (rd buf 0 len) (\<lambda>d.
       let r1 = r\<lparr>point_1_send_cnt := point_1_send_cnt r + 1\<rparr>;
           ((ret, wouldblock), s1) = next_send s len;
           s2 = s1\<lparr>wire := wire s1 @ [(connfd r1, take (nat ret) d)]\<rparr>;
           r2 = r1\<lparr>point_2_send_cnt := point_2_send_cnt r1 + 1\<rparr>
       in res_bind
            (if ret \<noteq> len then
               res_bind (if wouldblock then Inr () else log_string buf 8) (\<lambda>_.
                 Inr (s2\<lparr>sv := (sv s2)\<lparr>send_enable := 0\<rparr>\<rparr>))
             else Inr s2)
            (\<lambda>s3.
               let r3 = r2\<lparr>comp_send_cnt := comp_send_cnt r2 + 1\<rparr>
               in Inr (ret, s3\<lparr>rx_heap := (rx_heap s3)(a \<mapsto> r3),
                              sv := (sv s3)\<lparr>sv_para_t := (sv_para_t (sv s3))\<lparr>pt_mutex := Unlocked\<rparr>\<rparr>\<rparr>))))"

definition sendToPc :: "bytes \<Rightarrow> int \<Rightarrow> srv \<Rightarrow> (int \<times> srv) res" where
  "sendToPc buf len s =
     res_bind (sendToPc_enter s) (\<lambda>(p, s1).
       case p of None \<Rightarrow> Inr (0, s1) | Some a \<Rightarrow> sendToPc_finish buf len a s1)"

section \<open>Accepting a client\<close>

text \<open>The set-up of \<open>runServer\<close>: the results of \<open>socket\<close>, \<open>bind\<close> and \<open>listen\<close>; the flag says whether the accept loop starts.\<close>

definition runServer_setup :: "int \<Rightarrow> int \<Rightarrow> int \<Rightarrow> g_server_para \<Rightarrow> bool \<times> g_server_para" where
  "runServer_setup fd bnd lst s =
     (let s1 = s\<lparr>listenfd := fd\<rparr>;
          s2 = (if fd = - 1 then s1\<lparr>waiting := STATE_DISCONNECTED\<rparr> else s1);
          s3 = (if bnd = - 1 then s2\<lparr>waiting := STATE_DISCONNECTED\<rparr> else s2);
          s4 = (if lst = - 1 then s3\<lparr>waiting := STATE_DISCONNECTED\<rparr> else s3)
      in if waiting s4 = STATE_DISCONNECTED then (False, s4)
         else (True, s4\<lparr>waiting := STATE_STARTUP\<rparr>))"

text \<open>
  One turn of the accept loop: \<open>fd\<close> is what \<open>accept\<close> returns, \<open>a\<close> the address \<open>malloc\<close>
  gives the new object.  The result of \<open>InitReceThread\<close> is not looked at.
\<close>

definition runServer_accept ::
    "bytes \<Rightarrow> bytes \<Rightarrow> bytes \<Rightarrow> int \<Rightarrow> nat \<Rightarrow> int \<Rightarrow> srv \<times> g_msg_queue_para \<Rightarrow> (srv \<times> g_msg_queue_para) res" where
  "runServer_accept junk sbuf rbuf pcreate a fd sq =
     (let (s, q) = sq
      in if fd = - 1 then Inr (s, q)
         else let (ret, r) = InitReceThread sbuf rbuf pcreate fd;
                  s1 = s\<lparr>rx_heap := (rx_heap s)(a \<mapsto> r),
                         sv := (sv s)\<lparr>g_receive := Some a, waiting := STATE_CONNECTED\<rparr>\<rparr>
              in res_bind (postMsg junk MSG_ACCEPT_NEW_CLIENT None 0 q) (\<lambda>q'. Inr (s1, q')))"

section \<open>Tearing a client down\<close>

definition mutex_reInit :: "g_server_para \<Rightarrow> g_server_para res" where
  "mutex_reInit s =
     (case pt_mutex (sv_para_t s) of
        Unlocked \<Rightarrow> Inr s
      | Locked \<Rightarrow> Inl UnlockNotOwner
      | Destroyed \<Rightarrow> Inl UseAfterFree)"

text \<open>
  \<open>pthread_join\<close> waits for the receive thread: it completes the call of \<open>receive\<close> it may be in
  (\<open>inflight\<close>), sees the flag, posts its last event and ends.
\<close>

definition join_receive_thread ::
    "bool \<Rightarrow> bytes \<Rightarrow> bytes option option \<Rightarrow> g_receive_para \<times> g_msg_queue_para
       \<Rightarrow> (g_receive_para \<times> g_msg_queue_para) res option" where
  "join_receive_thread ovl junk inflight s =
     (case (case inflight of None \<Rightarrow> Some (Inr s) | Some avail \<Rightarrow> receive ovl junk avail s) of
        None \<Rightarrow> None
      | Some (Inl e) \<Rightarrow> Some (Inl e)
      | Some (Inr s1) \<Rightarrow>
          map_option (\<lambda>x. res_bind x (\<lambda>(_, s2). Inr s2)) (receive_thread ovl junk [] s1))"

definition free_receive :: "g_receive_para \<Rightarrow> g_receive_para" where
  "free_receive r =
     (let r1 = (if recvbuf r \<noteq> None then r\<lparr>recvbuf := None\<rparr> else r);
          r2 = (if sendMessage r1 \<noteq> None then r1\<lparr>sendMessage := None\<rparr> else r1)
      in r2\<lparr>gMoreData := 0, rx_para_t := destoryThreadPara (rx_para_t r2),
            rx_para_t_cancel := destoryThreadPara (rx_para_t_cancel r2), connfd := - 1,
            connected := 0, disconnect_cnt := 0\<rparr>)"

definition freeReceThread ::
    "bool \<Rightarrow> bytes \<Rightarrow> bytes option option \<Rightarrow> srv \<times> g_msg_queue_para \<Rightarrow> (srv \<times> g_msg_queue_para) res option" where
  "freeReceThread ovl junk inflight sq =
     (let (s0, q) = sq; s = s0\<lparr>sv := snd (getServerwaiting (sv s0) 1)\<rparr>
      in case deref_rx (g_receive (sv s)) (rx_heap s) of
           Inl e \<Rightarrow> Some (Inl e)
         | Inr (a, r) \<Rightarrow>
             (case join_receive_thread ovl junk inflight (snd (getRunningState r 1), q) of
                None \<Rightarrow> None
              | Some (Inl e) \<Rightarrow> Some (Inl e)
              | Some (Inr (r1, q1)) \<Rightarrow>
                  let s1 = s\<lparr>rx_heap := (rx_heap s)(a \<mapsto> free_receive r1)\<rparr>;
                      s2 = s1\<lparr>rx_heap := (rx_heap s1)(a := None), sv := (sv s1)\<lparr>g_receive := None\<rparr>\<rparr>
                  in Some (res_bind (mutex_reInit (sv s2)) (\<lambda>s'. Inr (s2\<lparr>sv := s'\<rparr>, q1)))))"

definition stopReceThread ::
    "bool \<Rightarrow> bytes \<Rightarrow> bytes option option \<Rightarrow> srv \<times> g_msg_queue_para \<Rightarrow> (srv \<times> g_msg_queue_para) res option" where
  "stopReceThread ovl junk inflight sq = freeReceThread ovl junk inflight sq"

section \<open>The interface: a link that carries whole frames\<close>

text \<open>
  What the producers of frames (\<open>GW_ProcBroker\<close>, \<open>GW_Dma\<close>) rely on.  \<open>out\<close> is what went
  out on the link, \<open>up\<close> that it still takes data.  A link that took less than a whole buffer
  is not up any more.
\<close>

fun send_all :: "(bytes \<Rightarrow> int \<Rightarrow> 's \<Rightarrow> (int \<times> 's) res) \<Rightarrow> frame list \<Rightarrow> 's \<Rightarrow> 's res" where
  "send_all send [] s = Inr s"
| "send_all send (f # fs) s =
     res_bind (send (mk_frame f) (int (length (mk_frame f))) s) (\<lambda>(_, s'). send_all send fs s')"

locale pc_link =
  fixes send :: "bytes \<Rightarrow> int \<Rightarrow> 's \<Rightarrow> (int \<times> 's) res"
    and out :: "'s \<Rightarrow> bytes"
    and up :: "'s \<Rightarrow> bool"
    and ready :: "'s \<Rightarrow> bool"
    and okbuf :: "bytes \<Rightarrow> bool"
  assumes send_up: "ready s \<Longrightarrow> up s \<Longrightarrow> okbuf b \<Longrightarrow>
      \<exists>ret s' k. send b (int (length b)) s = Inr (ret, s') \<and> ready s' \<and> out s' = out s @ take k b \<and>
        (k < length b \<longrightarrow> \<not> up s')"
    and send_down: "ready s \<Longrightarrow> \<not> up s \<Longrightarrow> okbuf b \<Longrightarrow>
      \<exists>ret s'. send b (int (length b)) s = Inr (ret, s') \<and> ready s' \<and> out s' = out s \<and> \<not> up s'"
begin

lemma send_all_down:
  "ready s \<Longrightarrow> \<not> up s \<Longrightarrow> \<forall>f\<in>set fs. okbuf (mk_frame f) \<Longrightarrow>
     \<exists>s'. send_all send fs s = Inr s' \<and> ready s' \<and> out s' = out s \<and> \<not> up s'"
proof (induction fs arbitrary: s)
  case (Cons f fs)
  from send_down [of s "mk_frame f"] Cons.prems obtain ret s1 where
    "send (mk_frame f) (int (length (mk_frame f))) s = Inr (ret, s1)" "ready s1" "out s1 = out s" "\<not> up s1"
    by auto
  with Cons.IH [of s1] Cons.prems(3) show ?case by auto
qed simp

lemma send_all_stream:
  "ready s \<Longrightarrow> \<forall>f\<in>set fs. okbuf (mk_frame f) \<Longrightarrow>
     \<exists>s' gs hs rest. send_all send fs s = Inr s' \<and> ready s' \<and> fs = gs @ hs \<and>
       out s' = out s @ stream gs @ rest \<and> cut_rest rest hs \<and> (up s' \<longrightarrow> hs = [] \<and> rest = [])"
proof (induction fs arbitrary: s)
  case Nil
  then show ?case by (intro exI [of _ s] exI [of _ "[]"]) (simp add: cut_rest_def)
next
  case (Cons f fs)
  show ?case
  proof (cases "up s")
    case False
    from send_all_down [OF Cons.prems(1) False Cons.prems(2)] obtain s' where
      "send_all send (f # fs) s = Inr s'" "ready s'" "out s' = out s" "\<not> up s'" by blast
    then show ?thesis
      by (intro exI [of _ s'] exI [of _ "[]"] exI [of _ "f # fs"]) (simp add: cut_rest_def)
  next
    case True
    from send_up [OF Cons.prems(1) True, of "mk_frame f"] Cons.prems(2) obtain ret s1 k where
      s1: "send (mk_frame f) (int (length (mk_frame f))) s = Inr (ret, s1)" "ready s1"
        "out s1 = out s @ take k (mk_frame f)" "k < length (mk_frame f) \<longrightarrow> \<not> up s1" by auto
    show ?thesis
    proof (cases "k < length (mk_frame f)")
      case True
      from send_all_down [OF s1(2), of fs] True s1(4) Cons.prems(2) obtain s' where
        s': "send_all send fs s1 = Inr s'" "ready s'" "out s' = out s1" "\<not> up s'" by auto
      have "cut_rest (take k (mk_frame f)) (f # fs)"
        using True by (simp add: cut_rest_def min_def)
      with s1 s' show ?thesis
        by (intro exI [of _ s'] exI [of _ "[]"] exI [of _ "f # fs"] exI [of _ "take k (mk_frame f)"]) simp
    next
      case False
      from Cons.IH [OF s1(2)] Cons.prems(2) obtain s' gs hs rest where
        "send_all send fs s1 = Inr s'" "ready s'" "fs = gs @ hs" "out s' = out s1 @ stream gs @ rest"
        "cut_rest rest hs" "up s' \<longrightarrow> hs = [] \<and> rest = []" by auto
      with s1 False show ?thesis
        by (intro exI [of _ s'] exI [of _ "f # gs"] exI [of _ hs] exI [of _ rest]) simp
    qed
  qed
qed

end

section \<open>\<open>sendToPc\<close> is such a link\<close>

definition sent_on :: "int \<Rightarrow> srv \<Rightarrow> bytes" where
  "sent_on fd s = concat (map snd (filter (\<lambda>x. fst x = fd) (wire s)))"

definition send_up :: "srv \<Rightarrow> bool" where
  "send_up s \<longleftrightarrow> send_enable (sv s) \<noteq> 0"

definition link_ready :: "int \<Rightarrow> srv \<Rightarrow> bool" where
  "link_ready fd s \<longleftrightarrow> waiting (sv s) \<noteq> STATE_DISCONNECTED \<and>
     (\<exists>a r. g_receive (sv s) = Some a \<and> rx_heap s a = Some r \<and> connfd r = fd)"

definition zero_ended :: "bytes \<Rightarrow> bool" where
  "zero_ended b \<longleftrightarrow> NUL \<in> set (drop 8 b)"

lemma rd_all [buf_simps]: "rd b 0 (int (length b)) = Inr b"
  by (simp add: rd_def)

lemma sendToPc_part:
  assumes "link_ready fd s" and "send_up s" and "zero_ended b" and "n \<le> length b"
  shows "\<exists>ret s' k. sendToPc b (int n) s = Inr (ret, s') \<and> link_ready fd s' \<and>
    sent_on fd s' = sent_on fd s @ take k (take n b) \<and> (k < n \<longrightarrow> \<not> send_up s')"
proof -
  from assms obtain a r where a: "g_receive (sv s) = Some a" "rx_heap s a = Some r" "connfd r = fd"
    "waiting (sv s) \<noteq> 0" "send_enable (sv s) \<noteq> 0" "NUL \<in> set (drop 8 b)"
    by (auto simp: link_ready_def send_up_def zero_ended_def)
  obtain ret w s1 where n: "next_send s (int n) = ((ret, w), s1)" by (cases "next_send s (int n)") auto
  have k: "nat ret < n \<Longrightarrow> ret \<noteq> int n" by auto
  have rd: "rd b 0 (int n) = Inr (take n b)" using assms(4) by (simp add: rd_def)
  from n k a rd show ?thesis
    by (auto simp: sendToPc_def sendToPc_enter_def sendToPc_finish_def deref_rx_def getServerwaiting_def
        Let_def next_send_def log_string_def link_ready_def sent_on_def send_up_def
        split: list.splits intro!: exI [of _ "nat ret"])
qed

text \<open>When the kernel takes everything.\<close>

lemma sendToPc_whole:
  assumes "link_ready fd s" and "send_up s" and "send_env s = []" and "n \<le> length b"
  shows "\<exists>ret s'. sendToPc b (int n) s = Inr (ret, s') \<and> link_ready fd s' \<and> send_up s' \<and> send_env s' = [] \<and>
    sent_on fd s' = sent_on fd s @ take n b"
proof -
  from assms(1,2) obtain a r where a: "g_receive (sv s) = Some a" "rx_heap s a = Some r" "connfd r = fd"
    "waiting (sv s) \<noteq> 0" "send_enable (sv s) \<noteq> 0"
    by (auto simp: link_ready_def send_up_def)
  moreover have "rd b 0 (int n) = Inr (take n b)" using assms(4) by (simp add: rd_def)
  ultimately show ?thesis using assms(3)
    by (auto simp: sendToPc_def sendToPc_enter_def sendToPc_finish_def deref_rx_def getServerwaiting_def
        Let_def next_send_def link_ready_def sent_on_def send_up_def)
qed

lemma sendToPc_up:
  assumes "link_ready fd s" and "send_up s" and "zero_ended b"
  shows "\<exists>ret s' k. sendToPc b (int (length b)) s = Inr (ret, s') \<and> link_ready fd s' \<and>
    sent_on fd s' = sent_on fd s @ take k b \<and> (k < length b \<longrightarrow> \<not> send_up s')"
  using sendToPc_part [OF assms order_refl] by simp

lemma sendToPc_down:
  assumes "link_ready fd s" and "\<not> send_up s"
  shows "\<exists>ret s'. sendToPc b n s = Inr (ret, s') \<and> link_ready fd s' \<and>
    sent_on fd s' = sent_on fd s \<and> \<not> send_up s'"
  using assms
  by (auto simp: sendToPc_def sendToPc_enter_def deref_rx_def getServerwaiting_def Let_def link_ready_def
      sent_on_def send_up_def)

interpretation pc: pc_link sendToPc "sent_on fd" send_up "link_ready fd" zero_ended
  for fd :: int
  by unfold_locales (use sendToPc_up sendToPc_down in blast)+

section \<open>The stop, step by step\<close>

text \<open>The receiver is idle when it is stopped, or it completes the \<open>recv\<close> it is in.\<close>

lemma receive_thread_stopped:
  assumes "receive_running r \<noteq> 1"
  shows "receive_thread ovl junk es (r, q) =
    Some (res_bind (postMsg junk MSG_RECEIVE_THREAD_CLOSED None 0 q) (\<lambda>q'. Inr (True, r, q')))"
  using assms by (subst receive_thread.simps) (simp add: getRunningState_def)

lemma join_idle:
  assumes "receive_running r \<noteq> 1"
  shows "join_receive_thread ovl junk None (r, q) =
    Some (res_bind (postMsg junk MSG_RECEIVE_THREAD_CLOSED None 0 q) (\<lambda>q'. Inr (r, q')))"
  using assms
  by (cases "postMsg junk MSG_RECEIVE_THREAD_CLOSED None 0 q")
    (simp_all add: join_receive_thread_def receive_thread_stopped)

lemma postMsg_ready:
  assumes "mq_ready (Suc n) q" and "1 \<le> t" and "length junk = 2048"
  shows "\<exists>q'. postMsg junk t None 0 q = Inr q' \<and> mq_ready n q' \<and>
    mq_evs q' = mq_evs q @ [(t, 0, take 2040 junk)]"
proof -
  let ?m = "\<lparr>msg_type = t, msg_number = t, msg_len = 0, msg_json = junk\<rparr>"
  from assms have "mq_fits ?m" by (simp add: mq_fits_def)
  from postMsgQueue_evs [OF assms(1) this] show ?thesis by (auto simp: mq_ev_def)
qed

lemma stop_connected:
  assumes "g_receive (sv s) = Some a" and "rx_heap s a = Some r"
    and "pt_mutex (sv_para_t (sv s)) = Unlocked" and "mq_ready (Suc n) q" and "length junk = 2048"
  shows "\<exists>q'. stopReceThread ovl junk None (s, q) =
      Some (Inr (s\<lparr>rx_heap := (rx_heap s)(a := None),
                   sv := (sv s)\<lparr>g_receive := None, waiting := STATE_DISCONNECTED\<rparr>\<rparr>, q')) \<and>
    mq_ready n q' \<and> mq_evs q' = mq_evs q @ [(MSG_RECEIVE_THREAD_CLOSED, 0, take 2040 junk)]"
proof -
  obtain q' where q': "postMsg junk MSG_RECEIVE_THREAD_CLOSED None 0 q = Inr q'" "mq_ready n q'"
    "mq_evs q' = mq_evs q @ [(MSG_RECEIVE_THREAD_CLOSED, 0, take 2040 junk)]"
    using postMsg_ready [OF assms(4) _ assms(5), of MSG_RECEIVE_THREAD_CLOSED]
    by (auto simp del: postMsg_NULL)
  with assms show ?thesis
    by (intro exI [of _ q'])
      (simp add: stopReceThread_def freeReceThread_def getServerwaiting_def Let_def deref_rx_def
        getRunningState_def join_idle mutex_reInit_def del: postMsg_NULL)
qed

section \<open>Reachable states of the server\<close>

text \<open>
  The operations on the server in the order they happen, each one atomic: a client is
  accepted into a fresh object, a thread sends, the main loop enables sending (the handler of
  \<open>MSG_ACCEPT_NEW_CLIENT\<close>) and stops the receiver of a connected client (the handler of
  \<open>MSG_TIMEOUT\<close>).
\<close>

definition enable_send :: "srv \<Rightarrow> srv" where
  "enable_send s = s\<lparr>sv := (sv s)\<lparr>send_enable := 1\<rparr>\<rparr>"

inductive srv_step :: "bytes \<Rightarrow> srv \<times> g_msg_queue_para \<Rightarrow> srv \<times> g_msg_queue_para \<Rightarrow> bool"
  for junk :: bytes where
  Accept: "rx_heap s a = None \<Longrightarrow> runServer_accept junk sbuf rbuf pcreate a fd (s, q) = Inr t
      \<Longrightarrow> srv_step junk (s, q) t"
| Enable: "srv_step junk (s, q) (enable_send s, q)"
| Send: "sendToPc buf n s = Inr (ret, s') \<Longrightarrow> srv_step junk (s, q) (s', q)"
| Stop: "waiting (sv s) = STATE_CONNECTED \<Longrightarrow> stopReceThread ovl junk infl (s, q) = Some (Inr t)
      \<Longrightarrow> srv_step junk (s, q) t"

inductive srv_reach :: "bytes \<Rightarrow> g_msg_queue_para \<Rightarrow> srv \<times> g_msg_queue_para \<Rightarrow> bool"
  for junk :: bytes and q0 :: g_msg_queue_para where
  Init: "srv_reach junk q0
     (\<lparr>sv = snd (InitServerThread pcreate), rx_heap = Map.empty, wire = [], send_env = env\<rparr>, q0)"
| Step: "srv_reach junk q0 s \<Longrightarrow> srv_step junk s t \<Longrightarrow> srv_reach junk q0 t"

inductive_cases srv_stepE: "srv_step junk (s, q) t"

definition srv_inv :: "srv \<Rightarrow> bool" where
  "srv_inv s \<longleftrightarrow> pt_mutex (sv_para_t (sv s)) = Unlocked \<and>
     (waiting (sv s) = STATE_CONNECTED \<longleftrightarrow> g_receive (sv s) \<noteq> None) \<and>
     waiting (sv s) \<in> {STATE_DISCONNECTED, STATE_STARTUP, STATE_CONNECTED} \<and>
     (\<forall>a. g_receive (sv s) = Some a \<longrightarrow>
        (\<exists>r. rx_heap s a = Some r \<and> receive_running r = 1 \<and> recvbuf r \<noteq> None))"

lemma srv_inv_accept:
  assumes "srv_inv s" and "runServer_accept junk sbuf rbuf pcreate a fd (s, q) = Inr (s', q')"
  shows "srv_inv s'"
  using assms
  by (auto simp: srv_inv_def runServer_accept_def InitReceThread_def Let_def res_bind_eq_Inr split: if_splits)

lemma srv_inv_send:
  assumes "srv_inv s" and "sendToPc buf n s = Inr (ret, s')"
  shows "srv_inv s'"
  using assms
  by (auto simp: srv_inv_def sendToPc_def sendToPc_enter_def sendToPc_finish_def deref_rx_def Let_def
      getServerwaiting_def next_send_def res_bind_eq_Inr split: if_splits option.splits list.splits)

lemma stop_result_shape:
  assumes "stopReceThread ovl junk infl (s, q) = Some (Inr (s', q'))"
  shows "waiting (sv s') = STATE_DISCONNECTED \<and> g_receive (sv s') = None \<and>
    pt_mutex (sv_para_t (sv s')) = Unlocked"
  using assms
  by (auto simp: stopReceThread_def freeReceThread_def Let_def getServerwaiting_def mutex_reInit_def
      res_bind_eq_Inr split: option.splits sum.splits mutex.splits)

lemma srv_inv_enable: "srv_inv s \<Longrightarrow> srv_inv (enable_send s)"
  by (auto simp: srv_inv_def enable_send_def)

lemma srv_inv_stop: "stopReceThread ovl junk infl (s, q) = Some (Inr (s', q')) \<Longrightarrow> srv_inv s'"
  using stop_result_shape [of ovl junk infl s q s' q'] by (simp add: srv_inv_def)

lemma srv_inv_step: "srv_step junk st st' \<Longrightarrow> srv_inv (fst st) \<Longrightarrow> srv_inv (fst st')"
proof (induction rule: srv_step.induct)
  case (Accept s a sbuf rbuf pcreate fd q t)
  then show ?case using srv_inv_accept [of s junk sbuf rbuf pcreate a fd q "fst t" "snd t"] by simp
next
  case (Enable s q)
  then show ?case by (simp add: srv_inv_enable)
next
  case (Send buf n s ret s' q)
  then show ?case by (simp add: srv_inv_send)
next
  case (Stop s ovl infl q t)
  then show ?case using srv_inv_stop [of ovl junk infl s q "fst t" "snd t"] by simp
qed

lemma srv_reach_inv: "srv_reach junk q0 st \<Longrightarrow> srv_inv (fst st)"
proof (induction rule: srv_reach.induct)
  case (Init pcreate env)
  show ?case by (simp add: srv_inv_def InitServerThread_def newThreadPara_def)
next
  case (Step s t)
  then show ?case using srv_inv_step by blast
qed

section \<open>Properties\<close>

text \<open>A connected server: client 7, whose kernel takes 12 bytes and then times out after 5.\<close>

definition ex_junk :: bytes where "ex_junk = replicate 2048 CHR ''j''"

definition ex_rx :: g_receive_para where
  "ex_rx = snd (InitReceThread (replicate 10240 NUL) (replicate 10240 NUL) 0 7)"

definition ex_srv :: srv where
  "ex_srv = \<lparr>sv = (snd (InitServerThread 0))\<lparr>g_receive := Some 3, waiting := STATE_CONNECTED, send_enable := 1\<rparr>,
     rx_heap = [3 \<mapsto> ex_rx], wire = [], send_env = [(12, False), (5, True)]\<rparr>"

lemma mq_ready_ex_queue: "mq_ready 5 ex_queue"
  by (simp add: ex_queue_def mq_ready_def)

lemma length_ex_junk [simp]: "length ex_junk = 2048"
  by (simp add: ex_junk_def)

lemma ex_srv_simps [simp]:
  "g_receive (sv ex_srv) = Some 3" "waiting (sv ex_srv) = 2" "send_enable (sv ex_srv) = 1"
  "rx_heap ex_srv = [3 \<mapsto> ex_rx]" "pt_mutex (sv_para_t (sv ex_srv)) = Unlocked"
  "send_env ex_srv = [(12, False), (5, True)]" "wire ex_srv = []"
  by (simp_all add: ex_srv_def InitServerThread_def newThreadPara_def)

lemma ex_rx_simps [simp]: "receive_running ex_rx = 1" "connfd ex_rx = 7"
  by (simp_all add: ex_rx_def InitReceThread_def)



text \<open>
  Property C13: In every state the server reaches by accepting clients, sending, enabling the
  link and stopping the receiver of a connected client, in any order and each as one
  step, the state is \<open>STATE_CONNECTED\<close> exactly when there is a receiver object, that object is
  live, the send mutex is free, and a send of a zero-terminated message has a result.
\<close>
theorem server_reach_safe:
  assumes "srv_reach junk q0 (s, q)"
  shows "(waiting (sv s) = STATE_CONNECTED \<longleftrightarrow> g_receive (sv s) \<noteq> None) \<and>
    pt_mutex (sv_para_t (sv s)) = Unlocked \<and>
    (waiting (sv s) = STATE_CONNECTED \<and> zero_ended buf \<longrightarrow>
       (\<exists>ret s'. sendToPc buf (int (length buf)) s = Inr (ret, s')))"
proof -
  from srv_reach_inv [OF assms] have inv: "srv_inv s" by simp
  have "\<exists>ret s'. sendToPc buf (int (length buf)) s = Inr (ret, s')"
    if w: "waiting (sv s) = STATE_CONNECTED" "zero_ended buf"
  proof -
    from inv w(1) obtain a r where "g_receive (sv s) = Some a" "rx_heap s a = Some r"
      unfolding srv_inv_def by blast
    with w have "link_ready (connfd r) s" by (simp add: link_ready_def)
    with w(2) show ?thesis using sendToPc_up sendToPc_down by blast
  qed
  with inv show ?thesis unfolding srv_inv_def by blast
qed

theorem server_reach_safe_witness:
  "\<exists>s q ret s'. srv_reach ex_junk ex_queue (s, q) \<and> waiting (sv s) = STATE_CONNECTED \<and> g_receive (sv s) = Some 3 \<and>
    sendToPc (replicate 9 NUL) (int (length (replicate 9 NUL))) s = Inr (ret, s')"
proof -
  let ?s = "\<lparr>sv = snd (InitServerThread 0), rx_heap = Map.empty, wire = [], send_env = []\<rparr>"
  obtain q where q: "postMsg ex_junk MSG_ACCEPT_NEW_CLIENT None 0 ex_queue = Inr q"
    using postMsg_ready [OF mq_ready_ex_queue [unfolded eval_nat_numeral(3)], of MSG_ACCEPT_NEW_CLIENT ex_junk]
    by (auto simp del: postMsg_NULL)
  obtain t where t: "runServer_accept ex_junk [] [] 0 3 7 (?s, ex_queue) = Inr (t, q)"
    "waiting (sv t) = STATE_CONNECTED" "g_receive (sv t) = Some 3"
    using q by (simp add: runServer_accept_def InitReceThread_def del: postMsg_NULL)
  have r: "srv_reach ex_junk ex_queue (t, q)"
    by (rule srv_reach.Step [OF srv_reach.Init srv_step.Accept]) (use t in simp_all)
  have "zero_ended (replicate 9 NUL)" by (simp add: zero_ended_def)
  with server_reach_safe [OF r, of "replicate 9 NUL"] t(2,3) r show ?thesis by blast
qed

text \<open>
  Stopping the receiver of a connected client removes its object, leaves the
  server disconnected and posts \<open>MSG_RECEIVE_THREAD_CLOSED\<close>; from then on, until the next
  client, \<open>sendToPc\<close> follows a null pointer: it counts the call in \<open>g_receive\<close> before its
  test \<open>g_receive == NULL\<close>.
\<close>
lemma stop_then_send:
  assumes "g_receive (sv s) = Some a" and "rx_heap s a = Some r"
    and "pt_mutex (sv_para_t (sv s)) = Unlocked" and "mq_ready (Suc n) q" and "length junk = 2048"
  shows "\<exists>s' q'. stopReceThread ovl junk None (s, q) = Some (Inr (s', q')) \<and>
    g_receive (sv s') = None \<and> rx_heap s' a = None \<and> waiting (sv s') = STATE_DISCONNECTED \<and>
    mq_evs q' = mq_evs q @ [(MSG_RECEIVE_THREAD_CLOSED, 0, take 2040 junk)] \<and>
    sendToPc buf len s' = Inl NullDeref"
  using stop_connected [OF assms, of ovl]
  by (auto simp: sendToPc_def sendToPc_enter_def deref_rx_def)

lemma stop_then_send_witness:
  "\<exists>s' q'. stopReceThread True ex_junk None (ex_srv, ex_queue) = Some (Inr (s', q')) \<and>
    g_receive (sv s') = None \<and> rx_heap s' 3 = None \<and> waiting (sv s') = STATE_DISCONNECTED \<and>
    mq_evs q' = mq_evs ex_queue @ [(MSG_RECEIVE_THREAD_CLOSED, 0, take 2040 ex_junk)] \<and>
    sendToPc [] 0 s' = Inl NullDeref"
  by (rule stop_then_send [where n = 4 and r = ex_rx]) (use mq_ready_ex_queue in simp_all)



text \<open>
  The accept loop does not look at the client it has: a second client takes the
  place of a connected one, and when the receiver is stopped later, the first client's
  object is still allocated and its thread still runs.
\<close>
lemma second_client_leaks_first:
  assumes "g_receive (sv s) = Some a" and "rx_heap s a = Some r" and "receive_running r = 1"
    and "pt_mutex (sv_para_t (sv s)) = Unlocked" and "rx_heap s b = None" and "fd \<noteq> - 1"
    and "mq_ready (Suc (Suc n)) q" and "length junk = 2048"
  shows "\<exists>s1 q1 s2 q2. runServer_accept junk sbuf rbuf 0 b fd (s, q) = Inr (s1, q1) \<and>
    g_receive (sv s1) = Some b \<and>
    stopReceThread ovl junk None (s1, q1) = Some (Inr (s2, q2)) \<and>
    g_receive (sv s2) = None \<and> rx_heap s2 b = None \<and> rx_heap s2 a = Some r \<and> receive_running r = 1"
proof -
  obtain q1 where q1: "postMsg junk MSG_ACCEPT_NEW_CLIENT None 0 q = Inr q1" "mq_ready (Suc n) q1"
    using postMsg_ready [OF assms(7) _ assms(8), of MSG_ACCEPT_NEW_CLIENT] by (auto simp del: postMsg_NULL)
  from assms q1(1) obtain s1 r1 where s1: "runServer_accept junk sbuf rbuf 0 b fd (s, q) = Inr (s1, q1)"
    "g_receive (sv s1) = Some b" "rx_heap s1 = (rx_heap s)(b \<mapsto> r1)" "pt_mutex (sv_para_t (sv s1)) = Unlocked"
    by (simp add: runServer_accept_def InitReceThread_def del: postMsg_NULL)
  have ab: "a \<noteq> b" using assms(2,5) by auto
  from stop_connected [OF s1(2) _ s1(4) q1(2) assms(8), of r1 ovl] s1 obtain q2 where
    "stopReceThread ovl junk None (s1, q1) = Some (Inr (s1\<lparr>rx_heap := (rx_heap s1)(b := None),
       sv := (sv s1)\<lparr>g_receive := None, waiting := STATE_DISCONNECTED\<rparr>\<rparr>, q2))" by auto
  with s1 ab assms(2,3) show ?thesis by auto
qed

lemma second_client_leaks_first_witness:
  "\<exists>s1 q1 s2 q2. runServer_accept ex_junk [] [] 0 4 8 (ex_srv, ex_queue) = Inr (s1, q1) \<and>
    g_receive (sv s1) = Some 4 \<and>
    stopReceThread True ex_junk None (s1, q1) = Some (Inr (s2, q2)) \<and>
    g_receive (sv s2) = None \<and> rx_heap s2 4 = None \<and> rx_heap s2 3 = Some ex_rx \<and> receive_running ex_rx = 1"
  by (rule second_client_leaks_first [where n = 3]) (use mq_ready_ex_queue in simp_all)

end
