(* ===== verification/GW_ProcBroker.thy ===== *)
theory GW_ProcBroker
  imports GW_JsonRoundTrip GW_Broker GW_Server
begin

text \<open>
  \<open>src/code/src/procBroker.c\<close>: between the TCP client and the broker.  Requests of the client are
  transferred to the processes \<open>mon\<close>, \<open>gpio\<close>, \<open>reg\<close> and \<open>rf\<close> and their replies are sent to the client as
  frames; published system states and RSSI values are forwarded.

  A block of memory is its bytes.  A reply or a published message lies in a block of exactly its length
  (\<open>broker.c\<close> copies the payload without a terminating zero); \<open>e_tail\<close> is what an access finds
  behind the end of such a block.  ISO C gives such an access no meaning: that is
  the case \<open>e_tail = []\<close>.  Other values are what an allocator's slack may hold.
\<close>

section \<open>State and environment\<close>

text \<open>
  What a \<open>dev_transfer\<close> meets: the addresses of its entries, the library's answer to the publication, the
  messages that arrive during the wait, and what the timed wait returns.
\<close>

record xfer =
  x_addr :: nat
  x_waddr :: nat
  x_ack :: ack_env
  x_msgs :: "(bytes \<times> bytes) list"
  x_timed :: int

definition no_answer :: xfer where
  "no_answer = \<lparr>x_addr = 0, x_waddr = 0, x_ack = \<lparr>rc = 0, new_mid = 1, acked = [1], timedwait = 0\<rparr>,
     x_msgs = [], x_timed = ETIMEDOUT\<rparr>"

record 'd env =
  e_dbl :: "'d dbl"
  e_hooks :: internal_hooks
  e_matches :: "bytes \<Rightarrow> bytes \<Rightarrow> bool"
  e_tail :: bytes

text \<open>\<open>g_broker_para\<close> with what its pointers lead to: the library's object and the server.\<close>

record g_broker_para =
  share_buf :: bytes
  share_len :: int
  rssi_state :: int
  lib :: g_broker_s
  psv :: srv
  xfers :: "xfer list"

definition MAXSHAREBUF_SIZE :: nat where [simp]: "MAXSHAREBUF_SIZE = 1024 * 60"
definition HEADROOM :: nat where [simp]: "HEADROOM = 8"
definition MAX_RSSI_NO :: int where [simp]: "MAX_RSSI_NO = 60000"

definition c_string :: "bytes \<Rightarrow> bytes res" where
  "c_string b = (if NUL \<in> set b then Inr (cstr b) else Inl OutOfBounds)"

definition need :: "'a option \<Rightarrow> 'a res" where
  "need p = (case p of None \<Rightarrow> Inl NullDeref | Some x \<Rightarrow> Inr x)"

lemma need_simps [simp]: "need None = Inl NullDeref" "need (Some x) = Inr x"
  by (simp_all add: need_def)

text \<open>\<open>cJSON_Parse\<close> always ends (\<open>parse_safe_and_total\<close>); the last case is not taken.\<close>

definition json_of :: "'d dbl \<Rightarrow> bytes \<Rightarrow> 'd cJSON option res" where
  "json_of D s = (case cJSON_Parse D (Some s) of Some r \<Rightarrow> r | None \<Rightarrow> Inl Uninitialised)"

definition print_text :: "internal_hooks \<Rightarrow> 'd dbl \<Rightarrow> 'd cJSON option \<Rightarrow> bytes res" where
  "print_text H D item = res_bind (cJSON_Print H D item) (\<lambda>c. res_bind (need c) block_text)"

text \<open>\<open>cJSON_GetObjectItem(root, name)->valuestring\<close>.\<close>

definition member_text :: "'d cJSON option \<Rightarrow> bytes \<Rightarrow> bytes option res" where
  "member_text root name =
     res_bind (cJSON_GetObjectItem root (Some name)) (\<lambda>i. res_bind (need (child_at root i)) (\<lambda>c. Inr (cj_valuestring c)))"

definition transfer ::
    "'d env \<Rightarrow> bytes \<Rightarrow> int \<Rightarrow> bytes option \<Rightarrow> g_broker_para \<Rightarrow> (int \<times> (bytes option \<times> int) \<times> g_broker_para) res" where
  "transfer E buf buf_len dst p =
     (let (x, xs) = (case xfers p of [] \<Rightarrow> (no_answer, []) | x # xs \<Rightarrow> (x, xs))
      in res_bind (dev_transfer (e_matches E) (x_addr x) (x_waddr x) (x_ack x) (x_msgs x) (x_timed x) (Some buf) buf_len dst (lib p))
           (\<lambda>(ret, stat, l). Inr (ret, stat, p\<lparr>lib := l, xfers := xs\<rparr>)))"

section \<open>Frames to the client\<close>

text \<open>The block that is sent: length, type, and \<open>stat_buf_len\<close> bytes copied from \<open>stat_buf\<close>.\<close>

definition sendStateInquiry :: "bytes \<Rightarrow> int \<Rightarrow> int \<Rightarrow> srv \<Rightarrow> srv res" where
  "sendStateInquiry stat_buf stat_buf_len type s =
     res_bind (rd stat_buf 0 stat_buf_len) (\<lambda>d.
     res_bind (sendToPc (le32 (stat_buf_len + 4) @ le32 type @ d) (stat_buf_len + 4 + 4) s) (\<lambda>(ret, s'). Inr s'))"

definition send_rf_mf_State :: "bytes \<Rightarrow> int \<Rightarrow> srv \<Rightarrow> srv res" where
  "send_rf_mf_State stat_buf stat_buf_len s =
     res_bind (rd stat_buf 0 stat_buf_len) (\<lambda>d.
     res_bind (sendToPc (le32 (stat_buf_len + 4) @ le32 5 @ d) (stat_buf_len + 4 + 4) s) (\<lambda>(ret, s'). Inr s'))"

text \<open>
  \<open>struct rssi_priv\<close>, packed: two 32-bit words of time, the length, the values.  \<open>buf\<close> is the received
  block with what lies behind it; the length is the sender's and is not compared with \<open>buf_len\<close>.
\<close>

text \<open>
  \<open>print_rssi_struct\<close> fills the one shared buffer and then hands it to \<open>sendToPc\<close>.  Nothing keeps a second callback thread
  out in between, so the two halves are separate definitions.
\<close>

definition rssi_fill :: "bytes \<Rightarrow> g_broker_para \<Rightarrow> (int \<times> g_broker_para) res" where
  "rssi_fill buf p =
     res_bind (rd buf 0 12) (\<lambda>h.
       let tv_sec = un_le32 (take 4 h);
           tv_usec = un_le32 (take 4 (drop 4 h));
           rssi_buf_len = un_le32 (take 4 (drop 8 h))
       in res_bind (chk32 (4 + 4 + 4 + rssi_buf_len)) (\<lambda>msg_len.
          res_bind (chk32 (msg_len + 4 + 4)) (\<lambda>len.
          res_bind (wr (share_buf p) 0 (le32 (msg_len + 4) @ le32 1 @ le32 tv_sec @ le32 tv_usec @ le32 rssi_buf_len)) (\<lambda>b1.
          res_bind (rd buf 12 rssi_buf_len) (\<lambda>d.
          res_bind (wr b1 20 d) (\<lambda>b2. Inr (len, p\<lparr>share_buf := b2\<rparr>)))))))"

definition rssi_send :: "int \<Rightarrow> g_broker_para \<Rightarrow> g_broker_para res" where
  "rssi_send len p = res_bind (sendToPc (share_buf p) len (psv p)) (\<lambda>(ret, s). Inr (p\<lparr>psv := s\<rparr>))"

definition print_rssi_struct :: "bytes \<Rightarrow> g_broker_para \<Rightarrow> g_broker_para res" where
  "print_rssi_struct buf p = res_bind (rssi_fill buf p) (\<lambda>(len, p1). rssi_send len p1)"

lemma print_rssi_struct_unfold:
  "print_rssi_struct buf p =
     res_bind (rd buf 0 12) (\<lambda>h.
       let tv_sec = un_le32 (take 4 h);
           tv_usec = un_le32 (take 4 (drop 4 h));
           rssi_buf_len = un_le32 (take 4 (drop 8 h))
       in res_bind (chk32 (4 + 4 + 4 + rssi_buf_len)) (\<lambda>msg_len.
          res_bind (chk32 (msg_len + 4 + 4)) (\<lambda>len.
          res_bind (wr (share_buf p) 0 (le32 (msg_len + 4) @ le32 1 @ le32 tv_sec @ le32 tv_usec @ le32 rssi_buf_len)) (\<lambda>b1.
          res_bind (rd buf 12 rssi_buf_len) (\<lambda>d.
          res_bind (wr b1 20 d) (\<lambda>b2.
          res_bind (sendToPc b2 len (psv p)) (\<lambda>(ret, s). Inr (p\<lparr>share_buf := b2, psv := s\<rparr>))))))))"
  unfolding print_rssi_struct_def rssi_fill_def rssi_send_def Let_def res_bind_def
  by (auto split: sum.splits)

section \<open>Published messages\<close>

definition process_exception :: "'d env \<Rightarrow> bytes \<Rightarrow> int \<Rightarrow> bytes \<Rightarrow> g_broker_para \<Rightarrow> (int \<times> g_broker_para) res" where
  "process_exception E buf buf_len from p =
     (if waiting (sv (psv p)) = STATE_DISCONNECTED then Inr (- 1, p)
      else if from = ''mon/all/pub/system_stat'' then
        res_bind (c_string (buf @ e_tail E)) (\<lambda>_.
        res_bind (sendStateInquiry (buf @ e_tail E) (buf_len + 1) 41 (psv p)) (\<lambda>s. Inr (0, p\<lparr>psv := s\<rparr>)))
      else if from = ''rf/all/pub/rssi'' then
        res_bind (print_rssi_struct (buf @ e_tail E) p) (\<lambda>p'. Inr (0, p'))
      else Inr (0, p))"

text \<open>The registered functions by their number: \<open>process_exception\<close> is 1, and there is no other.\<close>

definition run_callback :: "'d env \<Rightarrow> nat \<Rightarrow> bytes \<Rightarrow> int \<Rightarrow> bytes \<Rightarrow> g_broker_para \<Rightarrow> (int \<times> g_broker_para) res" where
  "run_callback E f buf buf_len from p = (if f = 1 then process_exception E buf buf_len from p else Inl NullDeref)"

section \<open>Starting and stopping\<close>

text \<open>\<open>memory\<close> is what the fresh block for \<open>share_buf\<close> holds.\<close>

definition initProcBroker ::
    "nat \<Rightarrow> init_env \<Rightarrow> bytes \<Rightarrow> bytes \<Rightarrow> xfer list \<Rightarrow> g_broker_s \<Rightarrow> srv \<Rightarrow> (int \<times> g_broker_para) res" where
  "initProcBroker aw env argv memory xs l s =
     res_bind (init_broker aw env (get_prog_name argv) None (- 1) None l) (\<lambda>(ret, l').
       Inr (if ret \<noteq> 0 then - 2 else 0,
            \<lparr>share_buf = take MAXSHAREBUF_SIZE memory, share_len = 0, rssi_state = 0, lib = l', psv = s, xfers = xs\<rparr>))"

text \<open>The topic becomes \<open>+/all/pub/#\<close>.\<close>

definition broker_register_callback :: "nat \<Rightarrow> nat \<Rightarrow> ack_env \<Rightarrow> g_broker_para \<Rightarrow> int \<times> g_broker_para" where
  "broker_register_callback a aw env p =
     (let (ret, l) = register_callback a aw env (Some ''all'') (Some 1) (Some ''#'') (lib p)
      in (if ret \<noteq> 0 then - 1 else 0, p\<lparr>lib := l\<rparr>))"

definition freeProcBroker :: "bool \<Rightarrow> g_broker_para \<Rightarrow> g_broker_s" where
  "freeProcBroker ends p = snd (close_broker ends (lib p))"

section \<open>Requests of the client\<close>

definition inquiry_type :: "bytes \<Rightarrow> 'd cJSON option \<Rightarrow> int option res" where
  "inquiry_type dst root =
     (if dst = ''mon'' then Inr (Some 41)
      else if dst = ''gpio'' then Inr (Some 51)
      else if dst = ''reg'' then
        res_bind (member_text root ''gw_type'') (\<lambda>t. res_bind (need t) (\<lambda>t. Inr (Some (if t = ''fpga'' then 32 else 31))))
      else Inr None)"

definition inquiry_state_from :: "'d env \<Rightarrow> bytes \<Rightarrow> int \<Rightarrow> g_broker_para \<Rightarrow> (int \<times> g_broker_para) res" where
  "inquiry_state_from E buf buf_len p =
     res_bind (c_string buf) (\<lambda>txt.
     res_bind (json_of (e_dbl E) txt) (\<lambda>root.
     res_bind (member_text root ''dst'') (\<lambda>dst.
     res_bind (transfer E buf buf_len dst p) (\<lambda>(ret, (stat_buf, stat_buf_len), p1).
     res_bind (cJSON_GetObjectItem root (Some ''gw_type'')) (\<lambda>_.
       if ret = 0 \<and> stat_buf_len > 0 \<and> g_receive (sv (psv p)) \<noteq> None then
         res_bind (need dst) (\<lambda>dst.
         res_bind (inquiry_type dst root) (\<lambda>ty. case ty of
             None \<Rightarrow> Inr (ret, p1)
           | Some ty \<Rightarrow>
               res_bind (need stat_buf) (\<lambda>stat.
               res_bind (sendStateInquiry (stat @ e_tail E) (stat_buf_len + 1) ty (psv p1)) (\<lambda>s.
                 Inr (ret, p1\<lparr>psv := s\<rparr>)))))
       else Inr (ret, p1))))))"

text \<open>
  The function has no \<open>return\<close> statement; its result is not used.  The reply is logged with \<open>%s\<close>.
\<close>

definition rssi_state_change :: "'d env \<Rightarrow> bytes \<Rightarrow> int \<Rightarrow> g_broker_para \<Rightarrow> g_broker_para res" where
  "rssi_state_change E buf buf_len p =
     res_bind (c_string buf) (\<lambda>txt.
     res_bind (json_of (e_dbl E) txt) (\<lambda>root.
     res_bind (member_text root ''dst'') (\<lambda>dst.
     res_bind (transfer E buf buf_len dst p) (\<lambda>(ret, (stat_buf, stat_buf_len), p1).
       if ret = 0 \<and> stat_buf_len > 0 \<and> g_receive (sv (psv p1)) \<noteq> None then
         res_bind (member_text root ''timer'') (\<lambda>t.
         res_bind (need t) (\<lambda>t.
         res_bind (need stat_buf) (\<lambda>stat.
         res_bind (c_string (stat @ e_tail E)) (\<lambda>_.
           Inr (p1\<lparr>rssi_state := (if t = ''0'' then 0 else 1)\<rparr>)))))
       else Inr p1))))"

section \<open>Requests built here\<close>

text \<open>
  Objects are built from the inside out: the program adds \<open>op_cmd\<close> and its element while they
  are still empty and fills them through their pointers afterwards, which gives the same tree.
\<close>

fun add_strings :: "'d dbl \<Rightarrow> (bytes \<times> bytes option) list \<Rightarrow> 'd cJSON option \<Rightarrow> 'd cJSON option" where
  "add_strings D [] ob = ob"
| "add_strings D ((k, v) # r) ob = add_strings D r (snd (cJSON_AddStringToObject D ob (Some k) v))"

definition op_cmd_request :: "'d dbl \<Rightarrow> (bytes \<times> bytes option) list \<Rightarrow> (bytes \<times> bytes option) list \<Rightarrow> 'd cJSON option" where
  "op_cmd_request D fs cmd =
     (let arrayobj = add_strings D cmd (Some (cJSON_CreateObject D));
          array = cJSON_AddItemToArray (Some (cJSON_CreateArray D)) arrayobj
      in cJSON_AddItemToObject (add_strings D fs (Some (cJSON_CreateObject D))) (Some ''op_cmd'') array)"

definition close_rssi_request :: "'d dbl \<Rightarrow> 'd cJSON option" where
  "close_rssi_request D =
     op_cmd_request D
       [(''dev'', Some ''/dev/i2c-0''), (''addr'', Some ''0x4a''), (''force'', Some ''0x1''), (''type'', Some ''rssi''),
        (''timer'', Some ''0''), (''pub_no'', Some ''1''), (''dst'', Some ''rf'')]
       [(''_comment'', Some ''rssi''), (''cmd'', Some ''0''), (''reg'', Some ''0x0a''), (''size'', Some ''1'')]"

definition close_rssi :: "'d env \<Rightarrow> g_broker_para \<Rightarrow> g_broker_para res" where
  "close_rssi E p =
     (if rssi_state p = 0 then Inr p
      else res_bind (print_text (e_hooks E) (e_dbl E) (close_rssi_request (e_dbl E))) (\<lambda>t.
        rssi_state_change E (t @ [NUL]) (int (length t)) p))"

definition i2c_request :: "'d dbl \<Rightarrow> bytes \<Rightarrow> bytes \<Rightarrow> (bytes \<times> bytes option) list \<Rightarrow> 'd cJSON option" where
  "i2c_request D dev addr cmd =
     op_cmd_request D [(''dev'', Some dev), (''addr'', Some addr), (''force'', Some ''0x1''), (''dst'', Some ''rf'')] cmd"

definition i2cset :: "'d env \<Rightarrow> bytes \<Rightarrow> bytes \<Rightarrow> bytes \<Rightarrow> int \<Rightarrow> bytes option \<Rightarrow> g_broker_para \<Rightarrow> (int \<times> g_broker_para) res" where
  "i2cset E dev addr reg sz data p =
     (let D = e_dbl E;
          root = i2c_request D dev addr ([(''_comment'', Some ''R0''), (''cmd'', Some ''1''), (''reg'', Some reg)] @
            (if sz = 0 then [(''size'', Some ''0'')]
             else if sz = 1 then [(''size'', Some ''1''), (''data'', data)] else []))
      in res_bind (print_text (e_hooks E) D root) (\<lambda>t.
         res_bind (member_text root ''dst'') (\<lambda>dst.
         res_bind (transfer E (t @ [NUL]) (int (length t)) dst p) (\<lambda>(ret, (stat_buf, stat_buf_len), p1).
           if ret = 0 \<and> stat_buf_len > 0 then
             res_bind (need stat_buf) (\<lambda>stat.
             res_bind (c_string (stat @ e_tail E)) (\<lambda>txt.
             res_bind (json_of D txt) (\<lambda>root.
             res_bind (member_text root ''stat'') (\<lambda>st.
             res_bind (need st) (\<lambda>_. Inr (0, p1))))))
           else Inr (0, p1)))))"

text \<open>
  The loop over the array \<open>return\<close>: each turn allocates 32 bytes (an earlier block is lost) and copies the
  string into them.
\<close>

fun i2cget_loop :: "'d cJSON list \<Rightarrow> bytes option \<Rightarrow> bytes option res" where
  "i2cget_loop [] ret_return = Inr ret_return"
| "i2cget_loop (c # cs) ret_return =
     res_bind (member_text (Some c) ''ret'') (\<lambda>r.
     res_bind (need r) (\<lambda>ret_tmp.
       if 32 < length ret_tmp + 1 then Inl OutOfBounds else i2cget_loop cs (Some ret_tmp)))"

definition i2cget :: "'d env \<Rightarrow> bytes \<Rightarrow> bytes \<Rightarrow> bytes \<Rightarrow> int \<Rightarrow> g_broker_para \<Rightarrow> (bytes option \<times> g_broker_para) res" where
  "i2cget E dev addr reg sz p =
     (let D = e_dbl E;
          root = i2c_request D dev addr ([(''_comment'', Some ''R0''), (''cmd'', Some ''0''), (''reg'', Some reg)] @
            (if sz = 1 then [(''size'', Some ''1'')] else if sz = 2 then [(''size'', Some ''2'')] else []))
      in res_bind (print_text (e_hooks E) D root) (\<lambda>t.
         res_bind (member_text root ''dst'') (\<lambda>dst.
         res_bind (transfer E (t @ [NUL]) (int (length t)) dst p) (\<lambda>(ret, (stat_buf, stat_buf_len), p1).
           if ret = 0 \<and> stat_buf_len > 0 then
             res_bind (need stat_buf) (\<lambda>stat.
             res_bind (c_string (stat @ e_tail E)) (\<lambda>txt.
             res_bind (json_of D txt) (\<lambda>root.
             res_bind (member_text root ''stat'') (\<lambda>st.
             res_bind (need st) (\<lambda>st.
               if st \<noteq> ''0'' then Inr (None, p1)
               else res_bind (cJSON_GetObjectItem root (Some ''return'')) (\<lambda>i.
                 case child_at root i of
                   None \<Rightarrow> Inr (None, p1)
                 | Some arr \<Rightarrow> res_bind (i2cget_loop (cj_child arr) None) (\<lambda>r. Inr (r, p1))))))))
           else Inr (None, p1)))))"

definition ad7417_temperature :: "'d env \<Rightarrow> g_broker_para \<Rightarrow> (bytes option \<times> g_broker_para) res" where
  "ad7417_temperature E p =
     res_bind (i2cset E ''/dev/i2c-1'' ''0x28'' ''0x00'' 0 None p) (\<lambda>(_, p1).
     res_bind (i2cset E ''/dev/i2c-1'' ''0x28'' ''0x01'' 1 (Some ''0x00'') p1) (\<lambda>(_, p2).
     i2cget E ''/dev/i2c-1'' ''0x28'' ''0x00'' 2 p2))"

record ret_byte =
  low :: "bytes option"
  high :: "bytes option"

definition rf_current :: "'d env \<Rightarrow> g_broker_para \<Rightarrow> (ret_byte \<times> g_broker_para) res" where
  "rf_current E p =
     res_bind (i2cset E ''/dev/i2c-1'' ''0x48'' ''0x19'' 1 (Some ''0x14'') p) (\<lambda>(_, p1).
     res_bind (i2cget E ''/dev/i2c-1'' ''0x48'' ''0x0a'' 1 p1) (\<lambda>(h, p2).
     res_bind (i2cget E ''/dev/i2c-1'' ''0x48'' ''0x04'' 1 p2) (\<lambda>(l, p3). Inr (\<lparr>low = l, high = h\<rparr>, p3))))"

text \<open>A value that was not read is a null pointer, for which nothing is added.\<close>

definition rf_and_mf_report :: "'d dbl \<Rightarrow> bytes option \<Rightarrow> ret_byte \<Rightarrow> 'd cJSON option" where
  "rf_and_mf_report D t c =
     add_strings D [(''ad7417_temper'', t), (''rf_cur_low'', low c), (''rf_cur_high'', high c)] (Some (cJSON_CreateObject D))"

definition inquiry_rf_and_mf :: "'d env \<Rightarrow> g_broker_para \<Rightarrow> (int \<times> g_broker_para) res" where
  "inquiry_rf_and_mf E p =
     res_bind (ad7417_temperature E p) (\<lambda>(t, p1).
     res_bind (rf_current E p1) (\<lambda>(c, p2).
     res_bind (print_text (e_hooks E) (e_dbl E) (rf_and_mf_report (e_dbl E) t c)) (\<lambda>txt.
     res_bind (send_rf_mf_State (txt @ [NUL]) (int (length txt) + 1) (psv p2)) (\<lambda>s.
       Inr (0, p2\<lparr>psv := s\<rparr>)))))"

section \<open>Lemmas\<close>

lemma get_item_total: "\<exists>i. cJSON_GetObjectItem root (Some n) = Inr i"
proof -
  have "\<exists>i. find_name n False cs k = Inr i" for cs :: "'a cJSON list" and k
    by (induction cs arbitrary: k) auto
  then show ?thesis by (cases root) (auto simp: cJSON_GetObjectItem_def get_object_item_def)
qed

lemma transfer_frame:
  assumes "transfer E buf n dst p = Inr (ret, stat, p1)"
  shows "psv p1 = psv p" "rssi_state p1 = rssi_state p" "share_buf p1 = share_buf p"
  using assms by (auto simp: transfer_def Let_def res_bind_eq_Inr split: prod.splits)

lemma take_mk_frame: "le32 (int (length d) + 4) @ le32 ty @ d = mk_frame (ty, d)"
  by (simp add: mk_frame_def)

text \<open>A frame handed to a link that is up.\<close>

definition forwarded :: "int \<Rightarrow> frame \<Rightarrow> srv \<Rightarrow> srv \<Rightarrow> bool" where
  "forwarded fd f s s' \<longleftrightarrow> link_ready fd s' \<and>
     (\<exists>k. sent_on fd s' = sent_on fd s @ take k (mk_frame f) \<and> (k < length (mk_frame f) \<longrightarrow> \<not> send_up s'))"

lemma sendStateInquiry_forwards:
  assumes "link_ready fd s" and "send_up s" and "n \<le> length b" and "NUL \<in> set (take n b)"
  shows "\<exists>s'. sendStateInquiry b (int n) ty s = Inr s' \<and> forwarded fd (ty, take n b) s s'"
proof -
  have r: "rd b 0 (int n) = Inr (take n b)" using assms(3) by (simp add: rd_def)
  have f: "le32 (int n + 4) @ le32 ty @ take n b = mk_frame (ty, take n b)" "length (mk_frame (ty, take n b)) = n + 8"
    using assms(3) by (simp_all add: mk_frame_def min_def)
  have "zero_ended (mk_frame (ty, take n b))" using assms(4) by (simp add: zero_ended_def mk_frame_def)
  from sendToPc_up [OF assms(1,2) this] obtain ret s' k where
    "sendToPc (mk_frame (ty, take n b)) (int (n + 8)) s = Inr (ret, s')" "link_ready fd s'"
    "sent_on fd s' = sent_on fd s @ take k (mk_frame (ty, take n b))" "k < n + 8 \<longrightarrow> \<not> send_up s'"
    using f(2) by auto
  with r f show ?thesis by (auto simp: sendStateInquiry_def forwarded_def add.commute)
qed

lemma send_rf_mf_is_type_5: "send_rf_mf_State b n s = sendStateInquiry b n 5 s"
  by (simp add: send_rf_mf_State_def sendStateInquiry_def)

lemma link_up_receiver: "link_ready fd s \<Longrightarrow> g_receive (sv s) \<noteq> None"
  by (auto simp: link_ready_def)

lemma inquiry_answered:
  assumes "NUL \<in> set buf" and "json_of (e_dbl E) (cstr buf) = Inr root"
    and "member_text root ''dst'' = Inr (Some dst)" and "inquiry_type dst root = Inr (Some ty)"
    and "transfer E buf n (Some dst) p = Inr (0, (Some stat, int (length stat)), p1)"
    and "stat \<noteq> []" and "g_receive (sv (psv p)) \<noteq> None"
  shows "inquiry_state_from E buf n p =
    res_bind (sendStateInquiry (stat @ e_tail E) (int (length stat) + 1) ty (psv p)) (\<lambda>s. Inr (0, p1\<lparr>psv := s\<rparr>))"
proof -
  obtain i where i: "cJSON_GetObjectItem root (Some ''gw_type'') = Inr i" using get_item_total by blast
  from assms i transfer_frame(1) [OF assms(5)] show ?thesis
    by (simp add: inquiry_state_from_def c_string_def)
qed

section \<open>The requests built here, and their texts\<close>

lemma add_strings_Some:
  "list_all (\<lambda>(k, v). v \<noteq> None) kvs \<Longrightarrow>
     add_strings D kvs (Some ob) =
       Some (with_child (cj_child ob @ map (\<lambda>(k, v). CJ cJSON_String v 0 (d_zero D) (Some k) []) kvs) ob)"
proof (induction kvs arbitrary: ob)
  case Nil
  then show ?case by (simp add: with_child_def)
next
  case (Cons kv kvs)
  then show ?case
    by (auto simp: cJSON_AddStringToObject_def add_created_def cJSON_CreateString_def cJSON_strdup_def
        add_item_to_object_Some named_def with_string_def with_type_def with_child_def)
qed

lemma print_text_rendered:
  assumes "printable D x" and "\<forall>s. h_grant H s" and "length (render D True 0 x) + 2 \<le> SIZE_INT_MAX"
  shows "print_text H D (Some x) = Inr (render D True 0 x)"
proof -
  from print_text_ok [OF assms(1), of H True] assms(2,3) have
    "print H D (Some x) True = Inr (Some (map Some (render D True 0 x @ [NUL])))" by blast
  with block_text_exact [OF render_no_zero [OF assms(1)], of True 0 "[]"] show ?thesis
    by (simp add: print_text_def cJSON_Print_def)
qed

definition pairs_ok :: "(bytes \<times> bytes option) list \<Rightarrow> bool" where
  "pairs_ok kvs \<longleftrightarrow> list_all (\<lambda>(k, v). v \<noteq> None \<and> NUL \<notin> set k \<and> NUL \<notin> set (the v)) kvs"

abbreviation strings_of :: "'d dbl \<Rightarrow> (bytes \<times> bytes option) list \<Rightarrow> 'd cJSON list" where
  "strings_of D kvs \<equiv> map (\<lambda>(k, v). CJ cJSON_String v 0 (d_zero D) (Some k) []) kvs"

lemma op_cmd_request_tree:
  assumes "pairs_ok fs" and "pairs_ok cmd"
  shows "op_cmd_request D fs cmd =
    Some (CJ cJSON_Object None 0 (d_zero D) None
      (strings_of D fs @ [CJ cJSON_Array None 0 (d_zero D) (Some ''op_cmd'')
         [CJ cJSON_Object None 0 (d_zero D) None (strings_of D cmd)]]))"
proof -
  have "list_all (\<lambda>(k, v). v \<noteq> None) fs" "list_all (\<lambda>(k, v). v \<noteq> None) cmd"
    using assms by (auto simp: pairs_ok_def list_all_iff)
  then show ?thesis
    by (simp add: op_cmd_request_def Let_def add_strings_Some cJSON_CreateObject_def cJSON_CreateArray_def
        cJSON_New_Item_def with_child_def with_type_def with_string_def cJSON_AddItemToArray_def add_item_to_array_def
        cJSON_AddItemToObject_def add_item_to_object_Some named_def)
qed

lemma strings_of_ok:
  "pairs_ok kvs \<Longrightarrow> list_all (reads_back D) (strings_of D kvs) \<and> list_all (printable D) (strings_of D kvs) \<and>
     list_all (\<lambda>c. cj_string c \<noteq> None \<and> no_zero (cj_string c)) (strings_of D kvs) \<and>
     map (\<lambda>c. canon D (cj_string c) c) (strings_of D kvs) = strings_of D kvs \<and> (\<forall>c \<in> set (strings_of D kvs). nesting c = 0)"
  by (induction kvs) (auto simp: pairs_ok_def no_zero_def)

text \<open>Such a request is printed and read back as it is.\<close>

lemma op_cmd_request_ok:
  assumes "pairs_ok fs" and "pairs_ok cmd" and "op_cmd_request D fs cmd = Some x"
  shows "printable D x" "reads_back D x" "nesting x \<le> CJSON_NESTING_LIMIT" "canon D None x = x"
proof -
  note x = op_cmd_request_tree [OF assms(1,2), of D, unfolded assms(3), THEN option.inject [THEN iffD1]]
  note o = strings_of_ok [OF assms(1), of D] strings_of_ok [OF assms(2), of D]
  show "printable D x" using o by (simp add: x no_zero_def)
  show "reads_back D x" using o by (simp add: x no_zero_def)
  show "canon D None x = x" using o by (simp add: x)
  have z: "set (0 # map nesting (strings_of D kvs)) = {0}" if "pairs_ok kvs" for kvs
    using strings_of_ok [OF that, of D] by auto
  let ?op = "CJ cJSON_Object None 0 (d_zero D) None (strings_of D cmd)"
  have n1: "nesting ?op = 1" unfolding nesting.simps z [OF assms(2)] by simp
  let ?arr = "CJ cJSON_Array None 0 (d_zero D) (Some ''op_cmd'') [?op]"
  have n2: "nesting ?arr = 2" using n1 by simp
  have "set (0 # map nesting (strings_of D fs @ [?arr])) = {0, 2}" using z [OF assms(1)] n2 by auto
  then have "nesting x = 3" unfolding x nesting.simps by simp
  then show "nesting x \<le> CJSON_NESTING_LIMIT" by simp
qed

lemma quoted_plain:
  "list_all (\<lambda>c. 31 < (of_char c :: nat) \<and> c \<noteq> CHR 0x22 \<and> c \<noteq> CHR 0x5C) s \<Longrightarrow>
     quoted (Some s) = [CHR 0x22] @ s @ [CHR 0x22]"
  by (simp add: quoted_def) (induction s; simp add: esc_def)

lemma close_rssi_request_ok:
  "\<exists>x. close_rssi_request D = Some x \<and> printable D x \<and> reads_back D x \<and> nesting x \<le> CJSON_NESTING_LIMIT \<and>
     canon D None x = x \<and> length (render D True 0 x) < 1000 \<and>
     member_text (Some x) ''dst'' = Inr (Some ''rf'') \<and> member_text (Some x) ''timer'' = Inr (Some ''0'')"
proof -
  let ?f = "[(''dev'', Some ''/dev/i2c-0''), (''addr'', Some ''0x4a''), (''force'', Some ''0x1''), (''type'', Some ''rssi''),
        (''timer'', Some ''0''), (''pub_no'', Some ''1''), (''dst'', Some ''rf'')]"
  let ?c = "[(''_comment'', Some ''rssi''), (''cmd'', Some ''0''), (''reg'', Some ''0x0a''), (''size'', Some ''1'')]"
  have ok: "pairs_ok ?f" "pairs_ok ?c" by (simp_all add: pairs_ok_def)
  obtain x where x: "op_cmd_request D ?f ?c = Some x" using op_cmd_request_tree [OF ok] by blast
  note t = op_cmd_request_tree [OF ok, of D, unfolded x, THEN option.inject [THEN iffD1]]
  have l: "length (render D True 0 x) < 1000"
    by (simp add: t quoted_plain [simplified] tabs_def)
  have m: "member_text (Some x) ''dst'' = Inr (Some ''rf'')" "member_text (Some x) ''timer'' = Inr (Some ''0'')"
    by (simp_all add: t member_text_def cJSON_GetObjectItem_def get_object_item_def case_insensitive_strcmp_def tolower_def child_at_def)
  show ?thesis unfolding close_rssi_request_def using x op_cmd_request_ok [OF ok x] l m by blast
qed

section \<open>What a transfer returns\<close>

text \<open>The transfers whose publication succeeds: no reply, or one whose topic matches.\<close>

definition after_request :: "'d env \<Rightarrow> bytes \<Rightarrow> bytes \<Rightarrow> xfer \<Rightarrow> g_broker_s \<Rightarrow> g_broker_s" where
  "after_request E req dst x l =
     l\<lparr>req_resp_seq := req_resp_seq l + 1,
       mosq_calls := mosq_calls l @ [Mq_Publish (REQUEST_TOPIC (brk_src l) dst (uint (req_resp_seq l))) req],
       pub_list := snd (ack_wait (x_waddr x) (x_ack x) (pub_list l))\<rparr>"

lemma request_topic_fits:
  "length (brk_src l) + length dst < 200 \<Longrightarrow>
     snprintf 256 (REQUEST_TOPIC (brk_src l) dst (uint (req_resp_seq l))) = REQUEST_TOPIC (brk_src l) dst (uint (req_resp_seq l))"
proof (rule snprintf_fits)
  assume "length (brk_src l) + length dst < 200"
  then show "length (REQUEST_TOPIC (brk_src l) dst (uint (req_resp_seq l))) < 256"
    using length_dec_seq [of "req_resp_seq l"] by (simp add: REQUEST_TOPIC_def)
qed

lemma transfer_waits:
  assumes "xfers p = x # xs \<or> xfers p = [] \<and> x = no_answer \<and> xs = []" and "srv_list (lib p) = []"
    and "length (brk_src (lib p)) + length dst < 200" and "n \<le> length buf"
    and "fst (ack_wait (x_waddr x) (x_ack x) (pub_list (lib p))) = 0"
  shows "x_msgs x = [] \<Longrightarrow> x_timed x \<noteq> 0 \<Longrightarrow>
      transfer E buf (int n) (Some dst) p =
        Inr (x_timed x, (None, 0), p\<lparr>lib := after_request E (take n buf) dst x (lib p), xfers := xs\<rparr>)"
    and "x_msgs x = [(reply, t)] \<Longrightarrow> e_matches E (respond_topic (lib p)) t \<Longrightarrow>
      transfer E buf (int n) (Some dst) p =
        Inr (0, (Some reply, int (length reply)), p\<lparr>lib := after_request E (take n buf) dst x (lib p), xfers := xs\<rparr>)"
proof -
  have rd: "rd buf 0 (int n) = Inr (take n buf)" using assms(4) by (simp add: rd_def)
  obtain l where l: "ack_wait (x_waddr x) (x_ack x) (pub_list (lib p)) = (0, l)"
    using assms(5) by (cases "ack_wait (x_waddr x) (x_ack x) (pub_list (lib p))") auto
  note f = transfer_def dev_transfer_def dev_transfer_start_def dev_send_to_def dev_transfer_end_def Let_def
    mq_call_def after_request_def
  have c: "(case xfers p of [] \<Rightarrow> (no_answer, []) | x # xs \<Rightarrow> (x, xs)) = (x, xs)" using assms(1) by auto
  show "x_msgs x = [] \<Longrightarrow> x_timed x \<noteq> 0 \<Longrightarrow>
      transfer E buf (int n) (Some dst) p =
        Inr (x_timed x, (None, 0), p\<lparr>lib := after_request E (take n buf) dst x (lib p), xfers := xs\<rparr>)"
    using c rd l assms(2) request_topic_fits [OF assms(3)] by (simp add: f)
  show "x_msgs x = [(reply, t)] \<Longrightarrow> e_matches E (respond_topic (lib p)) t \<Longrightarrow>
      transfer E buf (int n) (Some dst) p =
        Inr (0, (Some reply, int (length reply)), p\<lparr>lib := after_request E (take n buf) dst x (lib p), xfers := xs\<rparr>)"
    using c rd l assms(2) request_topic_fits [OF assms(3)]
    by (simp add: f message_callback_def wakeup_waite_ack_def)
qed

section \<open>The requests over I2C\<close>

lemma length_quoted: "length (quoted (Some s)) \<le> 6 * length s + 2"
proof -
  have "escape_characters s \<le> 5 * length s" by (induction s) (simp_all add: escape_characters_def)
  then show ?thesis using length_esc [of s] by (simp add: quoted_def)
qed

definition i2c_args_ok :: "bytes \<Rightarrow> bytes \<Rightarrow> bytes \<Rightarrow> bytes \<Rightarrow> bool" where
  "i2c_args_ok dev addr reg data \<longleftrightarrow>
     (\<forall>s \<in> {dev, addr, reg, data}. NUL \<notin> set s \<and> length s \<le> 1000)"

lemma i2c_request_ok:
  assumes "i2c_args_ok dev addr reg data" and "pairs_ok cmd"
    and "length (object_text D True 3 (strings_of D cmd)) \<le> 30000"
  shows "\<exists>x. i2c_request D dev addr cmd = Some x \<and> printable D x \<and> length (render D True 0 x) + 2 \<le> SIZE_INT_MAX \<and>
    member_text (Some x) ''dst'' = Inr (Some ''rf'')"
proof -
  let ?f = "[(''dev'', Some dev), (''addr'', Some addr), (''force'', Some ''0x1''), (''dst'', Some ''rf'')]"
  have ok: "pairs_ok ?f" using assms(1) by (simp add: pairs_ok_def i2c_args_ok_def)
  obtain x where x: "op_cmd_request D ?f cmd = Some x" using op_cmd_request_tree [OF ok assms(2)] by blast
  note t = op_cmd_request_tree [OF ok assms(2), of D, unfolded x, THEN option.inject [THEN iffD1]]
  have "length (quoted (Some dev)) \<le> 6002" "length (quoted (Some addr)) \<le> 6002"
    using length_quoted [of dev] length_quoted [of addr] assms(1) by (auto simp: i2c_args_ok_def)
  with assms(3) have "length (render D True 0 x) + 2 \<le> SIZE_INT_MAX"
    by (simp add: t quoted_plain [simplified] tabs_def object_text_def numeral_3_eq_3)
  moreover have "member_text (Some x) ''dst'' = Inr (Some ''rf'')"
    by (simp add: t member_text_def cJSON_GetObjectItem_def get_object_item_def case_insensitive_strcmp_def tolower_def child_at_def)
  ultimately show ?thesis unfolding i2c_request_def using x op_cmd_request_ok [OF ok assms(2) x] by blast
qed

lemma i2c_cmd_bound:
  assumes "i2c_args_ok dev addr reg data"
  shows "pairs_ok ([(''_comment'', Some ''R0''), (''cmd'', Some ''1''), (''reg'', Some reg)] @
      (if sz = (0::int) then [(''size'', Some ''0'')] else if sz = 1 then [(''size'', Some ''1''), (''data'', Some data)] else []))"
    and "length (object_text D True 3 (strings_of D ([(''_comment'', Some ''R0''), (''cmd'', Some ''1''), (''reg'', Some reg)] @
      (if sz = 0 then [(''size'', Some ''0'')] else if sz = 1 then [(''size'', Some ''1''), (''data'', Some data)] else [])))) \<le> 30000"
    and "pairs_ok ([(''_comment'', Some ''R0''), (''cmd'', Some ''0''), (''reg'', Some reg)] @
      (if sz = 1 then [(''size'', Some ''1'')] else if sz = 2 then [(''size'', Some ''2'')] else []))"
    and "length (object_text D True 3 (strings_of D ([(''_comment'', Some ''R0''), (''cmd'', Some ''0''), (''reg'', Some reg)] @
      (if sz = 1 then [(''size'', Some ''1'')] else if sz = 2 then [(''size'', Some ''2'')] else [])))) \<le> 30000"
proof -
  have b: "length (quoted (Some reg)) \<le> 6002" "length (quoted (Some data)) \<le> 6002"
    using length_quoted [of reg] length_quoted [of data] assms by (auto simp: i2c_args_ok_def)
  show "pairs_ok ([(''_comment'', Some ''R0''), (''cmd'', Some ''1''), (''reg'', Some reg)] @
      (if sz = (0::int) then [(''size'', Some ''0'')] else if sz = 1 then [(''size'', Some ''1''), (''data'', Some data)] else []))"
    and "pairs_ok ([(''_comment'', Some ''R0''), (''cmd'', Some ''0''), (''reg'', Some reg)] @
      (if sz = 1 then [(''size'', Some ''1'')] else if sz = 2 then [(''size'', Some ''2'')] else []))"
    using assms by (simp_all add: pairs_ok_def i2c_args_ok_def)
  show "length (object_text D True 3 (strings_of D ([(''_comment'', Some ''R0''), (''cmd'', Some ''1''), (''reg'', Some reg)] @
      (if sz = 0 then [(''size'', Some ''0'')] else if sz = 1 then [(''size'', Some ''1''), (''data'', Some data)] else [])))) \<le> 30000"
    and "length (object_text D True 3 (strings_of D ([(''_comment'', Some ''R0''), (''cmd'', Some ''0''), (''reg'', Some reg)] @
      (if sz = 1 then [(''size'', Some ''1'')] else if sz = 2 then [(''size'', Some ''2'')] else [])))) \<le> 30000"
    using b by (auto simp: object_text_def tabs_def quoted_plain [simplified])
qed

text \<open>The environment grants memory; the broker object has no transfer pending.\<close>

definition quiet :: "'d env \<Rightarrow> g_broker_para \<Rightarrow> bool" where
  "quiet E p \<longleftrightarrow> (\<forall>s. h_grant (e_hooks E) s) \<and> srv_list (lib p) = [] \<and> length (brk_src (lib p)) < 190"

text \<open>
  A request over I2C: printed whole, addressed to \<open>rf\<close>, and transferred; without a coming transfer
  nobody answers.
\<close>

definition answered :: "'d env \<Rightarrow> g_broker_para \<Rightarrow> xfer \<Rightarrow> bytes \<Rightarrow> bool" where
  "answered E p x reply \<longleftrightarrow> fst (ack_wait (x_waddr x) (x_ack x) (pub_list (lib p))) = 0 \<and>
     (\<exists>t. x_msgs x = [(reply, t)] \<and> e_matches E (respond_topic (lib p)) t)"

lemma transfer_unanswered:
  assumes "quiet E p" and "xfers p = []" and "length dst < 10" and "n \<le> length buf"
  shows "\<exists>l. transfer E buf (int n) (Some dst) p = Inr (ETIMEDOUT, (None, 0), p\<lparr>lib := l\<rparr>) \<and> quiet E (p\<lparr>lib := l\<rparr>)"
proof -
  have e: "p\<lparr>lib := l, xfers := []\<rparr> = p\<lparr>lib := l\<rparr>" for l using assms(2) by (cases p) simp
  have a: "fst (ack_wait (x_waddr no_answer) (x_ack no_answer) (pub_list (lib p))) = 0"
    by (simp add: no_answer_def ack_wait_def waite_ack_timeout_def Let_def)
  have "transfer E buf (int n) (Some dst) p =
      Inr (x_timed no_answer, (None, 0), p\<lparr>lib := after_request E (take n buf) dst no_answer (lib p), xfers := []\<rparr>)"
    by (rule transfer_waits(1)) (use assms a in \<open>auto simp: quiet_def no_answer_def\<close>)
  with e assms(1) show ?thesis by (auto simp: no_answer_def quiet_def after_request_def)
qed

lemma transfer_answered:
  assumes "quiet E p" and "xfers p = x # xs" and "answered E p x reply" and "length dst < 10" and "n \<le> length buf"
  shows "\<exists>l. transfer E buf (int n) (Some dst) p =
      Inr (0, (Some reply, int (length reply)), p\<lparr>lib := l, xfers := xs\<rparr>) \<and> quiet E (p\<lparr>lib := l, xfers := xs\<rparr>) \<and>
    mosq_calls l = mosq_calls (lib p) @
      [Mq_Publish (REQUEST_TOPIC (brk_src (lib p)) dst (uint (req_resp_seq (lib p)))) (take n buf)]"
proof -
  from assms(3) obtain t where t: "x_msgs x = [(reply, t)]" "e_matches E (respond_topic (lib p)) t"
    "fst (ack_wait (x_waddr x) (x_ack x) (pub_list (lib p))) = 0" by (auto simp: answered_def)
  have "transfer E buf (int n) (Some dst) p =
      Inr (0, (Some reply, int (length reply)), p\<lparr>lib := after_request E (take n buf) dst x (lib p), xfers := xs\<rparr>)"
    by (rule transfer_waits(2) [OF _ _ _ assms(5) t(3,1,2)]) (use assms in \<open>auto simp: quiet_def\<close>)
  with assms(1) show ?thesis by (auto simp: quiet_def after_request_def)
qed

lemma i2c_prepared:
  assumes "quiet E p" and "i2c_args_ok dev addr reg data" and "pairs_ok cmd"
    and "length (object_text (e_dbl E) True 3 (strings_of (e_dbl E) cmd)) \<le> 30000"
  shows "\<exists>x t. i2c_request (e_dbl E) dev addr cmd = Some x \<and> print_text (e_hooks E) (e_dbl E) (Some x) = Inr t \<and>
    member_text (Some x) ''dst'' = Inr (Some ''rf'')"
proof -
  obtain x where x: "i2c_request (e_dbl E) dev addr cmd = Some x" "printable (e_dbl E) x"
    "length (render (e_dbl E) True 0 x) + 2 \<le> SIZE_INT_MAX" "member_text (Some x) ''dst'' = Inr (Some ''rf'')"
    using i2c_request_ok [OF assms(2-4)] by blast
  from print_text_rendered [OF x(2) _ x(3)] assms(1) x(1,4) show ?thesis by (auto simp: quiet_def)
qed

lemma i2cset_unanswered:
  assumes "quiet E p" and "xfers p = []" and "i2c_args_ok dev addr reg (case data of None \<Rightarrow> [] | Some d \<Rightarrow> d)"
    and "sz = 1 \<longrightarrow> data \<noteq> None"
  shows "\<exists>l. i2cset E dev addr reg sz data p = Inr (0, p\<lparr>lib := l\<rparr>) \<and> quiet E (p\<lparr>lib := l\<rparr>)"
proof -
  let ?d = "case data of None \<Rightarrow> [] | Some d \<Rightarrow> d"
  let ?cmd = "[(''_comment'', Some ''R0''), (''cmd'', Some ''1''), (''reg'', Some reg)] @
      (if sz = 0 then [(''size'', Some ''0'')] else if sz = 1 then [(''size'', Some ''1''), (''data'', data)] else [])"
  have cmd: "?cmd = [(''_comment'', Some ''R0''), (''cmd'', Some ''1''), (''reg'', Some reg)] @
      (if sz = 0 then [(''size'', Some ''0'')] else if sz = 1 then [(''size'', Some ''1''), (''data'', Some ?d)] else [])"
    using assms(4) by (cases data) auto
  obtain x t where x: "i2c_request (e_dbl E) dev addr ?cmd = Some x" "print_text (e_hooks E) (e_dbl E) (Some x) = Inr t"
    "member_text (Some x) ''dst'' = Inr (Some ''rf'')"
    unfolding cmd using i2c_prepared [OF assms(1,3) i2c_cmd_bound(1,2) [OF assms(3)]] by blast
  obtain l where "transfer E (t @ [NUL]) (int (length t)) (Some ''rf'') p = Inr (ETIMEDOUT, (None, 0), p\<lparr>lib := l\<rparr>)"
    "quiet E (p\<lparr>lib := l\<rparr>)" using transfer_unanswered [OF assms(1,2), of "''rf''" "length t" "t @ [NUL]"] by auto
  with x show ?thesis by (intro exI [of _ l]) (simp add: i2cset_def Let_def)
qed

lemma i2cget_start:
  assumes "quiet E p" and "i2c_args_ok dev addr reg []"
  shows "\<exists>t k. i2cget E dev addr reg sz p =
      res_bind (transfer E (t @ [NUL]) (int (length t)) (Some ''rf'') p) k \<and>
    (\<forall>r p1. k (r, (None, 0), p1) = Inr (None, p1)) \<and>
    (\<forall>stat root p1. stat \<noteq> [] \<and> NUL \<in> set (stat @ e_tail E) \<and>
       json_of (e_dbl E) (cstr (stat @ e_tail E)) = Inr root \<and> member_text root ''stat'' = Inr (Some ''0'') \<longrightarrow>
       k (0, (Some stat, int (length stat)), p1) =
         res_bind (cJSON_GetObjectItem root (Some ''return'')) (\<lambda>i.
           case child_at root i of
             None \<Rightarrow> Inr (None, p1)
           | Some arr \<Rightarrow> res_bind (i2cget_loop (cj_child arr) None) (\<lambda>r. Inr (r, p1))))"
proof -
  let ?cmd = "[(''_comment'', Some ''R0''), (''cmd'', Some ''0''), (''reg'', Some reg)] @
      (if sz = 1 then [(''size'', Some ''1'')] else if sz = 2 then [(''size'', Some ''2'')] else [])"
  obtain x t where "i2c_request (e_dbl E) dev addr ?cmd = Some x" "print_text (e_hooks E) (e_dbl E) (Some x) = Inr t"
    "member_text (Some x) ''dst'' = Inr (Some ''rf'')"
    using i2c_prepared [OF assms(1,2) i2c_cmd_bound(3,4) [OF assms(2)]] by blast
  then show ?thesis
    by (intro exI [of _ t]) (auto simp: i2cget_def Let_def c_string_def intro!: exI)
qed

lemma i2cget_unanswered:
  assumes "quiet E p" and "xfers p = []" and "i2c_args_ok dev addr reg []"
  shows "\<exists>l. i2cget E dev addr reg sz p = Inr (None, p\<lparr>lib := l\<rparr>) \<and> quiet E (p\<lparr>lib := l\<rparr>)"
proof -
  obtain t k where k: "i2cget E dev addr reg sz p = res_bind (transfer E (t @ [NUL]) (int (length t)) (Some ''rf'') p) k"
    "\<And>r p1. k (r, (None, 0), p1) = Inr (None, p1)" using i2cget_start [OF assms(1,3)] by blast
  obtain l where "transfer E (t @ [NUL]) (int (length t)) (Some ''rf'') p = Inr (ETIMEDOUT, (None, 0), p\<lparr>lib := l\<rparr>)"
    "quiet E (p\<lparr>lib := l\<rparr>)" using transfer_unanswered [OF assms(1,2), of "''rf''" "length t" "t @ [NUL]"] by auto
  with k show ?thesis by (intro exI [of _ l]) simp
qed

text \<open>The loop over the answers: the last one is returned, and each must fit into 32 bytes.\<close>

lemma i2cget_loop_last:
  assumes "list_all2 (\<lambda>c v. member_text (Some c) ''ret'' = Inr (Some v)) cs vs"
  shows "i2cget_loop cs r0 =
    (if \<exists>v \<in> set vs. 32 \<le> length v then Inl OutOfBounds else Inr (if vs = [] then r0 else Some (last vs)))"
  using assms by (induction cs vs arbitrary: r0 rule: list_all2_induct) auto

lemma wr_prefix: "length pre \<le> length b \<Longrightarrow> wr b 0 pre = Inr (pre @ drop (length pre) b)"
  by (simp add: wr_def)

lemma le32_small_NUL: "0 \<le> n \<Longrightarrow> n < 16777216 \<Longrightarrow> NUL \<in> set (le32 n)"
  by (simp add: le32_def char_of_def)

section \<open>The RSSI stream\<close>

definition rssi_msg :: "int \<Rightarrow> int \<Rightarrow> int \<Rightarrow> bytes \<Rightarrow> bytes" where
  "rssi_msg sec usec n vals = le32 sec @ le32 usec @ le32 n @ vals"

lemma rssi_fields:
  assumes "int32 sec" and "int32 usec" and "int32 n"
  shows "rd (rssi_msg sec usec n vals) 0 12 = Inr (le32 sec @ le32 usec @ le32 n)"
    "un_le32 (take 4 (le32 sec @ le32 usec @ le32 n)) = sec"
    "un_le32 (take 4 (drop 4 (le32 sec @ le32 usec @ le32 n))) = usec"
    "un_le32 (take 4 (drop 8 (le32 sec @ le32 usec @ le32 n))) = n"
    "rd (rssi_msg sec usec n vals) 12 n = (if 0 \<le> n \<and> n \<le> int (length vals) then Inr (take (nat n) vals) else Inl OutOfBounds)"
  using assms by (auto simp: rssi_msg_def rd_def un_le32_le32)

lemma print_rssi_struct_bad:
  assumes "int32 sec" and "int32 usec" and "int32 n" and "n \<le> INT_MAX - 20" and "length (share_buf p) = MAXSHAREBUF_SIZE"
    and "n < 0 \<or> int (length vals) < n \<or> 61420 < n"
  shows "print_rssi_struct (rssi_msg sec usec n vals) p = Inl OutOfBounds"
proof -
  have c: "chk32 (4 + 4 + 4 + n) = Inr (4 + 4 + 4 + n)" "chk32 (4 + 4 + 4 + n + 4 + 4) = Inr (4 + 4 + 4 + n + 4 + 4)"
    using assms(3,4) by (simp_all add: chk32_def INT_MAX_def)
  let ?h = "le32 (4 + 4 + 4 + n + 4) @ le32 1 @ le32 sec @ le32 usec @ le32 n"
  have w: "wr (share_buf p) 0 ?h = Inr (?h @ drop 20 (share_buf p))"
    using wr_prefix [of ?h "share_buf p"] assms(5) by simp
  have "wr (?h @ drop 20 (share_buf p)) 20 (take (nat n) vals) = Inl OutOfBounds" if "0 \<le> n" "n \<le> int (length vals)" "61420 < n"
    using that assms(5) by (simp add: wr_def)
  then show ?thesis
    using c w assms(6) unfolding print_rssi_struct_unfold rssi_fields(1) [OF assms(1-3)] res_bind_Inr Let_def
      rssi_fields(2-5) [OF assms(1-3)] by auto
qed

lemma rssi_fill_good:
  assumes "int32 sec" and "int32 usec" and "0 \<le> n" and "n \<le> int (length vals)" and "n \<le> 61420"
    and "length (share_buf p) = MAXSHAREBUF_SIZE"
  shows "rssi_fill (rssi_msg sec usec n vals) p =
    Inr (n + 20, p\<lparr>share_buf := mk_frame (1, rssi_msg sec usec n (take (nat n) vals)) @ drop (20 + nat n) (share_buf p)\<rparr>)"
proof -
  have n: "int32 n" using assms(3,5) by simp
  have c: "chk32 (4 + 4 + 4 + n) = Inr (4 + 4 + 4 + n)" "chk32 (4 + 4 + 4 + n + 4 + 4) = Inr (4 + 4 + 4 + n + 4 + 4)"
    using assms(3,5) by (simp_all add: chk32_def)
  let ?h = "le32 (4 + 4 + 4 + n + 4) @ le32 1 @ le32 sec @ le32 usec @ le32 n"
  let ?v = "take (nat n) vals"
  let ?f = "(1, rssi_msg sec usec n ?v)"
  have lv: "length ?v = nat n" using assms(4) by simp
  have w: "wr (share_buf p) 0 ?h = Inr (?h @ drop 20 (share_buf p))"
    using wr_prefix [of ?h "share_buf p"] assms(6) by simp
  have f: "mk_frame ?f = ?h @ ?v" using lv assms(3) by (simp add: mk_frame_def rssi_msg_def add_ac)
  have "drop 20 (share_buf p) = take (nat n) (drop 20 (share_buf p)) @ drop (20 + nat n) (share_buf p)"
    by (metis append_take_drop_id drop_drop add.commute)
  then have "wr (?h @ drop 20 (share_buf p)) 20 ?v = Inr (mk_frame ?f @ drop (20 + nat n) (share_buf p))"
    using wr_mid [of 20 ?h ?v "take (nat n) (drop 20 (share_buf p))" "drop (20 + nat n) (share_buf p)"] lv assms(5,6) f by simp
  then show ?thesis
    using c w assms(3,4) unfolding rssi_fill_def rssi_fields(1) [OF assms(1,2) n] res_bind_Inr Let_def
      rssi_fields(2-5) [OF assms(1,2) n] by (simp add: add.commute)
qed

text \<open>What the buffer holds then, and its length.\<close>

definition rssi_frame :: "int \<Rightarrow> int \<Rightarrow> int \<Rightarrow> bytes \<Rightarrow> bytes" where
  "rssi_frame sec usec n vals = mk_frame (1, rssi_msg sec usec n (take (nat n) vals))"

lemma rssi_frame_length: "n \<le> int (length vals) \<Longrightarrow> length (rssi_frame sec usec n vals) = nat n + 20"
  by (simp add: rssi_frame_def rssi_msg_def)

lemma rssi_frame_zero_ended: "0 \<le> n \<Longrightarrow> n \<le> 61420 \<Longrightarrow> zero_ended (rssi_frame sec usec n vals @ r)"
  using le32_small_NUL [of n] by (simp add: rssi_frame_def zero_ended_def mk_frame_def rssi_msg_def)

lemma print_rssi_struct_good:
  assumes "int32 sec" and "int32 usec" and "0 \<le> n" and "n \<le> int (length vals)" and "n \<le> 61420"
    and "length (share_buf p) = MAXSHAREBUF_SIZE" and "link_ready fd (psv p)" and "send_up (psv p)"
  shows "\<exists>p'. print_rssi_struct (rssi_msg sec usec n vals) p = Inr p' \<and>
    forwarded fd (1, rssi_msg sec usec n (take (nat n) vals)) (psv p) (psv p') \<and> length (share_buf p') = MAXSHAREBUF_SIZE"
proof -
  let ?F = "rssi_frame sec usec n vals"
  let ?b = "?F @ drop (20 + nat n) (share_buf p)"
  have lb: "length ?b = MAXSHAREBUF_SIZE" using assms(4-6) by (simp add: rssi_frame_length)
  have le: "nat n + 20 \<le> length ?b" using lb assms(5) by simp
  obtain ret s' k where s: "sendToPc ?b (int (nat n + 20)) (psv p) = Inr (ret, s')" "link_ready fd s'"
    "sent_on fd s' = sent_on fd (psv p) @ take k (take (nat n + 20) ?b)" "k < nat n + 20 \<longrightarrow> \<not> send_up s'"
    using sendToPc_part [OF assms(7,8) rssi_frame_zero_ended [OF assms(3,5)] le] by blast
  have "print_rssi_struct (rssi_msg sec usec n vals) p = Inr (p\<lparr>share_buf := ?b, psv := s'\<rparr>)"
    using rssi_fill_good [OF assms(1-6)] s(1) assms(3) by (simp add: print_rssi_struct_def rssi_send_def rssi_frame_def add.commute)
  moreover have "forwarded fd (1, rssi_msg sec usec n (take (nat n) vals)) (psv p) s'"
    using s(2-4) rssi_frame_length [OF assms(4), of sec usec] unfolding forwarded_def rssi_frame_def [symmetric]
    by (auto simp: take_append)
  ultimately show ?thesis using lb by auto
qed

lemma rssi_send_whole:
  assumes "link_ready fd (psv p)" and "send_up (psv p)" and "send_env (psv p) = []"
    and "0 \<le> n" and "nat n \<le> length (share_buf p)"
  shows "\<exists>s. rssi_send n p = Inr (p\<lparr>psv := s\<rparr>) \<and> link_ready fd s \<and> send_up s \<and> send_env s = [] \<and>
    sent_on fd s = sent_on fd (psv p) @ take (nat n) (share_buf p)"
proof -
  obtain ret s where "sendToPc (share_buf p) n (psv p) = Inr (ret, s)" "link_ready fd s" "send_up s" "send_env s = []"
    "sent_on fd s = sent_on fd (psv p) @ take (nat n) (share_buf p)"
    using sendToPc_whole [OF assms(1-3,5)] assms(4) by auto
  then show ?thesis by (intro exI [of _ s]) (simp add: rssi_send_def)
qed

section \<open>Properties\<close>



lemma close_rssi_prepared:
  assumes "quiet E p"
  shows "\<exists>r. close_rssi_request (e_dbl E) = Some r \<and> print_text (e_hooks E) (e_dbl E) (Some r) = Inr (render (e_dbl E) True 0 r) \<and>
    cJSON_Parse (e_dbl E) (Some (render (e_dbl E) True 0 r)) = Some (Inr (Some r)) \<and>
    c_string (render (e_dbl E) True 0 r @ [NUL]) = Inr (render (e_dbl E) True 0 r) \<and>
    member_text (Some r) ''dst'' = Inr (Some ''rf'') \<and> member_text (Some r) ''timer'' = Inr (Some ''0'')"
proof -
  let ?D = "e_dbl E"
  obtain r where r: "close_rssi_request ?D = Some r" "printable ?D r" "reads_back ?D r"
    "nesting r \<le> CJSON_NESTING_LIMIT" "canon ?D None r = r" "length (render ?D True 0 r) < 1000"
    "member_text (Some r) ''dst'' = Inr (Some ''rf'')" "member_text (Some r) ''timer'' = Inr (Some ''0'')"
    using close_rssi_request_ok [of ?D] by blast
  have "print_text (e_hooks E) ?D (Some r) = Inr (render ?D True 0 r)"
    using print_text_rendered [OF r(2)] assms r(6) by (simp add: quiet_def)
  moreover have "cJSON_Parse ?D (Some (render ?D True 0 r)) = Some (Inr (Some r))"
    using cJSON_Parse_rendered [OF r(3,4), of True] r(5) by simp
  moreover have "c_string (render ?D True 0 r @ [NUL]) = Inr (render ?D True 0 r)"
    using render_no_zero [OF r(2), of True 0] by (simp add: c_string_def)
  ultimately show ?thesis using r by blast
qed

lemma close_rssi_not_answered:
  assumes "quiet E p" and "xfers p = []"
  shows "\<exists>l. close_rssi E p = Inr (p\<lparr>lib := l\<rparr>) \<and> quiet E (p\<lparr>lib := l\<rparr>)"
proof (cases "rssi_state p = 0")
  case True
  then show ?thesis using assms(1) by (intro exI [of _ "lib p"]) (simp add: close_rssi_def)
next
  case False
  obtain r where r: "close_rssi_request (e_dbl E) = Some r"
    "print_text (e_hooks E) (e_dbl E) (Some r) = Inr (render (e_dbl E) True 0 r)"
    "cJSON_Parse (e_dbl E) (Some (render (e_dbl E) True 0 r)) = Some (Inr (Some r))"
    "c_string (render (e_dbl E) True 0 r @ [NUL]) = Inr (render (e_dbl E) True 0 r)"
    "member_text (Some r) ''dst'' = Inr (Some ''rf'')" using close_rssi_prepared [OF assms(1)] by blast
  let ?t = "render (e_dbl E) True 0 r"
  obtain l where "transfer E (?t @ [NUL]) (int (length ?t)) (Some ''rf'') p = Inr (ETIMEDOUT, (None, 0), p\<lparr>lib := l\<rparr>)"
    "quiet E (p\<lparr>lib := l\<rparr>)" using transfer_unanswered [OF assms, of "''rf''" "length ?t" "?t @ [NUL]"] by auto
  with r False show ?thesis
    by (intro exI [of _ l]) (simp add: close_rssi_def rssi_state_change_def json_of_def)
qed

text \<open>A client of descriptor 7, and the answer of \<open>mon\<close> to its request.\<close>

definition ex_dst :: "bytes \<Rightarrow> int cJSON" where
  "ex_dst d = CJ cJSON_Object None 0 0 None [CJ cJSON_String (Some d) 0 0 (Some ''dst'') []]"

definition ex_pbenv :: "int env" where
  "ex_pbenv = \<lparr>e_dbl = int_dbl, e_hooks = libc_hooks, e_matches = mqtt_matches, e_tail = [NUL]\<rparr>"

definition ex_answer :: "bytes \<Rightarrow> xfer" where
  "ex_answer reply = no_answer\<lparr>x_msgs := [(reply, ''mon/dev/ack/respond/0'')], x_timed := 0\<rparr>"

definition ex_pb :: "xfer list \<Rightarrow> g_broker_para" where
  "ex_pb xs = \<lparr>share_buf = replicate MAXSHAREBUF_SIZE NUL, share_len = 0, rssi_state = 1, lib = ex_adapter, psv = ex_srv, xfers = xs\<rparr>"

lemma ex_pb_simps [simp]:
  "lib (ex_pb xs) = ex_adapter" "psv (ex_pb xs) = ex_srv" "xfers (ex_pb xs) = xs" "rssi_state (ex_pb xs) = 1"
  "length (share_buf (ex_pb xs)) = MAXSHAREBUF_SIZE" "e_tail ex_pbenv = [NUL]" "e_dbl ex_pbenv = int_dbl"
  "e_hooks ex_pbenv = libc_hooks"
  by (simp_all add: ex_pb_def ex_pbenv_def)

lemma ex_pb_quiet: "quiet ex_pbenv (ex_pb xs)"
  by (simp add: quiet_def libc_hooks_def)

lemma ex_answered: "answered ex_pbenv (ex_pb xs) (ex_answer reply) reply"
proof -
  have "mqtt_matches (RESPOND_TOPIC ''dev'') ''mon/dev/ack/respond/0''" by code_simp
  then show ?thesis
    by (simp add: answered_def ex_answer_def no_answer_def ex_pbenv_def ack_wait_def waite_ack_timeout_def Let_def)
qed

lemma ex_link: "link_ready 7 ex_srv" "send_up ex_srv"
  by (simp_all add: link_ready_def send_up_def)

lemma ex_dst_ok:
  assumes "NUL \<notin> set d"
  shows "reads_back int_dbl (ex_dst d)" "nesting (ex_dst d) \<le> CJSON_NESTING_LIMIT" "canon int_dbl None (ex_dst d) = ex_dst d"
    "NUL \<notin> set (render int_dbl True 0 (ex_dst d))" "member_text (Some (ex_dst d)) ''dst'' = Inr (Some d)"
proof -
  have p: "printable int_dbl (ex_dst d)" using assms by (simp add: ex_dst_def no_zero_def)
  show "reads_back int_dbl (ex_dst d)" "nesting (ex_dst d) \<le> CJSON_NESTING_LIMIT" "canon int_dbl None (ex_dst d) = ex_dst d"
    using assms by (simp_all add: ex_dst_def no_zero_def int_dbl_def)
  show "NUL \<notin> set (render int_dbl True 0 (ex_dst d))" by (rule render_no_zero [OF p])
  show "member_text (Some (ex_dst d)) ''dst'' = Inr (Some d)"
    by (simp add: ex_dst_def member_text_def cJSON_GetObjectItem_def get_object_item_def case_insensitive_strcmp_def tolower_def child_at_def)
qed


lemma overwritten: "take (length a) (b @ drop (length b) (a @ r)) = take (length a) (b @ drop (length b) a)"
  by simp

text \<open>
  Property C36: Two RSSI messages can destroy each other.  Every message has a callback thread of its own and all of them fill
  one buffer: when the second fills it before the first has sent it, the client gets the second message's
  frame twice and never the first's; and when the lengths differ, the first of the two is cut or followed by the
  rest of the lost frame, bytes that no length field announces.
\<close>
theorem rssi_callbacks_race:
  assumes "int32 sec1" and "int32 usec1" and "0 \<le> n1" and "n1 \<le> int (length v1)" and "n1 \<le> 61420"
    and "int32 sec2" and "int32 usec2" and "0 \<le> n2" and "n2 \<le> int (length v2)" and "n2 \<le> 61420"
    and "length (share_buf p) = MAXSHAREBUF_SIZE" and "link_ready fd (psv p)" and "send_up (psv p)" and "send_env (psv p) = []"
    and "F1 = rssi_frame sec1 usec1 n1 v1" and "F2 = rssi_frame sec2 usec2 n2 v2"
  shows "\<exists>len1 len2 p1 p2 p3 p4. rssi_fill (rssi_msg sec1 usec1 n1 v1) p = Inr (len1, p1) \<and>
    rssi_fill (rssi_msg sec2 usec2 n2 v2) p1 = Inr (len2, p2) \<and> rssi_send len1 p2 = Inr p3 \<and> rssi_send len2 p3 = Inr p4 \<and>
    sent_on fd (psv p4) = sent_on fd (psv p) @ take (length F1) (F2 @ drop (length F2) F1) @ F2 \<and>
    (n1 = n2 \<longrightarrow> sent_on fd (psv p4) = sent_on fd (psv p) @ F2 @ F2)"
proof -
  define b1 where "b1 = F1 @ drop (20 + nat n1) (share_buf p)"
  define b2 where "b2 = F2 @ drop (20 + nat n2) b1"
  let ?p1 = "p\<lparr>share_buf := b1\<rparr>"
  let ?p2 = "p\<lparr>share_buf := b2\<rparr>"
  have l: "length F1 = nat n1 + 20" "length F2 = nat n2 + 20"
    using assms(4,9,15,16) by (simp_all add: rssi_frame_length)
  have f1: "rssi_fill (rssi_msg sec1 usec1 n1 v1) p = Inr (n1 + 20, ?p1)"
    using rssi_fill_good [OF assms(1-5,11)] assms(15) by (simp add: rssi_frame_def b1_def)
  have lb1: "length b1 = MAXSHAREBUF_SIZE" using l(1) assms(5,11) by (simp add: b1_def)
  have f2: "rssi_fill (rssi_msg sec2 usec2 n2 v2) ?p1 = Inr (n2 + 20, ?p2)"
    using rssi_fill_good [OF assms(6-10), of ?p1] lb1 assms(16) by (simp add: rssi_frame_def b2_def)
  have lb2: "length b2 = MAXSHAREBUF_SIZE" using l(2) lb1 assms(10) by (simp add: b2_def)
  have c: "nat (n1 + 20) \<le> length b2" "nat (n2 + 20) \<le> length b2" "0 \<le> n1 + 20" "0 \<le> n2 + 20"
    using lb2 assms(3,5,8,10) by simp_all
  obtain s3 where s3: "rssi_send (n1 + 20) ?p2 = Inr (?p2\<lparr>psv := s3\<rparr>)" "link_ready fd s3" "send_up s3" "send_env s3 = []"
    "sent_on fd s3 = sent_on fd (psv p) @ take (nat (n1 + 20)) b2"
    using rssi_send_whole [of fd ?p2 "n1 + 20"] c(1,3) assms(12-14) by auto
  obtain s4 where s4: "rssi_send (n2 + 20) (?p2\<lparr>psv := s3\<rparr>) = Inr (?p2\<lparr>psv := s4\<rparr>)"
    "sent_on fd s4 = sent_on fd s3 @ take (nat (n2 + 20)) b2"
    using rssi_send_whole [of fd "?p2\<lparr>psv := s3\<rparr>" "n2 + 20"] c(2,4) s3(2-4) by auto
  have n: "nat (n1 + 20) = length F1" "nat (n2 + 20) = length F2" "20 + nat n2 = length F2"
    using l assms(3,8) by simp_all
  have t1: "take (nat (n1 + 20)) b2 = take (length F1) (F2 @ drop (length F2) F1)"
    unfolding n b2_def b1_def by (rule overwritten)
  have t2: "take (nat (n2 + 20)) b2 = F2" unfolding n b2_def by simp
  have sent: "sent_on fd s4 = sent_on fd (psv p) @ take (length F1) (F2 @ drop (length F2) F1) @ F2"
    using s3(5) s4(2) t1 t2 by simp
  have eq: "take (length F1) (F2 @ drop (length F2) F1) = F2" if "n1 = n2" using l that by simp
  show ?thesis
    using f1 f2 s3(1) s4(1) sent eq
    by (intro exI [of _ "n1 + 20"] exI [of _ "n2 + 20"] exI [of _ ?p1] exI [of _ ?p2] exI [of _ "?p2\<lparr>psv := s3\<rparr>"] exI [of _ "?p2\<lparr>psv := s4\<rparr>"]) simp
qed

theorem rssi_callbacks_race_witness:
  "\<exists>p len1 len2 p1 p2 p3 p4. rssi_fill (rssi_msg 5 6 2 ''ab'') p = Inr (len1, p1) \<and>
    rssi_fill (rssi_msg 7 8 2 ''cd'') p1 = Inr (len2, p2) \<and> rssi_send len1 p2 = Inr p3 \<and> rssi_send len2 p3 = Inr p4 \<and>
    sent_on 7 (psv p4) = rssi_frame 7 8 2 ''cd'' @ rssi_frame 7 8 2 ''cd''"
proof -
  let ?p = "(ex_pb [])\<lparr>psv := ex_srv\<lparr>send_env := []\<rparr>\<rparr>"
  have e: "link_ready 7 (psv ?p)" "send_up (psv ?p)" "send_env (psv ?p) = []" "sent_on 7 (psv ?p) = []"
    "length (share_buf ?p) = MAXSHAREBUF_SIZE"
    using ex_link by (simp_all add: link_ready_def send_up_def sent_on_def ex_srv_def)
  obtain len1 len2 p1 p2 p3 p4 where "rssi_fill (rssi_msg 5 6 2 ''ab'') ?p = Inr (len1, p1)"
    "rssi_fill (rssi_msg 7 8 2 ''cd'') p1 = Inr (len2, p2)" "rssi_send len1 p2 = Inr p3" "rssi_send len2 p3 = Inr p4"
    "sent_on 7 (psv p4) = rssi_frame 7 8 2 ''cd'' @ rssi_frame 7 8 2 ''cd''"
    using rssi_callbacks_race [of 5 6 2 "''ab''" 7 8 2 "''cd''" ?p 7, OF _ _ _ _ _ _ _ _ _ _ e(5,1-3) refl refl] e(4) by auto
  then show ?thesis by (intro exI conjI)
qed

text \<open>
  Property C20: Published RSSI values reach the client as one frame of type 1 with the time, the count and the values,
  for every count up to 61420 that the message really holds (\<open>MAX_RSSI_NO\<close> is 60000).  The count is
  the sender's and is not compared with the length of the message or of the shared buffer: any other count, up to
  the overflow of the length, ends in an access out of bounds.
\<close>
theorem rssi_forwarded_or_out_of_bounds:
  assumes "int32 sec" and "int32 usec" and "int32 n" and "n \<le> INT_MAX - 20"
    and "length (share_buf p) = MAXSHAREBUF_SIZE" and "link_ready fd (psv p)" and "send_up (psv p)"
  shows "if 0 \<le> n \<and> n \<le> int (length (vals @ e_tail E)) \<and> n \<le> 61420
    then \<exists>p'. process_exception E (rssi_msg sec usec n vals) len ''rf/all/pub/rssi'' p = Inr (0, p') \<and>
      forwarded fd (1, rssi_msg sec usec n (take (nat n) (vals @ e_tail E))) (psv p) (psv p')
    else process_exception E (rssi_msg sec usec n vals) len ''rf/all/pub/rssi'' p = Inl OutOfBounds"
proof -
  have w: "waiting (sv (psv p)) \<noteq> STATE_DISCONNECTED" using assms(6) by (simp add: link_ready_def)
  have "rssi_msg sec usec n vals @ e_tail E = rssi_msg sec usec n (vals @ e_tail E)" by (simp add: rssi_msg_def)
  with w have p: "process_exception E (rssi_msg sec usec n vals) len ''rf/all/pub/rssi'' p =
      res_bind (print_rssi_struct (rssi_msg sec usec n (vals @ e_tail E)) p) (\<lambda>p'. Inr (0, p'))"
    by (simp add: process_exception_def)
  show ?thesis
  proof (cases "0 \<le> n \<and> n \<le> int (length (vals @ e_tail E)) \<and> n \<le> 61420")
    case True
    then obtain p' where "print_rssi_struct (rssi_msg sec usec n (vals @ e_tail E)) p = Inr p'"
      "forwarded fd (1, rssi_msg sec usec n (take (nat n) (vals @ e_tail E))) (psv p) (psv p')"
      using print_rssi_struct_good [OF assms(1,2) _ _ _ assms(5-7)] by blast
    with p True show ?thesis by auto
  next
    case False
    then have "n < 0 \<or> int (length (vals @ e_tail E)) < n \<or> 61420 < n" by linarith
    from print_rssi_struct_bad [OF assms(1-5) this] p False show ?thesis by auto
  qed
qed

theorem rssi_forwarded_or_out_of_bounds_witness:
  "(\<exists>p'. process_exception ex_pbenv (rssi_msg 5 6 2 ''ab'') 14 ''rf/all/pub/rssi'' (ex_pb []) = Inr (0, p') \<and>
      forwarded 7 (1, rssi_msg 5 6 2 ''ab'') ex_srv (psv p')) \<and>
    process_exception ex_pbenv (rssi_msg 5 6 100 ''ab'') 14 ''rf/all/pub/rssi'' (ex_pb []) = Inl OutOfBounds"
proof -
  note r = rssi_forwarded_or_out_of_bounds [of 5 6 _ "ex_pb []" 7 "''ab''" ex_pbenv 14]
  have i: "int32 5" "int32 6" "int32 2" "int32 100" "(2::int) \<le> INT_MAX - 20" "(100::int) \<le> INT_MAX - 20"
    by (simp_all add: INT_MAX_def)
  note l = ex_pb_simps(5) ex_link [folded ex_pb_simps(2) [of "[]"]]
  from r [OF i(1,2,3,5) l] r [OF i(1,2,4,6) l] show ?thesis by (simp add: numeral_2_eq_2)
qed



text \<open>
  Property C29: \<open>i2cget\<close> returns the last of the values that \<open>rf\<close> reports in the array \<open>return\<close>, and nothing when the
  array is empty or no answer comes.  A value of 32 characters or more does not fit into the block it is copied to.
\<close>
lemma i2cget_last_value:
  assumes "quiet E p" and "i2c_args_ok dev addr reg []" and "reply \<noteq> []" and "NUL \<in> set (reply @ e_tail E)"
    and "json_of (e_dbl E) (cstr (reply @ e_tail E)) = Inr root" and "member_text root ''stat'' = Inr (Some ''0'')"
    and "cJSON_GetObjectItem root (Some ''return'') = Inr i" and "child_at root i = Some arr"
    and "list_all2 (\<lambda>c v. member_text (Some c) ''ret'' = Inr (Some v)) (cj_child arr) vs"
  shows "(xfers p = [] \<longrightarrow> (\<exists>l. i2cget E dev addr reg sz p = Inr (None, p\<lparr>lib := l\<rparr>))) \<and>
    (xfers p = x # xs \<and> answered E p x reply \<longrightarrow>
      (if \<exists>v \<in> set vs. 32 \<le> length v then i2cget E dev addr reg sz p = Inl OutOfBounds
       else \<exists>l. i2cget E dev addr reg sz p = Inr (if vs = [] then None else Some (last vs), p\<lparr>lib := l, xfers := xs\<rparr>)))"
proof -
  obtain t k where k: "i2cget E dev addr reg sz p = res_bind (transfer E (t @ [NUL]) (int (length t)) (Some ''rf'') p) k"
    "\<And>p1. k (0, (Some reply, int (length reply)), p1) = res_bind (cJSON_GetObjectItem root (Some ''return'')) (\<lambda>i.
           case child_at root i of
             None \<Rightarrow> Inr (None, p1)
           | Some arr \<Rightarrow> res_bind (i2cget_loop (cj_child arr) None) (\<lambda>r. Inr (r, p1)))"
    using i2cget_start [OF assms(1,2), of sz] assms(3-6) by blast
  note u = i2cget_unanswered [OF assms(1) _ assms(2)]
  have "if \<exists>v \<in> set vs. 32 \<le> length v then i2cget E dev addr reg sz p = Inl OutOfBounds
       else \<exists>l. i2cget E dev addr reg sz p = Inr (if vs = [] then None else Some (last vs), p\<lparr>lib := l, xfers := xs\<rparr>)"
    if a: "xfers p = x # xs" "answered E p x reply"
  proof -
    from transfer_answered [OF assms(1) a, of "''rf''" "length t" "t @ [NUL]"] obtain l where
      "transfer E (t @ [NUL]) (int (length t)) (Some ''rf'') p =
        Inr (0, (Some reply, int (length reply)), p\<lparr>lib := l, xfers := xs\<rparr>)" by auto
    with k assms(7,8) have "i2cget E dev addr reg sz p =
        res_bind (i2cget_loop (cj_child arr) None) (\<lambda>r. Inr (r, p\<lparr>lib := l, xfers := xs\<rparr>))" by simp
    with i2cget_loop_last [OF assms(9), of None] show ?thesis by auto
  qed
  with u show ?thesis by blast
qed

text \<open>An answer of \<open>rf\<close> with one value.\<close>

definition ex_i2c_answer :: "bytes \<Rightarrow> int cJSON" where
  "ex_i2c_answer v = CJ cJSON_Object None 0 0 None
     [CJ cJSON_String (Some ''0'') 0 0 (Some ''stat'') [],
      CJ cJSON_Array None 0 0 (Some ''return'') [CJ cJSON_Object None 0 0 None [CJ cJSON_String (Some v) 0 0 (Some ''ret'') []]]]"

lemma i2cget_last_value_witness:
  "\<exists>reply l. i2cget ex_pbenv ''/dev/i2c-1'' ''0x48'' ''0x04'' 1 (ex_pb [ex_answer reply]) =
     Inr (Some ''0x2a'', (ex_pb [ex_answer reply])\<lparr>lib := l, xfers := []\<rparr>)"
proof -
  let ?x = "ex_i2c_answer ''0x2a''"
  let ?r = "render int_dbl True 0 ?x"
  have p: "printable int_dbl ?x" by (simp add: ex_i2c_answer_def no_zero_def)
  have b: "reads_back int_dbl ?x" "nesting ?x \<le> CJSON_NESTING_LIMIT" "canon int_dbl None ?x = ?x"
    by (simp_all add: ex_i2c_answer_def no_zero_def int_dbl_def)
  have ne: "?r \<noteq> []" using render_first [OF b(1), of True 0] by auto
  note g = cJSON_GetObjectItem_def get_object_item_def case_insensitive_strcmp_def tolower_def child_at_def ex_i2c_answer_def
  have j: "json_of (e_dbl ex_pbenv) (cstr (?r @ e_tail ex_pbenv)) = Inr (Some ?x)"
    using render_no_zero [OF p, of True 0] cJSON_Parse_rendered [OF b(1,2), of True] b(3) by (simp add: json_of_def)
  have m: "member_text (Some ?x) ''stat'' = Inr (Some ''0'')" by (simp add: member_text_def g)
  have i: "cJSON_GetObjectItem (Some ?x) (Some ''return'') = Inr (Some 1)" by (simp add: g)
  have c: "child_at (Some ?x) (Some 1) = Some (cj_child ?x ! 1)" by (simp add: g)
  have v: "list_all2 (\<lambda>c v. member_text (Some c) ''ret'' = Inr (Some v)) (cj_child (cj_child ?x ! 1)) [''0x2a'']"
    by (simp add: member_text_def g)
  have ok: "i2c_args_ok ''/dev/i2c-1'' ''0x48'' ''0x04'' []" by (simp add: i2c_args_ok_def)
  have z: "NUL \<in> set (?r @ e_tail ex_pbenv)" by simp
  have "\<exists>l. i2cget ex_pbenv ''/dev/i2c-1'' ''0x48'' ''0x04'' 1 (ex_pb [ex_answer ?r]) =
       Inr (Some ''0x2a'', (ex_pb [ex_answer ?r])\<lparr>lib := l, xfers := []\<rparr>)"
    using i2cget_last_value [OF ex_pb_quiet ok ne z j m i c v, of "[ex_answer ?r]" 1 "ex_answer ?r" "[]"] ex_answered [of "[ex_answer ?r]" ?r] by simp
  then show ?thesis by auto
qed

text \<open>
  An inquiry of the RF state always comes to an end with a frame of type 5 for the client: when \<open>rf\<close> answers none of
  the five requests, each transfer ends after its timeout, no value is added to the report, and the client gets
  an empty object with its terminating zero.
\<close>
lemma rf_mf_unanswered:
  assumes "quiet E p" and "xfers p = []" and "link_ready fd (psv p)" and "send_up (psv p)"
  shows "\<exists>p'. inquiry_rf_and_mf E p = Inr (0, p') \<and> quiet E p' \<and>
    forwarded fd (5, [CHR ''{'', CHR 0x0A, CHR ''}'', NUL]) (psv p) (psv p')"
proof -
  let ?d = "''/dev/i2c-1''"
  have ok: "i2c_args_ok ?d a r v" if "a \<in> {''0x28'', ''0x48''}" "r \<in> {''0x00'', ''0x01'', ''0x19'', ''0x0a'', ''0x04''}"
    "v \<in> {[], ''0x00'', ''0x14''}" for a r v using that by (auto simp: i2c_args_ok_def)
  obtain l1 where 1: "i2cset E ?d ''0x28'' ''0x00'' 0 None p = Inr (0, p\<lparr>lib := l1\<rparr>)" "quiet E (p\<lparr>lib := l1\<rparr>)"
    using i2cset_unanswered [OF assms(1,2), of ?d "''0x28''" "''0x00''" None 0] ok by auto
  obtain l2 where 2: "i2cset E ?d ''0x28'' ''0x01'' 1 (Some ''0x00'') (p\<lparr>lib := l1\<rparr>) = Inr (0, p\<lparr>lib := l2\<rparr>)" "quiet E (p\<lparr>lib := l2\<rparr>)"
    using i2cset_unanswered [OF 1(2), of ?d "''0x28''" "''0x01''" "Some ''0x00''" 1] ok assms(2) by auto
  obtain l3 where 3: "i2cget E ?d ''0x28'' ''0x00'' 2 (p\<lparr>lib := l2\<rparr>) = Inr (None, p\<lparr>lib := l3\<rparr>)" "quiet E (p\<lparr>lib := l3\<rparr>)"
    using i2cget_unanswered [OF 2(2), of ?d "''0x28''" "''0x00''" 2] ok assms(2) by auto
  obtain l4 where 4: "i2cset E ?d ''0x48'' ''0x19'' 1 (Some ''0x14'') (p\<lparr>lib := l3\<rparr>) = Inr (0, p\<lparr>lib := l4\<rparr>)" "quiet E (p\<lparr>lib := l4\<rparr>)"
    using i2cset_unanswered [OF 3(2), of ?d "''0x48''" "''0x19''" "Some ''0x14''" 1] ok assms(2) by auto
  obtain l5 where 5: "i2cget E ?d ''0x48'' ''0x0a'' 1 (p\<lparr>lib := l4\<rparr>) = Inr (None, p\<lparr>lib := l5\<rparr>)" "quiet E (p\<lparr>lib := l5\<rparr>)"
    using i2cget_unanswered [OF 4(2), of ?d "''0x48''" "''0x0a''" 1] ok assms(2) by auto
  obtain l6 where 6: "i2cget E ?d ''0x48'' ''0x04'' 1 (p\<lparr>lib := l5\<rparr>) = Inr (None, p\<lparr>lib := l6\<rparr>)" "quiet E (p\<lparr>lib := l6\<rparr>)"
    using i2cget_unanswered [OF 5(2), of ?d "''0x48''" "''0x04''" 1] ok assms(2) by auto
  let ?o = "cJSON_CreateObject (e_dbl E)"
  have r: "rf_and_mf_report (e_dbl E) None \<lparr>low = None, high = None\<rparr> = Some ?o"
    by (simp add: rf_and_mf_report_def cJSON_AddStringToObject_def add_created_def cJSON_CreateString_def cJSON_strdup_def
        add_item_to_object_def)
  have o: "printable (e_dbl E) ?o" "render (e_dbl E) True 0 ?o = [CHR ''{'', CHR 0x0A, CHR ''}'']"
    by (simp_all add: cJSON_CreateObject_def cJSON_New_Item_def with_type_def tabs_def no_zero_def)
  have t: "print_text (e_hooks E) (e_dbl E) (Some ?o) = Inr [CHR ''{'', CHR 0x0A, CHR ''}'']"
    using print_text_rendered [OF o(1)] assms(1) o(2) by (simp add: quiet_def)
  obtain s where s: "sendStateInquiry [CHR ''{'', CHR 0x0A, CHR ''}'', NUL] (int 4) 5 (psv p) = Inr s"
    "forwarded fd (5, take 4 [CHR ''{'', CHR 0x0A, CHR ''}'', NUL]) (psv p) s"
    using sendStateInquiry_forwards [OF assms(3,4), of 4 "[CHR ''{'', CHR 0x0A, CHR ''}'', NUL]" 5] by auto
  have "inquiry_rf_and_mf E p = Inr (0, p\<lparr>lib := l6, psv := s\<rparr>)"
    using 1(1) 2(1) 3(1) 4(1) 5(1) 6(1) r t s(1)
    by (simp add: inquiry_rf_and_mf_def ad7417_temperature_def rf_current_def send_rf_mf_is_type_5)
  moreover have "quiet E (p\<lparr>lib := l6, psv := s\<rparr>)" using 6(2) by (simp add: quiet_def)
  ultimately show ?thesis using s(2) by simp
qed

lemma rf_mf_unanswered_witness:
  "\<exists>p'. inquiry_rf_and_mf ex_pbenv (ex_pb []) = Inr (0, p') \<and> quiet ex_pbenv p' \<and>
    forwarded 7 (5, [CHR ''{'', CHR 0x0A, CHR ''}'', NUL]) (psv (ex_pb [])) (psv p')"
  by (rule rf_mf_unanswered [OF ex_pb_quiet]) (use ex_link in simp_all)

end
