(* ===== verification/GW_Timer.thy ===== *)
theory GW_Timer
  imports GW_MsgQueue
begin

text \<open>
  \<open>src/code/src/gw_timer.c\<close>: the heart-beat timer.  Its thread waits for \<open>running\<close>, then posts
  a timeout event after every period until \<open>closeState\<close> is 1.

  The thread is a program counter and one step per statement that touches shared state; the
  main thread's \<open>Start_Timer\<close> and \<open>stop_Timer\<close> run between the steps.  Only the timer thread
  locks the mutex of \<open>para_t\<close>, so \<open>Locked\<close> there means that it owns it.
\<close>

section \<open>State and the main thread's operations\<close>

record g_timer_para =
  timer_cb :: "(g_msg_queue_para \<Rightarrow> g_msg_queue_para res) option"
  seconds :: int
  mseconds :: int
  running :: int
  closeState :: int
  tm_para_state_t :: para_thread
  tm_para_t :: para_thread

definition getState :: "g_timer_para \<Rightarrow> int \<Rightarrow> int \<Rightarrow> int \<times> g_timer_para" where
  "getState g value cmd = (if cmd = 1 then (0, g\<lparr>closeState := value\<rparr>) else (closeState g, g))"

definition InitTimerThread :: "int \<Rightarrow> int \<times> g_timer_para" where
  "InitTimerThread pcreate =
     ((if pcreate \<noteq> 0 then - 1 else 0),
      \<lparr>timer_cb = None, seconds = 0, mseconds = 0, running = 0, closeState = 1,
       tm_para_state_t = newThreadPara, tm_para_t = newThreadPara\<rparr>)"

text \<open>The writes of \<open>Start_Timer\<close>, in its order; the signal only wakes the thread up.\<close>

definition start_args :: "(g_msg_queue_para \<Rightarrow> g_msg_queue_para res) \<Rightarrow> int \<Rightarrow> int \<Rightarrow> g_timer_para \<Rightarrow> g_timer_para" where
  "start_args cb sec msec g = g\<lparr>timer_cb := Some cb, seconds := sec, mseconds := msec\<rparr>"

definition start_state :: "g_timer_para \<Rightarrow> g_timer_para" where
  "start_state g = snd (getState g 0 1)"

definition start_run :: "g_timer_para \<Rightarrow> g_timer_para" where
  "start_run g = g\<lparr>running := 1\<rparr>"

definition Start_Timer :: "(g_msg_queue_para \<Rightarrow> g_msg_queue_para res) \<Rightarrow> int \<Rightarrow> int \<Rightarrow> g_timer_para \<Rightarrow> g_timer_para" where
  "Start_Timer cb sec msec g = start_run (start_state (start_args cb sec msec g))"

definition stop_Timer :: "g_timer_para \<Rightarrow> g_timer_para" where
  "stop_Timer g = snd (getState g 1 1)"

section \<open>Posting\<close>

text \<open>\<open>junk\<close> is the uninitialised \<open>msg_json\<close> of the local message.  \<open>timerout_cb\<close> is the callback of \<open>event_process.c\<close>.\<close>

definition timerout_cb :: "bytes \<Rightarrow> g_msg_queue_para \<Rightarrow> g_msg_queue_para res" where
  "timerout_cb junk q =
     postMsgQueue \<lparr>msg_type = MSG_TIMEOUT, msg_number = MSG_TIMEOUT, msg_len = 0, msg_json = junk\<rparr> q"

definition postMsg_stoptimer :: "bytes \<Rightarrow> g_msg_queue_para \<Rightarrow> g_msg_queue_para res" where
  "postMsg_stoptimer junk q =
     postMsgQueue \<lparr>msg_type = MSG_STOP_TIMER, msg_number = MSG_STOP_TIMER, msg_len = 0, msg_json = junk\<rparr> q"

text \<open>
  The sleep of \<open>T_Sleep\<close>: how many microseconds \<open>select\<close> waits; it refuses negative values and returns at once.
  The second argument is called milliseconds, and is handed on as microseconds.
\<close>

definition set_Timer :: "int \<Rightarrow> int \<Rightarrow> int" where
  "set_Timer sec msec =
     (let tv_sec = sec; tv_usec = msec in if tv_sec < 0 \<or> tv_usec < 0 then 0 else tv_sec * 1000000 + tv_usec)"

lemma set_Timer_period:
  assumes "0 \<le> sec" and "0 \<le> msec"
  shows "set_Timer sec msec = sec * 1000000 + msec"
    "0 < msec \<Longrightarrow> set_Timer sec msec < sec * 1000000 + msec * 1000"
  using assms by (simp_all add: set_Timer_def)

section \<open>The timer thread\<close>

text \<open>
  The places of \<open>timer_thread\<close> (\<open>T_Lock\<close> to \<open>T_Unlock\<close>) and of \<open>process_loop\<close> (\<open>T_Sleep\<close> to
  \<open>T_Post\<close>).  The lock is taken once, before the outer loop.
\<close>

datatype tpc = T_Lock | T_Test | T_CondWait | T_Unlock | T_Sleep | T_Fire | T_Check | T_Clear | T_Post

type_synonym timer_st = "tpc \<times> g_timer_para \<times> g_msg_queue_para"

definition set_mutex :: "mutex \<Rightarrow> g_timer_para \<Rightarrow> g_timer_para" where
  "set_mutex m g = g\<lparr>tm_para_t := (tm_para_t g)\<lparr>pt_mutex := m\<rparr>\<rparr>"

definition owns :: "g_timer_para \<Rightarrow> bool" where
  "owns g \<longleftrightarrow> pt_mutex (tm_para_t g) = Locked"

definition process_loop :: "bytes \<Rightarrow> timer_st \<Rightarrow> timer_st res" where
  "process_loop junk s =
     (case s of (pc, g, q) \<Rightarrow>
       (case pc of
          T_Sleep \<Rightarrow> Inr (T_Fire, g, q)
        | T_Fire \<Rightarrow>
            (case timer_cb g of None \<Rightarrow> Inl NullDeref
             | Some cb \<Rightarrow> res_bind (cb q) (\<lambda>q'. Inr (T_Check, g, q')))
        | T_Check \<Rightarrow> Inr (if fst (getState g 0 0) = 1 then T_Clear else T_Sleep, g, q)
        | T_Clear \<Rightarrow> Inr (T_Post, g\<lparr>running := 0\<rparr>, q)
        | T_Post \<Rightarrow> res_bind (postMsg_stoptimer junk q) (\<lambda>q'. Inr (T_Test, g, q'))
        | _ \<Rightarrow> Inr s))"

definition timer_thread :: "bytes \<Rightarrow> timer_st \<Rightarrow> timer_st res" where
  "timer_thread junk s =
     (case s of (pc, g, q) \<Rightarrow>
       (case pc of
          T_Lock \<Rightarrow> Inr (T_Test, set_mutex Locked g, q)
        | T_Test \<Rightarrow>
            if running g = 0
            then (if owns g then Inr (T_CondWait, set_mutex Unlocked g, q) else Inl UnlockNotOwner)
            else Inr (T_Unlock, g, q)
        | T_CondWait \<Rightarrow> Inr (T_Test, set_mutex Locked g, q)
        | T_Unlock \<Rightarrow> if owns g then Inr (T_Sleep, set_mutex Unlocked g, q) else Inl UnlockNotOwner
        | _ \<Rightarrow> process_loop junk s))"

fun timer_steps :: "nat \<Rightarrow> bytes \<Rightarrow> timer_st \<Rightarrow> timer_st res" where
  "timer_steps 0 junk s = Inr s"
| "timer_steps (Suc n) junk s = res_bind (timer_thread junk s) (timer_steps n junk)"

section \<open>Interleaving with the main thread\<close>

datatype main_call = A_Args int int | A_State | A_Run | A_Stop

fun main_act :: "bytes \<Rightarrow> main_call \<Rightarrow> g_timer_para \<Rightarrow> g_timer_para" where
  "main_act junk (A_Args sec msec) g = start_args (timerout_cb junk) sec msec g"
| "main_act junk A_State g = start_state g"
| "main_act junk A_Run g = start_run g"
| "main_act junk A_Stop g = stop_Timer g"

inductive timer_reach :: "bytes \<Rightarrow> timer_st \<Rightarrow> bool" for junk :: bytes where
  Init: "timer_reach junk (T_Lock, snd (InitTimerThread 0), q)"
| Timer: "timer_reach junk s \<Longrightarrow> timer_thread junk s = Inr t \<Longrightarrow> timer_reach junk t"
| Main: "timer_reach junk (pc, g, q) \<Longrightarrow> timer_reach junk (pc, main_act junk a g, q)"

definition timer_inv :: "timer_st \<Rightarrow> bool" where
  "timer_inv s \<longleftrightarrow> (case s of (pc, g, q) \<Rightarrow>
     pc \<in> {T_Lock, T_CondWait, T_Sleep, T_Fire, T_Check, T_Clear, T_Post} \<longrightarrow> \<not> owns g)"

lemma main_act_owns [simp]: "owns (main_act junk a g) = owns g"
  by (cases a) (simp_all add: owns_def start_args_def start_state_def start_run_def stop_Timer_def getState_def)

lemma set_mutex_simps [simp]:
  "owns (set_mutex m g) \<longleftrightarrow> m = Locked" "running (set_mutex m g) = running g"
  "timer_cb (set_mutex m g) = timer_cb g" "closeState (set_mutex m g) = closeState g"
  by (simp_all add: owns_def set_mutex_def)

lemma owns_running [simp]: "owns (g\<lparr>running := v\<rparr>) = owns g"
  by (simp add: owns_def)

lemmas timer_defs = timer_thread_def process_loop_def getState_def

lemma timer_inv_step: "timer_thread junk s = Inr t \<Longrightarrow> timer_inv s \<Longrightarrow> timer_inv t"
  by (cases s; cases "fst s")
    (auto simp: timer_inv_def timer_defs res_bind_eq_Inr split: if_splits option.splits)

lemma timer_reach_inv: "timer_reach junk s \<Longrightarrow> timer_inv s"
proof (induction rule: timer_reach.induct)
  case (Init q)
  show ?case by (simp add: timer_inv_def InitTimerThread_def owns_def newThreadPara_def)
next
  case (Timer s t)
  then show ?case using timer_inv_step by blast
next
  case (Main pc g q a)
  then show ?case by (simp add: timer_inv_def)
qed

section \<open>Rounds of the timer\<close>

definition timeout_ev :: "bytes \<Rightarrow> event" where
  "timeout_ev junk = (MSG_TIMEOUT, 0, take 2040 junk)"

lemma timerout_cb_ready:
  assumes "mq_ready (Suc n) q" and "length junk = 2048"
  shows "\<exists>q'. timerout_cb junk q = Inr q' \<and> mq_ready n q' \<and> mq_evs q' = mq_evs q @ [timeout_ev junk]"
proof -
  let ?m = "\<lparr>msg_type = MSG_TIMEOUT, msg_number = MSG_TIMEOUT, msg_len = 0, msg_json = junk\<rparr>"
  from assms(2) have "mq_fits ?m" by (simp add: mq_fits_def)
  from postMsgQueue_evs [OF assms(1) this] show ?thesis
    by (auto simp: timerout_cb_def mq_ev_def timeout_ev_def)
qed

lemma postMsg_stoptimer_ready:
  assumes "mq_ready (Suc n) q" and "length junk = 2048"
  shows "\<exists>q'. postMsg_stoptimer junk q = Inr q' \<and> mq_ready n q' \<and>
    mq_evs q' = mq_evs q @ [(MSG_STOP_TIMER, 0, take 2040 junk)]"
proof -
  let ?m = "\<lparr>msg_type = MSG_STOP_TIMER, msg_number = MSG_STOP_TIMER, msg_len = 0, msg_json = junk\<rparr>"
  from assms(2) have "mq_fits ?m" by (simp add: mq_fits_def)
  from postMsgQueue_evs [OF assms(1) this] show ?thesis
    by (auto simp: postMsg_stoptimer_def mq_ev_def)
qed

lemma timer_open_rounds:
  assumes "timer_cb g = Some (timerout_cb junk)" and "closeState g \<noteq> 1"
    and "mq_ready (k + n) q" and "length junk = 2048"
  shows "\<exists>q'. timer_steps (3 * k) junk (T_Sleep, g, q) = Inr (T_Sleep, g, q') \<and> mq_ready n q' \<and>
    mq_evs q' = mq_evs q @ replicate k (timeout_ev junk)"
  using assms(3)
proof (induction k arbitrary: q)
  case (Suc k)
  from timerout_cb_ready [of "k + n" q junk] Suc.prems assms(4) obtain q1 where
    q1: "timerout_cb junk q = Inr q1" "mq_ready (k + n) q1" "mq_evs q1 = mq_evs q @ [timeout_ev junk]" by auto
  have "timer_steps (3 * Suc k) junk (T_Sleep, g, q) = timer_steps (3 * k) junk (T_Sleep, g, q1)"
    using q1 assms(1,2) by (simp add: numeral_3_eq_3 timer_defs)
  with Suc.IH [OF q1(2)] q1(3) show ?case by auto
qed simp

lemma timer_last_round:
  assumes "timer_cb g = Some (timerout_cb junk)" and "closeState g = 1"
    and "mq_ready (Suc (Suc n)) q" and "length junk = 2048"
  shows "\<exists>q'. timer_steps 5 junk (T_Sleep, g, q) = Inr (T_Test, g\<lparr>running := 0\<rparr>, q') \<and> mq_ready n q' \<and>
    mq_evs q' = mq_evs q @ [timeout_ev junk, (MSG_STOP_TIMER, 0, take 2040 junk)]"
proof -
  from timerout_cb_ready [OF assms(3,4)] obtain q1 where
    q1: "timerout_cb junk q = Inr q1" "mq_ready (Suc n) q1" "mq_evs q1 = mq_evs q @ [timeout_ev junk]" by auto
  from postMsg_stoptimer_ready [OF q1(2) assms(4)] obtain q2 where
    q2: "postMsg_stoptimer junk q1 = Inr q2" "mq_ready n q2"
      "mq_evs q2 = mq_evs q1 @ [(MSG_STOP_TIMER, 0, take 2040 junk)]" by auto
  have "timer_steps 5 junk (T_Sleep, g, q) = Inr (T_Test, g\<lparr>running := 0\<rparr>, q2)"
    using q1 q2 assms(1,2) by (simp add: eval_nat_numeral timer_defs)
  with q1 q2 show ?thesis by auto
qed

section \<open>Properties\<close>

definition ex_tjunk :: bytes where "ex_tjunk = replicate 2048 NUL"

definition ex_timer :: g_timer_para where
  "ex_timer = Start_Timer (timerout_cb ex_tjunk) 4 0 (snd (InitTimerThread 0))"

lemma ex_timer_simps [simp]:
  "timer_cb ex_timer = Some (timerout_cb ex_tjunk)" "closeState ex_timer = 0" "running ex_timer = 1"
  "length ex_tjunk = 2048" "pt_mutex (tm_para_t ex_timer) = Unlocked"
  by (simp_all add: ex_timer_def ex_tjunk_def Start_Timer_def start_run_def start_state_def start_args_def
      getState_def InitTimerThread_def newThreadPara_def)



text \<open>
  The timer works once.  The mutex is locked before the outer loop only, so when
  the thread comes back to the test of \<open>running\<close> after its first run it does not own the
  mutex: whatever the main thread has done in between, the next call on the mutex,
  \<open>pthread_cond_wait\<close> or \<open>pthread_mutex_unlock\<close>, is undefined.
\<close>
lemma timer_second_run_undefined:
  assumes "timer_reach junk (T_Post, g, q)" and "postMsg_stoptimer junk q = Inr q'"
  shows "timer_thread junk (T_Post, g, q) = Inr (T_Test, g, q') \<and>
    (\<forall>as. timer_steps 2 junk (T_Test, fold (main_act junk) as g, q') = Inl UnlockNotOwner)"
proof -
  have own: "\<not> owns (fold (main_act junk) as g)" for as
  proof -
    have "owns (fold (main_act junk) as g) = owns g" by (induction as arbitrary: g) simp_all
    with timer_reach_inv [OF assms(1)] show ?thesis by (simp add: timer_inv_def)
  qed
  have "timer_steps 2 junk (T_Test, h, q') = Inl UnlockNotOwner" if "\<not> owns h" for h
    using that by (simp add: numeral_2_eq_2 timer_defs)
  with own assms(2) show ?thesis by (simp add: timer_defs)
qed

lemma ex_timer_reach:
  "timer_reach ex_tjunk (T_Unlock, set_mutex Locked ex_timer, ex_queue)"
proof -
  let ?g = "snd (InitTimerThread 0)"
  note i = timer_reach.Init [of ex_tjunk ex_queue]
  have "timer_reach ex_tjunk (T_Lock, main_act ex_tjunk A_Run (main_act ex_tjunk A_State (main_act ex_tjunk (A_Args 4 0) ?g)), ex_queue)"
    by (intro timer_reach.Main i)
  then have 1: "timer_reach ex_tjunk (T_Lock, ex_timer, ex_queue)" by (simp add: ex_timer_def Start_Timer_def)
  have 2: "timer_reach ex_tjunk (T_Test, set_mutex Locked ex_timer, ex_queue)"
    by (rule timer_reach.Timer [OF 1]) (simp add: timer_defs)
  show ?thesis by (rule timer_reach.Timer [OF 2]) (simp add: timer_defs)
qed

lemma timer_steps_reach: "timer_reach junk s \<Longrightarrow> timer_steps n junk s = Inr t \<Longrightarrow> timer_reach junk t"
proof (induction n arbitrary: s)
  case (Suc n)
  from Suc.prems(2) obtain s' where "timer_thread junk s = Inr s'" "timer_steps n junk s' = Inr t"
    by (auto simp: res_bind_eq_Inr)
  with Suc.IH timer_reach.Timer [OF Suc.prems(1)] show ?case by blast
qed simp

lemma timer_second_run_undefined_witness:
  "\<exists>g q q'. timer_thread ex_tjunk (T_Post, g, q) = Inr (T_Test, g, q') \<and>
    (\<forall>as. timer_steps 2 ex_tjunk (T_Test, fold (main_act ex_tjunk) as g, q') = Inl UnlockNotOwner)"
proof -
  let ?g = "main_act ex_tjunk A_Stop (set_mutex Locked ex_timer)"
  from timerout_cb_ready [of 1 ex_queue ex_tjunk] obtain q1 where
    q1: "timerout_cb ex_tjunk ex_queue = Inr q1" "mq_ready 1 q1" by (auto simp: ex_queue_ready)
  from postMsg_stoptimer_ready [of 0 q1 ex_tjunk] q1(2) obtain q' where
    q': "postMsg_stoptimer ex_tjunk q1 = Inr q'" by auto
  have r: "timer_reach ex_tjunk (T_Unlock, ?g, ex_queue)" by (intro timer_reach.Main ex_timer_reach)
  have "timer_steps 5 ex_tjunk (T_Unlock, ?g, ex_queue) = Inr (T_Post, (set_mutex Unlocked ?g)\<lparr>running := 0\<rparr>, q1)"
    using q1(1)
    by (simp add: eval_nat_numeral timer_defs stop_Timer_def owns_def set_mutex_def)
  from timer_second_run_undefined [OF timer_steps_reach [OF r this] q'] show ?thesis by blast
qed

text \<open>
  A start can be lost: if it comes between the timer thread's test of \<open>closeState\<close>
  and its write \<open>running = 0\<close>, the timer ends up not running although it was started last,
  and the only trace is the \<open>MSG_STOP_TIMER\<close> that follows.
\<close>
lemma timer_start_lost:
  assumes "closeState g = 1" and "mq_ready (Suc n) q" and "length junk = 2048"
  shows "\<exists>g1 g2 q'. timer_thread junk (T_Check, g, q) = Inr (T_Clear, g, q) \<and>
    g1 = Start_Timer cb sec msec g \<and> running g1 = 1 \<and> closeState g1 = 0 \<and>
    timer_steps 2 junk (T_Clear, g1, q) = Inr (T_Test, g2, q') \<and>
    running g2 = 0 \<and> closeState g2 = 0 \<and> timer_cb g2 = Some cb \<and>
    mq_evs q' = mq_evs q @ [(MSG_STOP_TIMER, 0, take 2040 junk)]"
proof -
  from postMsg_stoptimer_ready [OF assms(2,3)] obtain q' where
    "postMsg_stoptimer junk q = Inr q'" "mq_evs q' = mq_evs q @ [(MSG_STOP_TIMER, 0, take 2040 junk)]" by blast
  with assms(1) show ?thesis
    by (simp add: numeral_2_eq_2 timer_defs Start_Timer_def start_args_def start_state_def start_run_def)
qed

lemma timer_start_lost_witness:
  "\<exists>g1 g2 q'. timer_thread ex_tjunk (T_Check, stop_Timer ex_timer, ex_queue) = Inr (T_Clear, stop_Timer ex_timer, ex_queue) \<and>
    g1 = Start_Timer (timerout_cb ex_tjunk) 4 0 (stop_Timer ex_timer) \<and> running g1 = 1 \<and> closeState g1 = 0 \<and>
    timer_steps 2 ex_tjunk (T_Clear, g1, ex_queue) = Inr (T_Test, g2, q') \<and>
    running g2 = 0 \<and> closeState g2 = 0 \<and> timer_cb g2 = Some (timerout_cb ex_tjunk) \<and>
    mq_evs q' = mq_evs ex_queue @ [(MSG_STOP_TIMER, 0, take 2040 ex_tjunk)]"
  by (rule timer_start_lost [where n = 3]) (simp_all add: ex_queue_ready stop_Timer_def getState_def)

end
