(* ===== verification/GW_Dma.thy ===== *)
theory GW_Dma
  imports GW_Server
begin

text \<open>
  \<open>src/code/src/dma_handler.c\<close>: the DMA channel that delivers CSI and constellation samples.

  The driver library (\<open>axidma_*\<close> of \<open>cst_net.h\<close>) is not part of the repository.  The program
  passes it commands and ignores its answers, so the model records the commands in order in
  \<open>axi_calls\<close>; \<open>p_axidma\<close> is its handle.  The samples arrive by calls of
  \<open>IQ_register_callback\<close> on a thread of the driver.
\<close>

section \<open>State\<close>

datatype axi_call = Axi_Register nat | Axi_Chan nat int | Axi_Start nat | Axi_Stop nat | Axi_Close nat

record g_dma_para =
  slow_cnt :: "32 word"
  dma_state :: int
  csi_state :: int
  constellation_state :: int
  p_axidma :: "nat option"
  axi_calls :: "axi_call list"

definition axi :: "axi_call list \<Rightarrow> g_dma_para \<Rightarrow> g_dma_para" where
  "axi cs g = g\<lparr>axi_calls := axi_calls g @ cs\<rparr>"

lemma axi_simps [simp]:
  "slow_cnt (axi cs g) = slow_cnt g" "csi_state (axi cs g) = csi_state g"
  "constellation_state (axi cs g) = constellation_state g" "p_axidma (axi cs g) = p_axidma g"
  "axi_calls (axi cs g) = axi_calls g @ cs" "dma_state (axi cs g) = dma_state g"
  by (simp_all add: axi_def)

section \<open>Samples\<close>

text \<open>
  \<open>buf\<close> has room for the header in front of the \<open>buf_len\<close> bytes of samples.  Both modes at
  once, or none, give type 0.
\<close>

definition iq_type :: "g_dma_para \<Rightarrow> int" where
  "iq_type g =
     (if csi_state g = 1 \<and> constellation_state g = 0 then 2
      else if constellation_state g = 1 \<and> csi_state g = 0 then 4
      else 0)"

definition IQ_register_callback :: "bytes \<Rightarrow> int \<Rightarrow> g_dma_para \<times> srv \<Rightarrow> (g_dma_para \<times> srv) res" where
  "IQ_register_callback buf buf_len gs =
     (let (g, s) = gs
      in if slow_cnt g < 50 then Inr (g\<lparr>slow_cnt := slow_cnt g + 1\<rparr>, s)
         else let g1 = g\<lparr>slow_cnt := 0\<rparr>
              in res_bind (chk32 (buf_len + 4 + 4)) (\<lambda>messageLen.
                 res_bind (wr buf 0 (le32 (buf_len + 4))) (\<lambda>b1.
                 res_bind (wr b1 4 (le32 (iq_type g1))) (\<lambda>b2.
                 res_bind (sendToPc b2 messageLen s) (\<lambda>(_, s'). Inr (g1, s'))))))"

section \<open>Control\<close>

text \<open>\<open>opened\<close> is what \<open>axidma_open\<close> returns.\<close>

definition init_dma_state :: "nat option \<Rightarrow> int \<times> g_dma_para" where
  "init_dma_state opened =
     (let g = \<lparr>slow_cnt = 0, dma_state = 0, csi_state = 0, constellation_state = 0,
               p_axidma = opened, axi_calls = []\<rparr>
      in if p_axidma g = None then (- 1, g) else (0, g\<lparr>dma_state := 1\<rparr>))"

text \<open>The library is called whether or not there is a handle; \<open>rc\<close> is its answer.\<close>

definition dma_register_callback :: "int \<Rightarrow> g_dma_para \<Rightarrow> int \<times> g_dma_para" where
  "dma_register_callback rc g =
     ((if rc \<noteq> 0 then - 1 else 0),
      axi [Axi_Register (case p_axidma g of Some p \<Rightarrow> p | None \<Rightarrow> 0)] g)"

definition gw_startcsi :: "g_dma_para \<Rightarrow> g_dma_para" where
  "gw_startcsi g =
     (if csi_state g = 1 then g
      else case p_axidma g of
             None \<Rightarrow> g\<lparr>csi_state := 0\<rparr>
           | Some p \<Rightarrow> (axi [Axi_Chan p 0x40, Axi_Start p] g)\<lparr>csi_state := 1\<rparr>)"

definition gw_stopcsi :: "g_dma_para \<Rightarrow> g_dma_para" where
  "gw_stopcsi g =
     (if csi_state g = 0 then g
      else case p_axidma g of
             None \<Rightarrow> g\<lparr>csi_state := 0\<rparr>
           | Some p \<Rightarrow> (axi [Axi_Stop p] g)\<lparr>csi_state := 0, constellation_state := 0\<rparr>)"

definition gw_closedma :: "g_dma_para \<Rightarrow> g_dma_para" where
  "gw_closedma g =
     (case p_axidma g of
        None \<Rightarrow> g
      | Some p \<Rightarrow> (axi [Axi_Close p] g)\<lparr>p_axidma := None, dma_state := 0\<rparr>)"

definition gw_start_constellation :: "g_dma_para \<Rightarrow> g_dma_para" where
  "gw_start_constellation g =
     (if constellation_state g = 1 then g
      else case p_axidma g of
             None \<Rightarrow> g\<lparr>constellation_state := 0\<rparr>
           | Some p \<Rightarrow> (axi [Axi_Chan p 0x80, Axi_Start p] g)\<lparr>constellation_state := 1\<rparr>)"

definition gw_stop_constellation :: "g_dma_para \<Rightarrow> g_dma_para" where
  "gw_stop_constellation g =
     (if constellation_state g = 0 then g
      else case p_axidma g of
             None \<Rightarrow> g\<lparr>constellation_state := 0\<rparr>
           | Some p \<Rightarrow> (axi [Axi_Stop p] g)\<lparr>constellation_state := 0, csi_state := 0\<rparr>)"

section \<open>What the callback sends\<close>

text \<open>One buffer in 51 is sent; \<open>c\<close> is the counter.\<close>

fun every_51st :: "nat \<Rightarrow> 'a list \<Rightarrow> 'a list" where
  "every_51st c [] = []"
| "every_51st c (x # xs) = (if c < 50 then every_51st (Suc c) xs else x # every_51st 0 xs)"

fun iq_run :: "bytes list \<Rightarrow> g_dma_para \<times> srv \<Rightarrow> (g_dma_para \<times> srv) res" where
  "iq_run [] gs = Inr gs"
| "iq_run (b # bs) gs = res_bind (IQ_register_callback b (int (length b) - 8) gs) (iq_run bs)"

lemma length_every_51st:
  "c \<le> 50 \<Longrightarrow> length (every_51st c xs) = (c + length xs) div 51"
proof (induction c xs rule: every_51st.induct)
  case (2 c x xs)
  show ?case
  proof (cases "c < 50")
    case False
    then have "c + length (x # xs) = 51 + length xs" using 2 by simp
    with False 2 show ?thesis by simp
  qed (use 2 in simp)
qed simp

lemma wr_header:
  assumes "length h = 8"
  shows "res_bind (wr (h @ d) 0 (le32 a)) (\<lambda>b1. res_bind (wr b1 4 (le32 t)) k) = k (le32 a @ le32 t @ d)"
proof -
  have h: "h = take 4 h @ drop 4 h" "length (take 4 h) = 4" "length (drop 4 h) = 4" using assms by simp_all
  have 1: "wr (h @ d) 0 (le32 a) = Inr (le32 a @ drop 4 h @ d)"
    using wr_mid [of 0 "[]" "le32 a" "take 4 h" "drop 4 h @ d"] h by (simp flip: append_assoc)
  have "wr (le32 a @ drop 4 h @ d) 4 (le32 t) = Inr (le32 a @ le32 t @ d)"
    by (rule wr_mid) (use h in simp_all)
  with 1 show ?thesis by simp
qed

lemma IQ_skip:
  "slow_cnt g < 50 \<Longrightarrow> IQ_register_callback b n (g, s) = Inr (g\<lparr>slow_cnt := slow_cnt g + 1\<rparr>, s)"
  by (simp add: IQ_register_callback_def)

lemma IQ_send:
  assumes "\<not> slow_cnt g < 50" and "length h = 8" and "n = int (length d)" and "length d < 2000000000"
  shows "IQ_register_callback (h @ d) n (g, s) =
    res_bind (sendToPc (mk_frame (iq_type g, d)) (int (length (mk_frame (iq_type g, d)))) s)
      (\<lambda>(_, s'). Inr (g\<lparr>slow_cnt := 0\<rparr>, s'))"
proof -
  have "iq_type (g\<lparr>slow_cnt := 0\<rparr>) = iq_type g" by (simp add: iq_type_def)
  with assms show ?thesis
    by (simp add: IQ_register_callback_def wr_header mk_frame_def algebra_simps)
qed

lemma slow_cnt_Suc:
  assumes "unat w = c" and "c < 50"
  shows "unat (w + 1 :: 32 word) = Suc c" and "w < 50"
proof -
  show "w < 50" using assms by (simp add: word_less_nat_alt)
  from assms show "unat (w + 1) = Suc c"
    by (simp add: unat_word_ariths)
qed

lemma iq_run_frames:
  assumes "unat (slow_cnt g) = c" and "c \<le> 50"
    and "\<forall>b\<in>set bs. 8 \<le> length b \<and> length b < 2000000000"
  shows "res_bind (iq_run bs (g, s)) (\<lambda>gs. Inr (snd gs)) =
    send_all sendToPc (map (\<lambda>b. (iq_type g, drop 8 b)) (every_51st c bs)) s"
  using assms
proof (induction bs arbitrary: g c s)
  case (Cons b bs)
  show ?case
  proof (cases "c < 50")
    case True
    from slow_cnt_Suc [OF Cons.prems(1) True]
    have w: "slow_cnt g < 50" "unat (slow_cnt (g\<lparr>slow_cnt := slow_cnt g + 1\<rparr>)) = Suc c" by simp_all
    have t: "iq_type (g\<lparr>slow_cnt := slow_cnt g + 1\<rparr>) = iq_type g" by (simp add: iq_type_def)
    from Cons.IH [OF w(2)] True Cons.prems(3) show ?thesis
      by (simp add: IQ_skip [OF w(1)] t)
  next
    case False
    then have c: "\<not> slow_cnt g < 50" using Cons.prems(1) by (simp add: word_less_nat_alt)
    let ?f = "(iq_type g, drop 8 b)"
    have b: "IQ_register_callback b (int (length b) - 8) (g, s) =
        res_bind (sendToPc (mk_frame ?f) (int (length (mk_frame ?f))) s)
          (\<lambda>(_, s'). Inr (g\<lparr>slow_cnt := 0\<rparr>, s'))"
      using IQ_send [OF c, of "take 8 b" "int (length b) - 8" "drop 8 b" s] Cons.prems(3) by auto
    have t: "iq_type (g\<lparr>slow_cnt := 0\<rparr>) = iq_type g" by (simp add: iq_type_def)
    have IH: "res_bind (iq_run bs (g\<lparr>slow_cnt := 0\<rparr>, s')) (\<lambda>gs. Inr (snd gs)) =
        send_all sendToPc (map (\<lambda>b. (iq_type g, drop 8 b)) (every_51st 0 bs)) s'" for s'
      using Cons.IH [of "g\<lparr>slow_cnt := 0\<rparr>" 0 s'] Cons.prems(3) by (simp add: t)
    show ?thesis
      using False
      by (cases "sendToPc (mk_frame ?f) (int (length (mk_frame ?f))) s")
        (auto simp: b IH split: prod.split)
  qed
qed simp

section \<open>The modes\<close>

text \<open>The operations the event loop calls, and whether the last command started the channel.\<close>

datatype dma_cmd = D_StartCsi | D_StopCsi | D_StartConst | D_StopConst

fun dma_op :: "dma_cmd \<Rightarrow> g_dma_para \<Rightarrow> g_dma_para" where
  "dma_op D_StartCsi = gw_startcsi"
| "dma_op D_StopCsi = gw_stopcsi"
| "dma_op D_StartConst = gw_start_constellation"
| "dma_op D_StopConst = gw_stop_constellation"

definition axi_running :: "g_dma_para \<Rightarrow> bool" where
  "axi_running g \<longleftrightarrow>
     (case filter (\<lambda>c. case c of Axi_Start _ \<Rightarrow> True | Axi_Stop _ \<Rightarrow> True | _ \<Rightarrow> False) (rev (axi_calls g)) of
        Axi_Start _ # _ \<Rightarrow> True | _ \<Rightarrow> False)"

lemma axi_running_simps [simp]:
  "axi_running (g\<lparr>csi_state := a\<rparr>) = axi_running g"
  "axi_running (g\<lparr>constellation_state := a\<rparr>) = axi_running g"
  "axi_running (axi [Axi_Chan p n, Axi_Start p] g) \<longleftrightarrow> True"
  "axi_running (axi [Axi_Stop p] g) \<longleftrightarrow> False"
  by (simp_all add: axi_running_def)

definition dma_inv :: "g_dma_para \<Rightarrow> bool" where
  "dma_inv g \<longleftrightarrow> p_axidma g \<noteq> None \<and> csi_state g \<in> {0, 1} \<and> constellation_state g \<in> {0, 1} \<and>
     (axi_running g \<longleftrightarrow> csi_state g = 1 \<or> constellation_state g = 1)"

lemma dma_inv_op: "dma_inv g \<Longrightarrow> dma_inv (dma_op c g)"
  by (cases c; cases "p_axidma g")
    (auto simp: dma_inv_def gw_startcsi_def gw_stopcsi_def gw_start_constellation_def gw_stop_constellation_def)

lemma dma_inv_ops: "dma_inv g \<Longrightarrow> dma_inv (fold dma_op cs g)"
  by (induction cs arbitrary: g) (simp_all add: dma_inv_op)

section \<open>Properties\<close>

definition ex_dma :: g_dma_para where
  "ex_dma = gw_startcsi (snd (init_dma_state (Some 1)))"

text \<open>
  Property C30: The sample callback sends one buffer in 51: a run of callbacks hands
  \<open>sendToPc\<close> exactly the frames made of the selected buffers, each with the type of the mode
  in force, and \<open>n\<close> callbacks from a fresh counter send \<open>n div 51\<close> frames.
\<close>
theorem iq_decimation:
  assumes "unat (slow_cnt g) = c" and "c \<le> 50"
    and "\<forall>b\<in>set bs. 8 \<le> length b \<and> length b < 2000000000"
  shows "res_bind (iq_run bs (g, s)) (\<lambda>gs. Inr (snd gs)) =
      send_all sendToPc (map (\<lambda>b. (iq_type g, drop 8 b)) (every_51st c bs)) s \<and>
    length (every_51st c bs) = (c + length bs) div 51"
  using iq_run_frames [OF assms] length_every_51st [OF assms(2)] by blast

theorem iq_decimation_witness:
  "res_bind (iq_run (replicate 60 (replicate 12 CHR ''s'')) (ex_dma, ex_srv)) (\<lambda>gs. Inr (snd gs)) =
      send_all sendToPc (map (\<lambda>b. (iq_type ex_dma, drop 8 b))
        (every_51st 0 (replicate 60 (replicate 12 CHR ''s'')))) ex_srv \<and>
    length (every_51st 0 (replicate 60 (replicate 12 CHR ''s''))) =
      (0 + length (replicate 60 (replicate 12 CHR ''s''))) div 51"
  by (rule iq_decimation) (simp_all add: ex_dma_def gw_startcsi_def init_dma_state_def)



text \<open>
  A client that starts both modes gets neither: the two commands leave the
  hardware on the constellation channel, and the samples go out with type 0, which is not a
  type of the protocol.
\<close>
lemma dma_both_modes_untyped:
  "iq_type (gw_start_constellation (gw_startcsi (snd (init_dma_state (Some p))))) = 0 \<and>
   axi_calls (gw_start_constellation (gw_startcsi (snd (init_dma_state (Some p))))) =
     [Axi_Chan p 0x40, Axi_Start p, Axi_Chan p 0x80, Axi_Start p]"
  by (simp add: gw_startcsi_def gw_start_constellation_def init_dma_state_def iq_type_def)

end
