(* ===== verification/GW_EventLoop.thy ===== *)
theory GW_EventLoop
  imports GW_ProcBroker GW_Timer GW_Dma
begin

text \<open>
  \<open>src/code/src/event_process.c\<close>: the main loop.  It takes one message after the other from the
  queue and dispatches on its type; all the control state of the program is changed here.

  The state of the whole program is the queue, the timer (its thread's place and its object), the request processor with
  the server it points to, and the DMA object.  A handler runs as one step; the other threads run between the
  handlers (the timer between its own steps).
\<close>

section \<open>State\<close>

record sys =
  sy_queue :: g_msg_queue_para
  sy_timer :: "tpc \<times> g_timer_para"
  sy_broker :: g_broker_para
  sy_dma :: g_dma_para

abbreviation server :: "sys \<Rightarrow> srv" where "server y \<equiv> psv (sy_broker y)"

definition set_server :: "srv \<Rightarrow> sys \<Rightarrow> sys" where
  "set_server s y = y\<lparr>sy_broker := (sy_broker y)\<lparr>psv := s\<rparr>\<rparr>"

text \<open>
  What a turn of the loop meets: the environment of the requests, the addresses and the library's answer when the
  callback is registered, the driver's answer, whether \<open>memcpy\<close> copies upwards, the uninitialised memory of
  messages, and what the receive thread is doing when it is stopped.
\<close>

record 'd turn =
  tu_env :: "'d env"
  tu_addr :: nat
  tu_waddr :: nat
  tu_ack :: ack_env
  tu_axi :: int
  tu_ovl :: bool
  tu_junk :: bytes
  tu_inflight :: "bytes option option"

text \<open>A handler goes on to the next turn, runs into undefined behaviour, or does not return; or the loop waits for a message.\<close>

datatype 'a outcome = Next 'a | Ub ub | Hangs | Waits

definition of_res :: "'a res \<Rightarrow> 'a outcome" where
  "of_res r = (case r of Inl e \<Rightarrow> Ub e | Inr x \<Rightarrow> Next x)"

lemma of_res_simps [simp]: "of_res (Inl e) = Ub e" "of_res (Inr x) = Next x"
  by (simp_all add: of_res_def)

section \<open>The handlers\<close>

text \<open>The lines of \<open>display\<close> read the counters and the socket of the receiver; only the pointer matters.\<close>

definition display :: "srv \<Rightarrow> unit res" where
  "display s = res_bind (deref_rx (g_receive (sv s)) (rx_heap s)) (\<lambda>_. Inr ())"

definition register_callbacks :: "'d turn \<Rightarrow> sys \<Rightarrow> sys" where
  "register_callbacks L y =
     (if enableCallback (sv (server y)) = 0 then
        (let p = snd (broker_register_callback (tu_addr L) (tu_waddr L) (tu_ack L) (sy_broker y));
             y1 = y\<lparr>sy_broker := p, sy_dma := snd (dma_register_callback (tu_axi L) (sy_dma y))\<rparr>
         in set_server ((server y1)\<lparr>sv := (sv (server y1))\<lparr>enableCallback := 1\<rparr>\<rparr>) y1)
      else y)"

definition start_supervision :: "'d turn \<Rightarrow> sys \<Rightarrow> sys" where
  "start_supervision L y =
     (if hasTimer (sv (server y)) = 0 then
        (let y1 = y\<lparr>sy_timer := apsnd (Start_Timer (timerout_cb (tu_junk L)) 4 0) (sy_timer y)\<rparr>
         in set_server ((server y1)\<lparr>sv := (sv (server y1))\<lparr>hasTimer := 1\<rparr>\<rparr>) y1)
      else y)"

definition on_accept :: "'d turn \<Rightarrow> sys \<Rightarrow> sys outcome" where
  "on_accept L y =
     (let y1 = start_supervision L (register_callbacks L y)
      in Next (set_server (enable_send (server y1)) y1))"

definition on_timeout :: "'d turn \<Rightarrow> sys \<Rightarrow> sys outcome" where
  "on_timeout L y =
     (if waiting (sv (server y)) = STATE_DISCONNECTED then Next y
      else case deref_rx (g_receive (sv (server y))) (rx_heap (server y)) of
        Inl e \<Rightarrow> Ub e
      | Inr (a, r) \<Rightarrow>
          if connected r = 1 then
            (let s1 = (server y)\<lparr>rx_heap := (rx_heap (server y))(a \<mapsto> r\<lparr>connected := 0\<rparr>)\<rparr>
             in of_res (res_bind (display s1) (\<lambda>_. Inr (set_server s1 y))))
          else
            (case close_rssi (tu_env L) (sy_broker y) of
               Inl e \<Rightarrow> Ub e
             | Inr p \<Rightarrow>
                 (let y1 = y\<lparr>sy_broker := p, sy_dma := gw_stop_constellation (gw_stopcsi (sy_dma y))\<rparr>
                  in case stopReceThread (tu_ovl L) (tu_junk L) (tu_inflight L) (server y1, sy_queue y1) of
                       None \<Rightarrow> Hangs
                     | Some x \<Rightarrow> of_res (res_bind x (\<lambda>(s, q). Inr ((set_server s y1)\<lparr>sy_queue := q\<rparr>))))))"

definition on_closed :: "sys \<Rightarrow> sys outcome" where
  "on_closed y =
     (if hasTimer (sv (server y)) = 1 then
        (let y1 = y\<lparr>sy_timer := apsnd stop_Timer (sy_timer y)\<rparr>
         in Next (set_server ((server y1)\<lparr>sv := (sv (server y1))\<lparr>hasTimer := 0\<rparr>\<rparr>) y1))
      else Next y)"

definition on_heart_beat :: "sys \<Rightarrow> sys outcome" where
  "on_heart_beat y =
     of_res (res_bind (deref_rx (g_receive (sv (server y))) (rx_heap (server y))) (\<lambda>(a, r).
       Inr (set_server ((server y)\<lparr>rx_heap := (rx_heap (server y))(a \<mapsto> r\<lparr>connected := 1\<rparr>)\<rparr>) y)))"

definition on_request :: "'d turn \<Rightarrow> msg_st \<Rightarrow> sys \<Rightarrow> sys outcome" where
  "on_request L m y =
     (if msg_type m = MSG_RSSI_STATE_CHANGE then
        of_res (res_bind (rssi_state_change (tu_env L) (msg_json m) (msg_len m) (sy_broker y)) (\<lambda>p. Inr (y\<lparr>sy_broker := p\<rparr>)))
      else if msg_type m = MSG_INQUIRY_STATE then
        of_res (res_bind (inquiry_state_from (tu_env L) (msg_json m) (msg_len m) (sy_broker y)) (\<lambda>(_, p). Inr (y\<lparr>sy_broker := p\<rparr>)))
      else of_res (res_bind (inquiry_rf_and_mf (tu_env L) (sy_broker y)) (\<lambda>(_, p). Inr (y\<lparr>sy_broker := p\<rparr>))))"

text \<open>The \<open>switch\<close>; a type outside it is dropped.\<close>

definition dispatch :: "'d turn \<Rightarrow> msg_st \<Rightarrow> sys \<Rightarrow> sys outcome" where
  "dispatch L m y =
     (let t = msg_type m
      in if t = MSG_ACCEPT_NEW_CLIENT then on_accept L y
         else if t \<in> {MSG_RSSI_STATE_CHANGE, MSG_INQUIRY_STATE, MSG_RF_MF_STATE} then on_request L m y
         else if t = MSG_TIMEOUT then on_timeout L y
         else if t = MSG_STOP_TIMER then Next y
         else if t = MSG_RECEIVE_THREAD_CLOSED then on_closed y
         else if t = MSG_RECEIVED_HEART_BEAT then on_heart_beat y
         else if t = MSG_STOP_CSI then Next (y\<lparr>sy_dma := gw_stopcsi (sy_dma y)\<rparr>)
         else if t = MSG_START_CSI then Next (y\<lparr>sy_dma := gw_startcsi (sy_dma y)\<rparr>)
         else if t = MSG_START_CONSTELLATION then Next (y\<lparr>sy_dma := gw_start_constellation (sy_dma y)\<rparr>)
         else if t = MSG_STOP_CONSTELLATION then Next (y\<lparr>sy_dma := gw_stop_constellation (sy_dma y)\<rparr>)
         else Next y)"

text \<open>One turn of \<open>while(1)\<close>.  A failed \<open>msgrcv\<close> is tried again.\<close>

definition eventLoop :: "'d turn \<Rightarrow> sys \<Rightarrow> sys outcome" where
  "eventLoop L y =
     (case getMsgQueue (tu_junk L) (sy_queue y) of
        None \<Rightarrow> Waits
      | Some (None, q) \<Rightarrow> Next (y\<lparr>sy_queue := q\<rparr>)
      | Some (Some m, q) \<Rightarrow> dispatch L m (y\<lparr>sy_queue := q\<rparr>))"

fun event_turns :: "'d turn list \<Rightarrow> sys \<Rightarrow> sys outcome" where
  "event_turns [] y = Next y"
| "event_turns (L # Ls) y = (case eventLoop L y of Next y' \<Rightarrow> event_turns Ls y' | r \<Rightarrow> r)"


section \<open>The supervision of a client, abstractly\<close>

text \<open>
  What the loop promises about a client: it stays as long as a heart beat comes between any two timeouts,
  and the second timeout without one drops it.  A heart beat when there is no client has no meaning.
\<close>

datatype link = Down | Up (alive: bool)

fun supervise :: "int list \<Rightarrow> link \<Rightarrow> link option" where
  "supervise [] l = Some l"
| "supervise (t # ts) l =
     (if t = MSG_RECEIVED_HEART_BEAT then (case l of Down \<Rightarrow> None | Up _ \<Rightarrow> supervise ts (Up True))
      else if t = MSG_TIMEOUT then
        supervise ts (case l of Down \<Rightarrow> Down | Up b \<Rightarrow> if b then Up False else Down)
      else supervise ts l)"

definition link_of :: "srv \<Rightarrow> link" where
  "link_of s = (case deref_rx (g_receive (sv s)) (rx_heap s) of Inl _ \<Rightarrow> Down | Inr (a, r) \<Rightarrow> Up (connected r = 1))"

text \<open>A run of \<open>k\<close> periods, each with a heart beat before its timeout, leaves the client connected.\<close>

lemma supervise_alive: "supervise (concat (replicate k [MSG_RECEIVED_HEART_BEAT, MSG_TIMEOUT])) (Up b) =
    Some (if k = 0 then Up b else Up False)"
  by (induction k arbitrary: b) simp_all

lemma supervise_silent: "supervise [MSG_TIMEOUT, MSG_TIMEOUT] (Up b) = Some Down"
  by (cases b) simp_all

text \<open>The states by how long the client may stay silent; a client that is better off stays better off.\<close>

fun patience :: "link \<Rightarrow> nat" where
  "patience Down = 0"
| "patience (Up False) = 1"
| "patience (Up True) = 2"

lemma patience_eq: "patience l = patience m \<longleftrightarrow> l = m"
  by (cases l rule: patience.cases; cases m rule: patience.cases) simp_all

instantiation link :: linorder
begin

definition less_eq_link :: "link \<Rightarrow> link \<Rightarrow> bool" where "l \<le> m \<longleftrightarrow> patience l \<le> patience m"
definition less_link :: "link \<Rightarrow> link \<Rightarrow> bool" where "l < m \<longleftrightarrow> patience l < patience m"

instance
  by standard (auto simp: less_eq_link_def less_link_def patience_eq)

end

lemma supervise_step: "supervise (t # ts) l = Option.bind (supervise [t] l) (supervise ts)"
  by (cases l) simp_all

lemma supervise_mono1: "l \<le> m \<Longrightarrow> supervise [t] l = Some l' \<Longrightarrow> \<exists>m'. supervise [t] m = Some m' \<and> l' \<le> m'"
  by (cases l rule: patience.cases; cases m rule: patience.cases) (auto simp: less_eq_link_def split: if_splits)

lemma supervise_mono: "l \<le> m \<Longrightarrow> supervise ts l = Some l' \<Longrightarrow> \<exists>m'. supervise ts m = Some m' \<and> l' \<le> m'"
proof (induction ts arbitrary: l m)
  case (Cons t ts)
  from Cons.prems(2) obtain k where "supervise [t] l = Some k" "supervise ts k = Some l'"
    unfolding supervise_step [of t ts] by (auto simp: bind_eq_Some_conv)
  with supervise_mono1 [OF Cons.prems(1)] Cons.IH show ?case
    unfolding supervise_step [of t ts] by (fastforce simp: bind_eq_Some_conv)
qed simp

section \<open>The handlers of the supervision\<close>

text \<open>Between the turns: a client is there or not (and the server is past its start), no request is answered.\<close>

definition sup_ok :: "'d turn \<Rightarrow> nat \<Rightarrow> sys \<Rightarrow> bool" where
  "sup_ok L n y \<longleftrightarrow> srv_inv (server y) \<and> waiting (sv (server y)) \<noteq> STATE_STARTUP \<and>
     quiet (tu_env L) (sy_broker y) \<and> xfers (sy_broker y) = [] \<and> mq_ready n (sy_queue y)"

definition turn_ok :: "'d turn \<Rightarrow> bool" where
  "turn_ok L \<longleftrightarrow> length (tu_junk L) = 2048 \<and> tu_inflight L = None"

lemma server_simps [simp]:
  "server (set_server s y) = s" "server (y\<lparr>sy_queue := q\<rparr>) = server y" "server (y\<lparr>sy_dma := d\<rparr>) = server y"
  "server (y\<lparr>sy_timer := t\<rparr>) = server y" "sy_queue (set_server s y) = sy_queue y" "sy_dma (set_server s y) = sy_dma y"
  "sy_timer (set_server s y) = sy_timer y" "xfers (sy_broker (set_server s y)) = xfers (sy_broker y)"
  "lib (sy_broker (set_server s y)) = lib (sy_broker y)" "rssi_state (sy_broker (set_server s y)) = rssi_state (sy_broker y)"
  "set_server s y\<lparr>sy_queue := q\<rparr> = set_server s (y\<lparr>sy_queue := q\<rparr>)"
  by (simp_all add: set_server_def)

lemma quiet_simps [simp]: "quiet E (p\<lparr>psv := s\<rparr>) = quiet E p" "quiet E (sy_broker (set_server s y)) = quiet E (sy_broker y)"
  by (simp_all add: quiet_def)

lemma link_of_Up:
  assumes "srv_inv s"
  shows "link_of s = Up b \<longleftrightarrow> (\<exists>a r. g_receive (sv s) = Some a \<and> rx_heap s a = Some r \<and> (connected r = 1 \<longleftrightarrow> b))"
    and "link_of s = Down \<longleftrightarrow> g_receive (sv s) = None"
  using assms by (auto simp: link_of_def srv_inv_def deref_rx_def split: option.splits)

lemma srv_inv_connected:
  assumes "srv_inv s" and "rx_heap s a = Some r"
  shows "srv_inv (s\<lparr>rx_heap := (rx_heap s)(a \<mapsto> r\<lparr>connected := c\<rparr>)\<rparr>)"
  using assms by (auto simp: srv_inv_def)

lemma on_heart_beat_up:
  assumes "sup_ok L n y" and "link_of (server y) = Up b"
  shows "\<exists>s. on_heart_beat y = Next (set_server s y) \<and> sup_ok L n (set_server s y) \<and> link_of s = Up True"
proof -
  from assms obtain a r where a: "g_receive (sv (server y)) = Some a" "rx_heap (server y) a = Some r"
    by (auto simp: sup_ok_def link_of_Up)
  with assms(1) srv_inv_connected [OF _ a(2), of 1] show ?thesis
    by (intro exI [of _ "(server y)\<lparr>rx_heap := (rx_heap (server y))(a \<mapsto> r\<lparr>connected := 1\<rparr>)\<rparr>"])
      (simp add: on_heart_beat_def deref_rx_def sup_ok_def link_of_def)
qed

lemma on_heart_beat_down: "srv_inv (server y) \<Longrightarrow> link_of (server y) = Down \<Longrightarrow> on_heart_beat y = Ub NullDeref"
  by (simp add: link_of_Up on_heart_beat_def deref_rx_def)

lemma on_timeout_down:
  assumes "sup_ok L n y" and "link_of (server y) = Down"
  shows "on_timeout L y = Next y"
  using assms by (auto simp: sup_ok_def link_of_Up on_timeout_def srv_inv_def)

lemma on_timeout_alive:
  assumes "sup_ok L n y" and "link_of (server y) = Up True"
  shows "\<exists>s. on_timeout L y = Next (set_server s y) \<and> sup_ok L n (set_server s y) \<and> link_of s = Up False \<and>
    sv s = sv (server y)"
proof -
  from assms obtain a r where a: "g_receive (sv (server y)) = Some a" "rx_heap (server y) a = Some r" "connected r = 1"
    by (auto simp: sup_ok_def link_of_Up)
  with assms(1) have w: "waiting (sv (server y)) \<noteq> STATE_DISCONNECTED" by (auto simp: sup_ok_def srv_inv_def)
  with a assms(1) srv_inv_connected [OF _ a(2), of 0] show ?thesis
    by (intro exI [of _ "(server y)\<lparr>rx_heap := (rx_heap (server y))(a \<mapsto> r\<lparr>connected := 0\<rparr>)\<rparr>"])
      (simp add: on_timeout_def deref_rx_def sup_ok_def link_of_def display_def)
qed

definition closed_ev :: "'d turn \<Rightarrow> event" where
  "closed_ev L = (MSG_RECEIVE_THREAD_CLOSED, 0, take 2040 (tu_junk L))"

text \<open>What the program looks like after a client has been dropped.\<close>

definition dropped :: "'d turn \<Rightarrow> sys \<Rightarrow> sys \<Rightarrow> bool" where
  "dropped L y y' \<longleftrightarrow> link_of (server y') = Down \<and> mq_evs (sy_queue y') = mq_evs (sy_queue y) @ [closed_ev L] \<and>
     sy_dma y' = gw_stop_constellation (gw_stopcsi (sy_dma y)) \<and> sy_timer y' = sy_timer y \<and>
     sv (server y') = (sv (server y))\<lparr>g_receive := None, waiting := STATE_DISCONNECTED\<rparr>"

lemma on_timeout_stops:
  assumes "sup_ok L n y" and "link_of (server y) = Up False"
    and "stopReceThread (tu_ovl L) (tu_junk L) (tu_inflight L) (server y, sy_queue y) =
      Some (Inr ((server y)\<lparr>rx_heap := (rx_heap (server y))(the (g_receive (sv (server y))) := None),
        sv := (sv (server y))\<lparr>g_receive := None, waiting := STATE_DISCONNECTED\<rparr>\<rparr>, q'))"
    and "mq_ready k q'" and "mq_evs q' = mq_evs (sy_queue y) @ evs"
  shows "\<exists>y'. on_timeout L y = Next y' \<and> sup_ok L k y' \<and> link_of (server y') = Down \<and>
    mq_evs (sy_queue y') = mq_evs (sy_queue y) @ evs \<and>
    sy_dma y' = gw_stop_constellation (gw_stopcsi (sy_dma y)) \<and> sy_timer y' = sy_timer y \<and>
    sv (server y') = (sv (server y))\<lparr>g_receive := None, waiting := STATE_DISCONNECTED\<rparr>"
proof -
  from assms(1,2) obtain a r where a: "g_receive (sv (server y)) = Some a" "rx_heap (server y) a = Some r" "connected r \<noteq> 1"
    by (auto simp: sup_ok_def link_of_Up)
  have inv: "srv_inv (server y)" using assms(1) by (simp add: sup_ok_def)
  then have w: "waiting (sv (server y)) \<noteq> STATE_DISCONNECTED" using a by (auto simp: srv_inv_def)
  obtain l where l: "close_rssi (tu_env L) (sy_broker y) = Inr ((sy_broker y)\<lparr>lib := l\<rparr>)" "quiet (tu_env L) ((sy_broker y)\<lparr>lib := l\<rparr>)"
    using close_rssi_not_answered assms(1) unfolding sup_ok_def by blast
  let ?s = "(server y)\<lparr>rx_heap := (rx_heap (server y))(a := None),
        sv := (sv (server y))\<lparr>g_receive := None, waiting := STATE_DISCONNECTED\<rparr>\<rparr>"
  let ?y = "set_server ?s (y\<lparr>sy_broker := (sy_broker y)\<lparr>lib := l\<rparr>, sy_dma := gw_stop_constellation (gw_stopcsi (sy_dma y)),
      sy_queue := q'\<rparr>)"
  have "on_timeout L y = Next ?y"
    using a w l(1) assms(3) by (simp add: on_timeout_def deref_rx_def Let_def)
  moreover have "srv_inv ?s" using inv by (simp add: srv_inv_def)
  ultimately show ?thesis using l(2) assms(1,4,5)
    by (intro exI [of _ ?y]) (simp add: sup_ok_def link_of_def deref_rx_def)
qed

lemma link_up_server:
  assumes "srv_inv s" and "link_of s = Up b"
  shows "\<exists>a r. g_receive (sv s) = Some a \<and> rx_heap s a = Some r \<and> pt_mutex (sv_para_t (sv s)) = Unlocked"
  using assms link_of_Up(1) [OF assms(1), of b] by (auto simp: srv_inv_def)

lemma on_timeout_silent:
  assumes "sup_ok L (Suc n) y" and "link_of (server y) = Up False" and "turn_ok L"
  shows "\<exists>y'. on_timeout L y = Next y' \<and> sup_ok L n y' \<and> dropped L y y'"
proof -
  obtain a r where a: "g_receive (sv (server y)) = Some a" "rx_heap (server y) a = Some r"
    "pt_mutex (sv_para_t (sv (server y))) = Unlocked"
    using assms(1,2) link_up_server unfolding sup_ok_def by blast
  from stop_connected [OF a _ _, of n "sy_queue y" "tu_junk L" "tu_ovl L"] assms a(1) obtain q' where
    "stopReceThread (tu_ovl L) (tu_junk L) (tu_inflight L) (server y, sy_queue y) =
      Some (Inr ((server y)\<lparr>rx_heap := (rx_heap (server y))(the (g_receive (sv (server y))) := None),
        sv := (sv (server y))\<lparr>g_receive := None, waiting := STATE_DISCONNECTED\<rparr>\<rparr>, q'))"
    "mq_ready n q'" "mq_evs q' = mq_evs (sy_queue y) @ [closed_ev L]"
    by (auto simp: sup_ok_def turn_ok_def closed_ev_def)
  from on_timeout_stops [OF assms(1,2) this] show ?thesis by (auto simp: dropped_def)
qed

text \<open>The receive thread may be completing a \<open>recv\<close> that brings a heart beat while it is stopped.\<close>

lemma stop_completing:
  assumes "g_receive (sv s) = Some a" and "rx_heap s a = Some r" and "pt_mutex (sv_para_t (sv s)) = Unlocked"
    and "mq_ready (Suc (Suc n)) q" and "length junk = 2048" and "rx_inv r []" and "frame_ok 2001 (99, x)"
  shows "\<exists>q'. stopReceThread ovl junk (Some (Some (mk_frame (99, x)))) (s, q) =
      Some (Inr (s\<lparr>rx_heap := (rx_heap s)(a := None),
                   sv := (sv s)\<lparr>g_receive := None, waiting := STATE_DISCONNECTED\<rparr>\<rparr>, q')) \<and>
    mq_ready n q' \<and>
    mq_evs q' = mq_evs q @ [(MSG_RECEIVED_HEART_BEAT, 0, take 2040 junk), (MSG_RECEIVE_THREAD_CLOSED, 0, take 2040 junk)]"
proof -
  let ?r = "r\<lparr>receive_running := 0\<rparr>"
  let ?d = "mk_frame (99, x)"
  have inv: "rx_inv ?r []" using assms(6) by (simp add: rx_inv_def)
  have f: "\<forall>f\<in>set [(99, x)]. frame_ok 2001 f" using assms(7) by simp
  from post_frames [OF f assms(5), of "Suc n" q] assms(4) obtain q1 where
    q1: "post_list postMsgQueue (concat (map (frame_msgs junk) [(99, x)])) q = Inr q1" "mq_ready (Suc n) q1"
      "mq_evs q1 = mq_evs q @ map mq_ev (concat (map (frame_msgs junk) [(99, x)]))" by auto
  have "?d \<noteq> []" "length ?d \<le> 8240" using assms(7) by (simp_all add: mk_frame_def le32_def frame_ok_def)
  from receive_chunk [OF inv this _ _ _ _ assms(5) _ q1(1), of "[]" ovl] assms(7) obtain r1 where
    r1: "receive ovl junk (Some ?d) (?r, q) = Some (Inr (r1, q1))" "receive_running r1 = 0"
    using frame_ok_rx by auto
  obtain q2 where q2: "postMsg junk MSG_RECEIVE_THREAD_CLOSED None 0 q1 = Inr q2" "mq_ready n q2"
    "mq_evs q2 = mq_evs q1 @ [(MSG_RECEIVE_THREAD_CLOSED, 0, take 2040 junk)]"
    using postMsg_ready [OF q1(2) _ assms(5), of MSG_RECEIVE_THREAD_CLOSED] by (auto simp del: postMsg_NULL)
  have "join_receive_thread ovl junk (Some (Some ?d)) (?r, q) = Some (Inr (r1, q2))"
    using r1 q2(1) receive_thread_stopped [of r1 ovl junk "[]" q1]
    by (simp add: join_receive_thread_def del: postMsg_NULL)
  with assms(1-3) have "stopReceThread ovl junk (Some (Some ?d)) (s, q) =
      Some (Inr (s\<lparr>rx_heap := (rx_heap s)(a := None),
                   sv := (sv s)\<lparr>g_receive := None, waiting := STATE_DISCONNECTED\<rparr>\<rparr>, q2))"
    by (simp add: stopReceThread_def freeReceThread_def getServerwaiting_def Let_def deref_rx_def
        getRunningState_def mutex_reInit_def)
  with q1(3) q2(2,3) show ?thesis by (simp add: frame_msgs_def frame_event_def mq_ev_def)
qed

section \<open>Turns\<close>

lemma eventLoop_ev:
  assumes "mq_ready n (sy_queue y)" and "mq_evs (sy_queue y) = e # es"
  shows "\<exists>m q. eventLoop L y = dispatch L m (y\<lparr>sy_queue := q\<rparr>) \<and> mq_ev m = e \<and> mq_evs q = es \<and> mq_ready n q"
proof -
  obtain m q where "getMsgQueue (tu_junk L) (sy_queue y) = Some (Some m, q)" "mq_ev m = e" "mq_evs q = es" "mq_ready n q"
    using getMsgQueue_evs [OF assms] by blast
  then show ?thesis by (intro exI [of _ m] exI [of _ q]) (simp add: eventLoop_def)
qed

lemma dispatch_supervision:
  "msg_type m = MSG_TIMEOUT \<Longrightarrow> dispatch L m y = on_timeout L y"
  "msg_type m = MSG_RECEIVED_HEART_BEAT \<Longrightarrow> dispatch L m y = on_heart_beat y"
  "msg_type m = MSG_RECEIVE_THREAD_CLOSED \<Longrightarrow> dispatch L m y = on_closed y"
  "msg_type m = MSG_ACCEPT_NEW_CLIENT \<Longrightarrow> dispatch L m y = on_accept L y"
  by (simp_all add: dispatch_def Let_def)

lemma timeout_turn:
  assumes "sup_ok L n y" and "mq_evs (sy_queue y) = e # es" and "fst e = MSG_TIMEOUT"
  shows "\<exists>q. eventLoop L y = on_timeout L (y\<lparr>sy_queue := q\<rparr>) \<and> sup_ok L n (y\<lparr>sy_queue := q\<rparr>) \<and> mq_evs q = es"
proof -
  from assms(1,2) obtain m q where "eventLoop L y = dispatch L m (y\<lparr>sy_queue := q\<rparr>)" "mq_ev m = e" "mq_evs q = es" "mq_ready n q"
    using eventLoop_ev unfolding sup_ok_def by blast
  with assms(1,3) show ?thesis by (auto simp: dispatch_supervision mq_ev_def sup_ok_def)
qed

lemma closed_turn:
  assumes "sup_ok L n y" and "mq_evs (sy_queue y) = [closed_ev L]" and "hasTimer (sv (server y)) = 1"
  shows "\<exists>y'. eventLoop L y = Next y' \<and> hasTimer (sv (server y')) = 0 \<and> closeState (snd (sy_timer y')) = 1 \<and>
    sy_dma y' = sy_dma y \<and> mq_evs (sy_queue y') = [] \<and>
    g_receive (sv (server y')) = g_receive (sv (server y)) \<and> waiting (sv (server y')) = waiting (sv (server y))"
proof -
  from assms(1,2) obtain m q where "eventLoop L y = dispatch L m (y\<lparr>sy_queue := q\<rparr>)" "mq_ev m = closed_ev L" "mq_evs q = []"
    using eventLoop_ev unfolding sup_ok_def by blast
  with assms(3) show ?thesis
    by (auto simp: dispatch_supervision mq_ev_def closed_ev_def on_closed_def Let_def stop_Timer_def getState_def)
qed

lemma event_turns_snoc: "event_turns (Ls @ [L]) y = (case event_turns Ls y of Next y' \<Rightarrow> eventLoop L y' | r \<Rightarrow> r)"
  by (induction Ls arbitrary: y) (auto split: outcome.splits)

lemma dma_stopped: "csi_state (gw_stop_constellation (gw_stopcsi g)) = 0" "constellation_state (gw_stop_constellation (gw_stopcsi g)) = 0"
  by (auto simp: gw_stop_constellation_def gw_stopcsi_def split: option.splits)

definition supervision_ev :: "event \<Rightarrow> bool" where
  "supervision_ev e \<longleftrightarrow> fst e \<in> {MSG_TIMEOUT, MSG_RECEIVED_HEART_BEAT}"

text \<open>One turn on a timeout or a heart beat.\<close>

lemma supervision_turn:
  assumes "sup_ok L (Suc n) y" and "turn_ok L" and "mq_evs (sy_queue y) = e # es" and "supervision_ev e"
  shows "case supervise [fst e] (link_of (server y)) of
      None \<Rightarrow> eventLoop L y = Ub NullDeref
    | Some l \<Rightarrow> \<exists>y'. eventLoop L y = Next y' \<and> link_of (server y') = l \<and>
        (l = Down \<and> link_of (server y) \<noteq> Down \<longrightarrow> sup_ok L n y' \<and> mq_evs (sy_queue y') = es @ [closed_ev L]) \<and>
        (\<not> (l = Down \<and> link_of (server y) \<noteq> Down) \<longrightarrow> sup_ok L (Suc n) y' \<and> mq_evs (sy_queue y') = es)"
proof -
  from assms(1,3) obtain m q where m: "eventLoop L y = dispatch L m (y\<lparr>sy_queue := q\<rparr>)" "mq_ev m = e" "mq_evs q = es"
    "mq_ready (Suc n) q" using eventLoop_ev unfolding sup_ok_def by blast
  let ?y = "y\<lparr>sy_queue := q\<rparr>"
  have ok: "sup_ok L (Suc n) ?y" using assms(1) m(4) by (simp add: sup_ok_def)
  have inv: "srv_inv (server ?y)" using ok unfolding sup_ok_def by blast
  have t: "msg_type m = fst e" using m(2) by (auto simp: mq_ev_def)
  show ?thesis
  proof (cases "fst e = MSG_TIMEOUT")
    case True
    then have d: "eventLoop L y = on_timeout L ?y" using m(1) t by (simp add: dispatch_supervision)
    consider "link_of (server y) = Down" | "link_of (server y) = Up True" | "link_of (server y) = Up False"
      by (cases "link_of (server y)") auto
    then show ?thesis
    proof cases
      case 1
      with on_timeout_down [OF ok] d ok m(3) True show ?thesis by simp
    next
      case 2
      then obtain s where "on_timeout L ?y = Next (set_server s ?y)" "sup_ok L (Suc n) (set_server s ?y)" "link_of s = Up False"
        using on_timeout_alive [OF ok] by auto
      with 2 d m(3) True show ?thesis by simp
    next
      case 3
      then obtain y' where "on_timeout L ?y = Next y'" "sup_ok L n y'" "dropped L ?y y'"
        using on_timeout_silent [OF ok _ assms(2)] by auto
      with 3 d m(3) True show ?thesis by (simp add: dropped_def)
    qed
  next
    case False
    then have h: "fst e = MSG_RECEIVED_HEART_BEAT" using assms(4) by (simp add: supervision_ev_def)
    then have d: "eventLoop L y = on_heart_beat ?y" using m(1) t by (simp add: dispatch_supervision)
    show ?thesis
    proof (cases "link_of (server y)")
      case Down
      with on_heart_beat_down [OF inv] d h show ?thesis by simp
    next
      case (Up b)
      then obtain s where "on_heart_beat ?y = Next (set_server s ?y)" "sup_ok L (Suc n) (set_server s ?y)" "link_of s = Up True"
        using on_heart_beat_up [OF ok] by auto
      with Up d h m(3) show ?thesis by simp
    qed
  qed
qed

lemma supervise_Down: "supervise ts Down = (if MSG_RECEIVED_HEART_BEAT \<in> set ts then None else Some Down)"
  by (induction ts) auto

lemma sup_ok_mono: "sup_ok L n y \<Longrightarrow> m \<le> n \<Longrightarrow> sup_ok L m y"
  using mq_ready_mono by (auto simp: sup_ok_def)

lemma supervision_turns:
  assumes "sup_ok L (length es) y" and "turn_ok L" and "mq_evs (sy_queue y) = es @ rest" and "list_all supervision_ev es"
  shows "case supervise (map fst es) (link_of (server y)) of
      None \<Rightarrow> event_turns (replicate (length es) L) y = Ub NullDeref
    | Some l \<Rightarrow> \<exists>y'. event_turns (replicate (length es) L) y = Next y' \<and> link_of (server y') = l \<and>
        mq_evs (sy_queue y') = rest @ (if l = Down \<and> link_of (server y) \<noteq> Down then [closed_ev L] else [])"
  using assms(1,3,4)
proof (induction es arbitrary: y rest)
  case (Cons e es)
  have ev: "supervision_ev e" "list_all supervision_ev es" using Cons.prems(3) by simp_all
  have evs: "mq_evs (sy_queue y) = e # (es @ rest)" using Cons.prems(2) by simp
  have "sup_ok L (Suc (length es)) y" using Cons.prems(1) by simp
  note T = supervision_turn [OF this assms(2) evs ev(1)]
  have split: "supervise (map fst (e # es)) l =
      (case supervise [fst e] l of None \<Rightarrow> None | Some l' \<Rightarrow> supervise (map fst es) l')" for l
    by (cases l) auto
  show ?case
  proof (cases "supervise [fst e] (link_of (server y))")
    case None
    with T split show ?thesis by simp
  next
    case (Some l)
    let ?P = "l = Down \<and> link_of (server y) \<noteq> Down"
    from T [unfolded Some option.case append_assoc] obtain y1 where y1: "eventLoop L y = Next y1" "link_of (server y1) = l"
      "?P \<longrightarrow> sup_ok L (length es) y1 \<and> mq_evs (sy_queue y1) = es @ rest @ [closed_ev L]"
      "\<not> ?P \<longrightarrow> sup_ok L (Suc (length es)) y1 \<and> mq_evs (sy_queue y1) = es @ rest"
      by blast
    have 3: "sup_ok L (length es) y1" using y1(3,4) sup_ok_mono [of L "Suc (length es)" y1 "length es"] by (cases ?P) auto
    have 4: "mq_evs (sy_queue y1) = es @ rest @ (if ?P then [closed_ev L] else [])" using y1(3,4) by simp
    have "link_of (server y) = Down \<Longrightarrow> l = Down" using Some by (auto split: if_splits)
    with Cons.IH [OF 3 4 ev(2)] y1(1,2) Some split [of "link_of (server y)"] supervise_Down [of "map fst es"]
    show ?thesis by (auto split: option.splits if_splits)
  qed
qed simp


section \<open>Properties\<close>

text \<open>A program with client 7, whose queue holds messages of the types \<open>ts\<close>.\<close>

definition ex_queue_of :: "int list \<Rightarrow> g_msg_queue_para" where
  "ex_queue_of ts = ex_queue\<lparr>mq_kernel := \<lparr>kq_live = True, kq_msgs = map (\<lambda>t. (t, replicate 2048 NUL)) ts\<rparr>\<rparr>"

definition ex_turn :: "int turn" where
  "ex_turn = \<lparr>tu_env = ex_pbenv, tu_addr = 1, tu_waddr = 2, tu_ack = ex_signalled, tu_axi = 0, tu_ovl = True,
     tu_junk = ex_junk, tu_inflight = None\<rparr>"

definition ex_sys :: "int list \<Rightarrow> sys" where
  "ex_sys ts = \<lparr>sy_queue = ex_queue_of ts, sy_timer = (T_Sleep, ex_timer),
     sy_broker = (ex_pb [])\<lparr>psv := ex_srv\<lparr>sv := (sv ex_srv)\<lparr>hasTimer := 1\<rparr>\<rparr>\<rparr>, sy_dma = ex_dma\<rparr>"

lemma ex_queue_of_evs [simp]: "mq_evs (ex_queue_of ts) = map (\<lambda>t. (t, 0, replicate 2040 NUL)) ts"
proof -
  have "un_le32 (replicate 4 NUL) = 0" by (simp add: numeral_eq_Suc)
  then show ?thesis by (simp add: ex_queue_of_def mq_evs_def)
qed

lemma ex_queue_of_ready: "list_all ((\<le>) 1) ts \<Longrightarrow> n \<le> 1000 \<Longrightarrow> mq_ready n (ex_queue_of ts)"
  by (simp add: ex_queue_of_def mq_ready_def ex_queue_def mq_entry_ok_def list.pred_map list_all_iff)

lemma ex_srv_inv: "srv_inv (ex_srv\<lparr>sv := (sv ex_srv)\<lparr>hasTimer := 1\<rparr>\<rparr>)"
  by (simp add: srv_inv_def) (simp add: ex_rx_def InitReceThread_def)

lemma ex_sys_ok: "list_all ((\<le>) 1) ts \<Longrightarrow> n \<le> 1000 \<Longrightarrow> sup_ok ex_turn n (ex_sys ts)"
  using ex_queue_of_ready [of ts n] ex_srv_inv ex_pb_quiet [of "[]"]
  by (simp add: sup_ok_def ex_sys_def ex_turn_def)

lemma ex_sys_link: "link_of (server (ex_sys ts)) = Up False"
  by (simp add: ex_sys_def link_of_def deref_rx_def) (simp add: ex_rx_def InitReceThread_def)

lemma ex_sys_evs [simp]: "mq_evs (sy_queue (ex_sys ts)) = map (\<lambda>t. (t, 0, replicate 2040 NUL)) ts"
  by (simp add: ex_sys_def)

lemma ex_turn_ok: "turn_ok ex_turn" by (simp add: turn_ok_def ex_turn_def)






text \<open>
  Property C39: A heart beat that comes too late stops the program.  When the receive thread is just completing a \<open>recv\<close>
  with a heart beat while the second timeout stops it, the heart beat is posted behind the drop, and its
  turn follows the pointer \<open>g_receive\<close>, which the drop has cleared.
\<close>
theorem late_heart_beat_crashes:
  assumes "sup_ok L 2 y" and "link_of (server y) = Up False" and "length (tu_junk L) = 2048"
    and "tu_inflight L = Some (Some (mk_frame (99, x)))" and "frame_ok 2001 (99, x)"
    and "rx_heap (server y) (the (g_receive (sv (server y)))) = Some r" and "rx_inv r []"
    and "map fst (mq_evs (sy_queue y)) = [MSG_TIMEOUT]"
  shows "\<exists>y'. eventLoop L y = Next y' \<and> waiting (sv (server y')) = STATE_DISCONNECTED \<and>
    map fst (mq_evs (sy_queue y')) = [MSG_RECEIVED_HEART_BEAT, MSG_RECEIVE_THREAD_CLOSED] \<and>
    eventLoop L y' = Ub NullDeref"
proof -
  from assms(8) obtain e where e: "mq_evs (sy_queue y) = e # []" "fst e = MSG_TIMEOUT" by auto
  from assms(1) obtain m q where m: "eventLoop L y = dispatch L m (y\<lparr>sy_queue := q\<rparr>)" "mq_ev m = e" "mq_evs q = []"
    "mq_ready 2 q" using eventLoop_ev [OF _ e(1)] unfolding sup_ok_def by blast
  let ?y = "y\<lparr>sy_queue := q\<rparr>"
  have d: "eventLoop L y = on_timeout L ?y" using m(1,2) e(2) by (auto simp: dispatch_supervision mq_ev_def)
  have ok: "sup_ok L 2 ?y" using assms(1) m(4) by (simp add: sup_ok_def)
  obtain a where a: "g_receive (sv (server y)) = Some a" "rx_heap (server y) a = Some r"
    "pt_mutex (sv_para_t (sv (server y))) = Unlocked"
    using link_up_server [OF _ assms(2)] assms(1,6) unfolding sup_ok_def by auto
  from stop_completing [OF a _ assms(3,7,5), of 0 q "tu_ovl L"] m(4) obtain q' where
    q': "stopReceThread (tu_ovl L) (tu_junk L) (tu_inflight L) (server ?y, sy_queue ?y) =
      Some (Inr ((server ?y)\<lparr>rx_heap := (rx_heap (server ?y))(the (g_receive (sv (server ?y))) := None),
        sv := (sv (server ?y))\<lparr>g_receive := None, waiting := STATE_DISCONNECTED\<rparr>\<rparr>, q'))" "mq_ready 0 q'"
    "mq_evs q' = mq_evs (sy_queue ?y) @
      [(MSG_RECEIVED_HEART_BEAT, 0, take 2040 (tu_junk L)), (MSG_RECEIVE_THREAD_CLOSED, 0, take 2040 (tu_junk L))]"
    using assms(4) a(1) by (auto simp: numeral_2_eq_2)
  from on_timeout_stops [OF ok _ q'] assms(2) obtain y' where
    y': "on_timeout L ?y = Next y'" "sup_ok L 0 y'" "link_of (server y') = Down" "waiting (sv (server y')) = STATE_DISCONNECTED"
    "mq_evs (sy_queue y') = [(MSG_RECEIVED_HEART_BEAT, 0, take 2040 (tu_junk L)), (MSG_RECEIVE_THREAD_CLOSED, 0, take 2040 (tu_junk L))]"
    using m(3) by auto
  from y'(2) obtain m2 q2 where m2: "eventLoop L y' = dispatch L m2 (y'\<lparr>sy_queue := q2\<rparr>)"
    "mq_ev m2 = (MSG_RECEIVED_HEART_BEAT, 0, take 2040 (tu_junk L))"
    using eventLoop_ev [OF _ y'(5)] unfolding sup_ok_def by blast
  have "on_heart_beat (y'\<lparr>sy_queue := q2\<rparr>) = Ub NullDeref"
    using y'(2,3) by (intro on_heart_beat_down) (simp_all add: sup_ok_def)
  with m2 have "eventLoop L y' = Ub NullDeref" by (auto simp: dispatch_supervision mq_ev_def)
  with d y' show ?thesis by auto
qed

definition ex_stopping_turn :: "int turn" where
  "ex_stopping_turn = ex_turn\<lparr>tu_inflight := Some (Some (mk_frame (99, [])))\<rparr>"

theorem late_heart_beat_crashes_witness:
  "\<exists>y'. eventLoop ex_stopping_turn (ex_sys [20]) = Next y' \<and> waiting (sv (server y')) = STATE_DISCONNECTED \<and>
    map fst (mq_evs (sy_queue y')) = [MSG_RECEIVED_HEART_BEAT, MSG_RECEIVE_THREAD_CLOSED] \<and>
    eventLoop ex_stopping_turn y' = Ub NullDeref"
proof (rule late_heart_beat_crashes [OF _ ex_sys_link, where x = "[]"])
  show "sup_ok ex_stopping_turn 2 (ex_sys [20])"
    using ex_sys_ok [of "[20]" 2] by (simp add: sup_ok_def ex_stopping_turn_def)
  show "rx_heap (server (ex_sys [20])) (the (g_receive (sv (server (ex_sys [20]))))) = Some ex_rx" by (simp add: ex_sys_def)
  show "rx_inv ex_rx []" unfolding ex_rx_def by (rule rx_inv_init) simp
qed (simp_all add: ex_stopping_turn_def ex_turn_def frame_ok_def)

text \<open>
  A new client sets the program up once.  Its event registers the callbacks unless they are registered,
  starts the timer with a period of four seconds and \<open>timerout_cb\<close> as its callback unless it runs, and
  enables sending; a second such event in that state changes nothing.
\<close>
lemma accept_sets_up_once:
  assumes "on_accept L y = Next y1"
  shows "enableCallback (sv (server y1)) \<noteq> 0 \<and> hasTimer (sv (server y1)) \<noteq> 0 \<and> send_enable (sv (server y1)) = 1 \<and>
    (hasTimer (sv (server y)) = 0 \<longrightarrow> (\<exists>g. sy_timer y1 = (fst (sy_timer y), g) \<and> running g = 1 \<and> closeState g = 0 \<and>
       seconds g = 4 \<and> mseconds g = 0 \<and> timer_cb g = Some (timerout_cb (tu_junk L)))) \<and>
    on_accept L' y1 = Next y1"
proof -
  let ?y0 = "register_callbacks L y"
  have e: "enableCallback (sv (server ?y0)) \<noteq> 0" "hasTimer (sv (server ?y0)) = hasTimer (sv (server y))" "sy_timer ?y0 = sy_timer y"
    by (simp_all add: register_callbacks_def Let_def broker_register_callback_def split: prod.splits)
  let ?y1 = "start_supervision L ?y0"
  have t: "enableCallback (sv (server ?y1)) \<noteq> 0" "hasTimer (sv (server ?y1)) \<noteq> 0"
    "hasTimer (sv (server y)) = 0 \<Longrightarrow> sy_timer ?y1 = apsnd (Start_Timer (timerout_cb (tu_junk L)) 4 0) (sy_timer y)"
    using e by (simp_all add: start_supervision_def Let_def)
  have y1: "y1 = set_server (enable_send (server ?y1)) ?y1" using assms by (simp add: on_accept_def Let_def)
  have again: "on_accept L' y1 = Next y1"
    using t(1,2) unfolding y1
    by (simp add: on_accept_def register_callbacks_def start_supervision_def enable_send_def set_server_def)
  show ?thesis using again t unfolding y1
    by (cases "sy_timer y")
      (auto simp: enable_send_def Start_Timer_def start_run_def start_state_def start_args_def getState_def)
qed

lemma accept_sets_up_once_witness:
  "\<exists>y1 g. on_accept ex_turn ((ex_sys [])\<lparr>sy_broker := ex_pb []\<rparr>) = Next y1 \<and> sy_timer y1 = (T_Sleep, g) \<and> running g = 1 \<and> seconds g = 4 \<and>
    on_accept ex_stopping_turn y1 = Next y1"
proof -
  obtain y1 where y1: "on_accept ex_turn ((ex_sys [])\<lparr>sy_broker := ex_pb []\<rparr>) = Next y1" by (simp add: on_accept_def Let_def)
  have "hasTimer (sv (server ((ex_sys [])\<lparr>sy_broker := ex_pb []\<rparr>))) = 0" "fst (sy_timer ((ex_sys [])\<lparr>sy_broker := ex_pb []\<rparr>)) = T_Sleep"
    by (simp_all add: ex_sys_def) (simp add: ex_srv_def InitServerThread_def)
  with accept_sets_up_once [OF y1, of ex_stopping_turn] y1 show ?thesis by auto
qed

end
