(* ===== verification/GW_Latch.thy ===== *)
theory GW_Latch
  imports GW_Utility
begin

text \<open>
  \<open>src/code/src/countDownLatch.c\<close>: a count-down latch on a mutex and a condition variable.

  A thread in \<open>counterWait\<close> is about to test the counter, asleep in \<open>pthread_cond_wait\<close>, or
  done.  The mutex makes the test with the following sleep one step, and \<open>counterDown\<close> one
  step; \<open>pthread_cond_signal\<close> wakes one sleeper if there is one (which one is not
  specified), and POSIX lets a sleeper wake up on its own.
\<close>

section \<open>Operations\<close>

record g_cntDown_para =
  cd_para_t :: para_thread
  cd_counter :: int

definition initCountDown :: "int \<Rightarrow> int \<times> g_cntDown_para" where
  "initCountDown counter = (0, \<lparr>cd_para_t = newThreadPara, cd_counter = counter\<rparr>)"

datatype waiter = W_Test | W_Asleep | W_Done

text \<open>One pass of the loop of \<open>counterWait\<close>, with the mutex held.\<close>

definition counterWait :: "g_cntDown_para \<Rightarrow> waiter" where
  "counterWait g = (if cd_counter g > 0 then W_Asleep else W_Done)"

text \<open>The flag says whether the condition is signalled.\<close>

definition counterDown :: "g_cntDown_para \<Rightarrow> (bool \<times> g_cntDown_para) res" where
  "counterDown g =
     res_bind (chk32 (cd_counter g - 1)) (\<lambda>c. Inr (c = 0, g\<lparr>cd_counter := c\<rparr>))"

section \<open>Threads on one latch\<close>

inductive latch_step :: "g_cntDown_para \<times> waiter list \<Rightarrow> g_cntDown_para \<times> waiter list \<Rightarrow> bool" where
  Test: "i < length ws \<Longrightarrow> ws ! i = W_Test \<Longrightarrow> latch_step (g, ws) (g, ws[i := counterWait g])"
| Spurious: "i < length ws \<Longrightarrow> ws ! i = W_Asleep \<Longrightarrow> latch_step (g, ws) (g, ws[i := W_Test])"
| Down_quiet: "counterDown g = Inr (sig, g') \<Longrightarrow> \<not> sig \<or> W_Asleep \<notin> set ws
    \<Longrightarrow> latch_step (g, ws) (g', ws)"
| Down_wakes: "counterDown g = Inr (True, g') \<Longrightarrow> i < length ws \<Longrightarrow> ws ! i = W_Asleep
    \<Longrightarrow> latch_step (g, ws) (g', ws[i := W_Test])"

inductive latch_reach :: "int \<Rightarrow> nat \<Rightarrow> g_cntDown_para \<times> waiter list \<Rightarrow> bool" for c :: int and n :: nat where
  Init: "latch_reach c n (snd (initCountDown c), replicate n W_Test)"
| Step: "latch_reach c n s \<Longrightarrow> latch_step s t \<Longrightarrow> latch_reach c n t"

inductive_cases latch_stepE: "latch_step (g, ws) t"

text \<open>Nobody gets through while the counter is positive.\<close>

definition latch_safe :: "g_cntDown_para \<times> waiter list \<Rightarrow> bool" where
  "latch_safe s \<longleftrightarrow> (W_Done \<in> set (snd s) \<longrightarrow> cd_counter (fst s) \<le> 0)"

text \<open>With one waiting thread, no wake-up is lost.\<close>

definition latch_single :: "g_cntDown_para \<times> waiter list \<Rightarrow> bool" where
  "latch_single s \<longleftrightarrow> length (snd s) = 1 \<and> (snd s ! 0 = W_Asleep \<longrightarrow> 0 < cd_counter (fst s))"

lemma counterDown_dec: "counterDown g = Inr (sig, g') \<Longrightarrow>
    cd_counter g' = cd_counter g - 1 \<and> (sig \<longleftrightarrow> cd_counter g' = 0)"
  by (auto simp: counterDown_def res_bind_eq_Inr chk32_eq_Inr)

lemma W_Done_update: "W_Done \<in> set (ws[i := w]) \<Longrightarrow> W_Done \<in> set ws \<or> w = W_Done"
  using set_update_subset_insert [of ws i w] by auto

lemma latch_safe_step: "latch_step s t \<Longrightarrow> latch_safe s \<Longrightarrow> latch_safe t"
  by (induction rule: latch_step.induct)
    (auto simp: latch_safe_def counterWait_def dest!: W_Done_update counterDown_dec split: if_splits)

lemma latch_single_step: "latch_step s t \<Longrightarrow> latch_single s \<Longrightarrow> latch_single t"
proof (induction rule: latch_step.induct)
  case (Down_quiet g sig g' ws)
  then obtain w where "ws = [w]" by (auto simp: latch_single_def length_Suc_conv)
  with Down_quiet show ?case using counterDown_dec [OF Down_quiet(1)] by (auto simp: latch_single_def)
qed (auto simp: latch_single_def counterWait_def nth_list_update split: if_splits)

lemma latch_reach_safe: "latch_reach c n s \<Longrightarrow> latch_safe s"
proof (induction rule: latch_reach.induct)
  case Init
  show ?case by (simp add: latch_safe_def)
qed (blast intro: latch_safe_step)

lemma latch_reach_single: "latch_reach c n s \<Longrightarrow> n = 1 \<Longrightarrow> latch_single s"
proof (induction rule: latch_reach.induct)
  case Init
  then show ?case by (simp add: latch_single_def)
qed (blast intro: latch_single_step)

section \<open>Properties\<close>

text \<open>
  Property C27: The latch is safe for any number of threads: nobody leaves \<open>counterWait\<close> while
  the counter is positive.  With one waiting thread it is also live: as soon as the counter is not positive the
  thread is through, or awake, and then its next test lets it through; the last \<open>counterDown\<close> always
  finds it awake or wakes it.
\<close>
theorem latch_correct:
  assumes "latch_reach c n (g, ws)"
  shows "(W_Done \<in> set ws \<longrightarrow> cd_counter g \<le> 0) \<and>
    (n = 1 \<and> cd_counter g \<le> 0 \<longrightarrow>
       ws = [W_Done] \<or> ws = [W_Test] \<and> latch_step (g, [W_Test]) (g, [W_Done]))"
proof -
  from latch_reach_safe [OF assms] have "W_Done \<in> set ws \<longrightarrow> cd_counter g \<le> 0"
    by (simp add: latch_safe_def)
  moreover have "ws = [W_Done] \<or> ws = [W_Test] \<and> latch_step (g, [W_Test]) (g, [W_Done])"
    if "n = 1" "cd_counter g \<le> 0"
  proof -
    from latch_reach_single [OF assms that(1)] have "length ws = Suc 0" "ws ! 0 = W_Asleep \<longrightarrow> 0 < cd_counter g"
      by (simp_all add: latch_single_def)
    moreover from this(1) obtain w where w: "ws = [w]" by (auto simp: length_Suc_conv)
    ultimately have "w \<noteq> W_Asleep" using that(2) by auto
    moreover note w
    moreover have "latch_step (g, [W_Test]) (g, [W_Done])"
      using latch_step.Test [of 0 "[W_Test]" g] that(2) by (simp add: counterWait_def)
    ultimately show ?thesis by (cases w) simp_all
  qed
  ultimately show ?thesis by blast
qed

theorem latch_correct_witness:
  "\<exists>g. cd_counter g = 0 \<and> latch_reach 1 1 (g, [W_Test]) \<and> latch_step (g, [W_Test]) (g, [W_Done])"
proof -
  let ?g = "\<lparr>cd_para_t = newThreadPara, cd_counter = 1\<rparr>"
  have 0: "latch_reach 1 1 (?g, [W_Test])"
    using latch_reach.Init [of 1 1] by (simp add: initCountDown_def)
  have 1: "latch_reach 1 1 (?g, [W_Asleep])"
    by (rule latch_reach.Step [OF 0]) (use latch_step.Test [of 0 "[W_Test]" ?g] in \<open>simp add: counterWait_def\<close>)
  have 2: "latch_reach 1 1 (?g\<lparr>cd_counter := 0\<rparr>, [W_Test])"
    by (rule latch_reach.Step [OF 1])
      (use latch_step.Down_wakes [of ?g "?g\<lparr>cd_counter := 0\<rparr>" 0 "[W_Asleep]"] in \<open>simp add: counterDown_def\<close>)
  from latch_correct [OF 2] 2 show ?thesis by (intro exI [of _ "?g\<lparr>cd_counter := 0\<rparr>"]) simp
qed

lemma latch_run:
  "latch_reach 1 2 (\<lparr>cd_para_t = newThreadPara, cd_counter = 0\<rparr>, [W_Test, W_Asleep])"
proof -
  let ?g = "\<lparr>cd_para_t = newThreadPara, cd_counter = 1\<rparr>"
  have 0: "latch_reach 1 2 (?g, [W_Test, W_Test])"
    using latch_reach.Init [of 1 2] by (simp add: initCountDown_def numeral_2_eq_2)
  have 1: "latch_reach 1 2 (?g, [W_Asleep, W_Test])"
    by (rule latch_reach.Step [OF 0])
      (use latch_step.Test [of 0 "[W_Test, W_Test]" ?g] in \<open>simp add: counterWait_def\<close>)
  have 2: "latch_reach 1 2 (?g, [W_Asleep, W_Asleep])"
    by (rule latch_reach.Step [OF 1])
      (use latch_step.Test [of 1 "[W_Asleep, W_Test]" ?g] in \<open>simp add: counterWait_def\<close>)
  show ?thesis
    by (rule latch_reach.Step [OF 2])
      (use latch_step.Down_wakes [of ?g "?g\<lparr>cd_counter := 0\<rparr>" 0 "[W_Asleep, W_Asleep]"]
        in \<open>simp add: counterDown_def\<close>)
qed

text \<open>
  \<open>pthread_cond_signal\<close> wakes a single thread: with two waiting threads a run ends with the
  counter at zero, one thread woken and the other asleep, and the signal is not repeated.
\<close>

lemma latch_second_waiter_sleeps:
  "\<exists>g g'. latch_reach 1 2 (g, [W_Test, W_Asleep]) \<and> cd_counter g = 0 \<and> counterDown g = Inr (False, g')"
  using latch_run by (intro exI conjI, assumption) (simp_all add: counterDown_def)

end
