(* ===== verification/GW_System.thy ===== *)
theory GW_System
  imports GW_EventLoop GW_Latch
begin

text \<open>
  \<open>src/code/devAdapter.c\<close> and the program as a whole: \<open>main\<close> sets the parts up in order and gives up at the
  first that fails; then the main loop, the accepting thread, the receive threads, the timer, the
  broker's callbacks and the driver's callback work on one state.
\<close>

section \<open>The log\<close>

text \<open>
  zlog is not part of the repository: the calls are recorded, the results of \<open>zlog_init\<close> and
  \<open>zlog_get_category\<close> are arguments.  The result is the handler; \<open>main\<close> does not look at it.
\<close>

datatype zlog_call = Zlog_Init bytes | Zlog_Category bytes | Zlog_Info "bytes list" | Zlog_Fini

definition serverLog :: "bytes \<Rightarrow> int \<Rightarrow> nat option \<Rightarrow> nat option \<times> zlog_call list" where
  "serverLog path code cat =
     (if code \<noteq> 0 then (None, [Zlog_Init path])
      else case cat of
        None \<Rightarrow> (None, [Zlog_Init path, Zlog_Category ''devAdapterlog'', Zlog_Fini])
      | Some h \<Rightarrow> (Some h, [Zlog_Init path, Zlog_Category ''devAdapterlog'']))"

definition closeServerLog :: "zlog_call list \<Rightarrow> zlog_call list" where
  "closeServerLog cs = cs @ [Zlog_Fini]"

text \<open>The three strings are the compiler's version and the date and time of the build.\<close>

definition c_compiler_builtin_macro :: "bytes \<Rightarrow> bytes \<Rightarrow> bytes \<Rightarrow> zlog_call list \<Rightarrow> zlog_call list" where
  "c_compiler_builtin_macro ver date time cs =
     cs @ [Zlog_Info [''gcc compiler ver:'', ver], Zlog_Info [''this version built time is:['', date, ''  '', time, '']'']]"

definition LOG_CONF :: bytes where
  "LOG_CONF = ''/run/media/mmcblk1p1/etc/zlog_default.conf''"

section \<open>Starting\<close>

text \<open>
  What the calls of \<open>main\<close> get from outside: the queue the kernel has under the key, the results of the two
  \<open>pthread_create\<close>, the answers of the MQTT library, fresh memory, the driver's handle.
\<close>

record main_env =
  me_zlog_init :: int
  me_zlog_cat :: "nat option"
  me_build :: "bytes \<times> bytes \<times> bytes"
  me_msgget :: "int \<times> kqueue"
  me_timer :: int
  me_server :: int
  me_waddr :: nat
  me_init :: init_env
  me_argv :: bytes
  me_memory :: bytes
  me_xfers :: "xfer list"
  me_sends :: "(int \<times> bool) list"
  me_axidma :: "nat option"

text \<open>\<open>main\<close> up to the event loop; \<open>None\<close> is one of its early returns.  The latch it makes is not used by any part.\<close>

definition main_startup :: "main_env \<Rightarrow> sys option res" where
  "main_startup M =
     (let (zlog_handler, log1) = serverLog LOG_CONF (me_zlog_init M) (me_zlog_cat M);
          (ver, date, time) = me_build M;
          log2 = c_compiler_builtin_macro ver date time (log1 @ [Zlog_Info [''start devAdapter process'']]);
          (_, g_cntDown) = initCountDown 1
      in case createMsgQueue (me_msgget M) of
           None \<Rightarrow> Inr None
         | Some q \<Rightarrow>
             (let (state, g) = InitTimerThread (me_timer M)
              in if state = - 1 then Inr None
                 else let (state, v) = InitServerThread (me_server M)
                      in if state = - 1 then Inr None
                         else res_bind (initProcBroker (me_waddr M) (me_init M) (me_argv M) (me_memory M) (me_xfers M) g_broker0
                                  \<lparr>sv = v, rx_heap = Map.empty, wire = [], send_env = me_sends M\<rparr>) (\<lambda>(state, p).
                                if state \<noteq> 0 then Inr None
                                else let (state, d) = init_dma_state (me_axidma M)
                                     in if state \<noteq> 0 then Inr None
                                        else Inr (Some \<lparr>sy_queue = q, sy_timer = (T_Lock, g), sy_broker = p, sy_dma = d\<rparr>))))"

section \<open>The threads\<close>

text \<open>
  The whole program: the state the main loop works on, how far the server thread has come (setting up the listening socket,
  accepting, or gone because the set-up failed), and the calls of registered functions whose threads
  have been created and have not run yet.
\<close>

datatype server_pc = Srv_Setup | Srv_Accept | Srv_Ended

record prog =
  pg_sys :: sys
  pg_server :: server_pc
  pg_calls :: "cb_call list"

definition start_prog :: "sys \<Rightarrow> prog" where
  "start_prog y = \<lparr>pg_sys = y, pg_server = Srv_Setup, pg_calls = []\<rparr>"

definition set_lib :: "g_broker_s \<Rightarrow> sys \<Rightarrow> sys" where
  "set_lib l y = y\<lparr>sy_broker := (sy_broker y)\<lparr>lib := l\<rparr>\<rparr>"

text \<open>The set-up of the server thread, with the results of \<open>socket\<close>, \<open>bind\<close> and \<open>listen\<close>.\<close>

definition server_setup :: "int \<Rightarrow> int \<Rightarrow> int \<Rightarrow> prog \<Rightarrow> prog" where
  "server_setup fd bnd lst p =
     (let (ok, v) = runServer_setup fd bnd lst (sv (server (pg_sys p)))
      in p\<lparr>pg_sys := set_server ((server (pg_sys p))\<lparr>sv := v\<rparr>) (pg_sys p),
           pg_server := (if ok then Srv_Accept else Srv_Ended)\<rparr>)"

definition registered :: "g_dma_para \<Rightarrow> nat" where
  "registered g = length (filter (\<lambda>c. case c of Axi_Register _ \<Rightarrow> True | _ \<Rightarrow> False) (axi_calls g))"

text \<open>
  One step of one thread, in any order.  \<open>D\<close> stands for the target's \<open>double\<close>; everything else that comes
  from outside is free in each step.  The library calls back while its thread lives (\<open>mosq\<close>), a message creates threads for
  the calls it makes, these run in any order; the driver calls back once the callback is registered with it.
\<close>

inductive sys_step :: "'d dbl \<Rightarrow> prog \<Rightarrow> prog \<Rightarrow> bool" for D :: "'d dbl" where
  Turn: "e_dbl (tu_env L) = D \<Longrightarrow> eventLoop L (pg_sys p) = Next y \<Longrightarrow> sys_step D p (p\<lparr>pg_sys := y\<rparr>)"
| Setup: "pg_server p = Srv_Setup \<Longrightarrow> sys_step D p (server_setup fd bnd lst p)"
| Client: "pg_server p = Srv_Accept \<Longrightarrow> rx_heap (server (pg_sys p)) a = None \<Longrightarrow>
    runServer_accept junk sbuf rbuf pcreate a fd (server (pg_sys p), sy_queue (pg_sys p)) = Inr (s, q) \<Longrightarrow>
    sys_step D p (p\<lparr>pg_sys := set_server s ((pg_sys p)\<lparr>sy_queue := q\<rparr>)\<rparr>)"
| Receive: "rx_heap (server (pg_sys p)) a = Some r \<Longrightarrow> fst (getRunningState r 0) = 1 \<Longrightarrow>
    receive ovl junk avail (r, sy_queue (pg_sys p)) = Some (Inr (r', q)) \<Longrightarrow>
    sys_step D p (p\<lparr>pg_sys := set_server ((server (pg_sys p))\<lparr>rx_heap := (rx_heap (server (pg_sys p)))(a \<mapsto> r')\<rparr>)
      ((pg_sys p)\<lparr>sy_queue := q\<rparr>)\<rparr>)"
| Timer: "timer_thread junk (fst (sy_timer (pg_sys p)), snd (sy_timer (pg_sys p)), sy_queue (pg_sys p)) = Inr (pc, g, q) \<Longrightarrow>
    sys_step D p (p\<lparr>pg_sys := (pg_sys p)\<lparr>sy_timer := (pc, g), sy_queue := q\<rparr>\<rparr>)"
| Library: "mosq (lib (sy_broker (pg_sys p))) \<Longrightarrow> mqtt_event matches e (lib (sy_broker (pg_sys p))) = Inr (cs, l) \<Longrightarrow>
    sys_step D p (p\<lparr>pg_sys := set_lib l (pg_sys p), pg_calls := pg_calls p @ cs\<rparr>)"
| Library_End: "mosq (lib (sy_broker (pg_sys p))) \<Longrightarrow> mqtt_thread_exit (lib (sy_broker (pg_sys p))) = (cb, l) \<Longrightarrow>
    sys_step D p (p\<lparr>pg_sys := set_lib l (pg_sys p)\<rparr>)"
| Callback: "pg_calls p = cs @ c # cs' \<Longrightarrow> e_dbl E = D \<Longrightarrow>
    cb_thread (run_callback E) c (sy_broker (pg_sys p)) = Inr b \<Longrightarrow>
    sys_step D p (p\<lparr>pg_sys := (pg_sys p)\<lparr>sy_broker := b\<rparr>, pg_calls := cs @ cs'\<rparr>)"
| Samples: "0 < registered (sy_dma (pg_sys p)) \<Longrightarrow>
    IQ_register_callback buf n (sy_dma (pg_sys p), server (pg_sys p)) = Inr (g, s) \<Longrightarrow>
    sys_step D p (p\<lparr>pg_sys := set_server s ((pg_sys p)\<lparr>sy_dma := g\<rparr>)\<rparr>)"

inductive sys_reach :: "'d dbl \<Rightarrow> prog \<Rightarrow> bool" for D :: "'d dbl" where
  Init: "main_startup M = Inr (Some y) \<Longrightarrow> sys_reach D (start_prog y)"
| Step: "sys_reach D p \<Longrightarrow> sys_step D p p' \<Longrightarrow> sys_reach D p'"

inductive_cases sys_stepE: "sys_step D p p'"

section \<open>The invariant\<close>

definition sys_inv :: "sys \<Rightarrow> bool" where
  "sys_inv y \<longleftrightarrow> srv_inv (server y) \<and> hasTimer (sv (server y)) \<in> {0, 1} \<and> enableCallback (sv (server y)) \<in> {0, 1} \<and>
     rssi_state (sy_broker y) \<in> {0, 1} \<and> dma_inv (sy_dma y) \<and>
     timer_inv (fst (sy_timer y), snd (sy_timer y), sy_queue y) \<and>
     int (registered (sy_dma y)) = enableCallback (sv (server y)) \<and>
     int (length (cb_list (lib (sy_broker y)))) \<le> enableCallback (sv (server y)) \<and>
     (\<forall>d \<in> set (cb_list (lib (sy_broker y))). recv_callback d = 1 \<and> topic d = ''+/all/pub/#'')"

text \<open>
  Of the whole program: without a server that accepts there is no client; calls are pending only after the
  callbacks were registered, and only of the registered function.
\<close>

definition prog_inv :: "prog \<Rightarrow> bool" where
  "prog_inv p \<longleftrightarrow> sys_inv (pg_sys p) \<and>
     (pg_server p \<noteq> Srv_Accept \<longrightarrow> g_receive (sv (server (pg_sys p))) = None \<and>
        waiting (sv (server (pg_sys p))) = (if pg_server p = Srv_Setup then STATE_STARTUP else STATE_DISCONNECTED)) \<and>
     (pg_calls p \<noteq> [] \<longrightarrow> enableCallback (sv (server (pg_sys p))) = 1) \<and>
     (\<forall>c \<in> set (pg_calls p). fst c = 1)"

text \<open>What the requests leave alone.\<close>

definition keeps :: "g_broker_para \<Rightarrow> g_broker_para \<Rightarrow> bool" where
  "keeps p p' \<longleftrightarrow> (srv_inv (psv p) \<longrightarrow> srv_inv (psv p')) \<and> waiting (sv (psv p')) = waiting (sv (psv p)) \<and>
     g_receive (sv (psv p')) = g_receive (sv (psv p)) \<and> hasTimer (sv (psv p')) = hasTimer (sv (psv p)) \<and>
     enableCallback (sv (psv p')) = enableCallback (sv (psv p)) \<and> cb_list (lib p') = cb_list (lib p) \<and>
     mosq (lib p') = mosq (lib p) \<and> (rssi_state p \<in> {0, 1} \<longrightarrow> rssi_state p' \<in> {0, 1})"

lemma keeps_refl [simp]: "keeps p p"
  by (simp add: keeps_def)

lemma keeps_trans [trans]: "keeps p q \<Longrightarrow> keeps q r \<Longrightarrow> keeps p r"
  by (auto simp: keeps_def simp del: insert_iff)

lemma sendToPc_flags:
  assumes "sendToPc buf n s = Inr (ret, s')"
  shows "hasTimer (sv s') = hasTimer (sv s) \<and> enableCallback (sv s') = enableCallback (sv s) \<and>
    waiting (sv s') = waiting (sv s) \<and> g_receive (sv s') = g_receive (sv s)"
  using assms
  by (auto simp: sendToPc_def sendToPc_enter_def sendToPc_finish_def deref_rx_def Let_def
      getServerwaiting_def next_send_def res_bind_eq_Inr split: if_splits option.splits list.splits)

lemma keeps_send: "sendToPc buf n (psv p) = Inr (ret, s) \<Longrightarrow> keeps p (p\<lparr>psv := s\<rparr>)"
  using sendToPc_flags [of buf n "psv p" ret s] srv_inv_send [of "psv p" buf n ret s] by (auto simp: keeps_def)

lemma keeps_sendStateInquiry: "sendStateInquiry b n t (psv p) = Inr s \<Longrightarrow> keeps p (p\<lparr>psv := s\<rparr>)"
  by (auto simp: sendStateInquiry_def res_bind_eq_Inr dest: keeps_send)

lemma keeps_share_buf [simp]: "keeps p (p'\<lparr>share_buf := b\<rparr>) = keeps p p'"
  by (simp add: keeps_def)

lemma keeps_rssi: "print_rssi_struct b p = Inr p' \<Longrightarrow> keeps p p'"
proof -
  have "keeps p (p\<lparr>share_buf := x, psv := s\<rparr>)" if "sendToPc y n (psv p) = Inr (ret, s)" for x y n ret s
    using keeps_send [OF that] by (simp add: keeps_def)
  then show "print_rssi_struct b p = Inr p' \<Longrightarrow> keeps p p'"
    by (auto simp: print_rssi_struct_unfold Let_def res_bind_eq_Inr)
qed

lemma keeps_published: "process_exception E buf n from p = Inr (ret, p') \<Longrightarrow> keeps p p'"
  by (auto simp: process_exception_def res_bind_eq_Inr dest: keeps_sendStateInquiry keeps_rssi split: if_splits)

lemma message_callback_cbs: "message_callback m payload t b = Inr (cs, b') \<Longrightarrow> cb_list b' = cb_list b \<and> mosq b' = mosq b"
  by (auto simp: message_callback_def Let_def res_bind_eq_Inr split: prod.splits if_splits)

lemma deliver_cbs: "deliver m ms b = Inr (cs, b') \<Longrightarrow> cb_list b' = cb_list b \<and> mosq b' = mosq b"
proof (induction ms arbitrary: b cs)
  case (Cons x ms)
  obtain payload t where x: "x = (payload, t)" by (cases x)
  with Cons.prems obtain cs1 b1 cs2 where "message_callback m payload t b = Inr (cs1, b1)" "deliver m ms b1 = Inr (cs2, b')"
    by (auto simp: res_bind_eq_Inr)
  with Cons.IH message_callback_cbs show ?case by metis
qed simp

lemma dev_transfer_start_cbs: "dev_transfer_start a aw env outs buf n dst b = Inr (ret, b') \<Longrightarrow> cb_list b' = cb_list b \<and> mosq b' = mosq b"
  by (cases "ack_wait aw env (pub_list b)")
    (auto simp: dev_transfer_start_def dev_send_to_def mq_call_def Let_def res_bind_eq_Inr
      split: if_splits option.splits)

lemma dev_transfer_end_cbs: "dev_transfer_end a sent tw outs b = Inr (ret, st, b') \<Longrightarrow> cb_list b' = cb_list b \<and> mosq b' = mosq b"
  by (cases "find (\<lambda>d. wa_id (waite d) = a) (srv_list b)")
    (auto simp: dev_transfer_end_def Let_def split: if_splits)

lemma dev_transfer_cbs:
  assumes "dev_transfer m a aw env ms tw buf n dst b = Inr (ret, st, b')"
  shows "cb_list b' = cb_list b \<and> mosq b' = mosq b"
proof -
  from assms obtain sent b1 cs b2 where "dev_transfer_start a aw env True buf n dst b = Inr (sent, b1)"
    "deliver m ms b1 = Inr (cs, b2)" "dev_transfer_end a sent tw True b2 = Inr (ret, st, b')"
    by (auto simp: dev_transfer_def res_bind_eq_Inr)
  then show ?thesis using dev_transfer_start_cbs deliver_cbs dev_transfer_end_cbs by metis
qed

lemma keeps_transfer: "transfer E buf n dst p = Inr (ret, st, p') \<Longrightarrow> keeps p p'"
  by (auto simp: transfer_def Let_def res_bind_eq_Inr keeps_def dest: dev_transfer_cbs split: list.splits)

lemma keeps_inquiry: "inquiry_state_from E buf n p = Inr (ret, p') \<Longrightarrow> keeps p p'"
  by (auto simp: inquiry_state_from_def res_bind_eq_Inr split: if_splits option.splits
      dest: keeps_transfer dest!: keeps_sendStateInquiry intro: keeps_trans)

lemma keeps_rssi_state [simp]: "v \<in> {0, 1} \<Longrightarrow> keeps p p' \<Longrightarrow> keeps p (p'\<lparr>rssi_state := v\<rparr>)"
  by (simp add: keeps_def)

lemma keeps_rssi_change: "rssi_state_change E buf n p = Inr p' \<Longrightarrow> keeps p p'"
  by (auto simp: rssi_state_change_def res_bind_eq_Inr split: if_splits dest: keeps_transfer)

lemma keeps_close_rssi: "close_rssi E p = Inr p' \<Longrightarrow> keeps p p'"
  by (auto simp: close_rssi_def res_bind_eq_Inr split: if_splits dest: keeps_rssi_change)

lemma keeps_i2cset: "i2cset E dev addr reg sz data p = Inr (r, p') \<Longrightarrow> keeps p p'"
  by (auto simp: i2cset_def Let_def res_bind_eq_Inr split: if_splits dest: keeps_transfer)

lemma keeps_i2cget: "i2cget E dev addr reg sz p = Inr (r, p') \<Longrightarrow> keeps p p'"
  by (auto simp: i2cget_def Let_def res_bind_eq_Inr split: if_splits option.splits dest: keeps_transfer)

lemma keeps_rf_mf: "inquiry_rf_and_mf E p = Inr (r, p') \<Longrightarrow> keeps p p'"
proof -
  assume "inquiry_rf_and_mf E p = Inr (r, p')"
  then obtain t p1 c p2 tx s where q: "ad7417_temperature E p = Inr (t, p1)" "rf_current E p1 = Inr (c, p2)"
    "sendStateInquiry (tx @ [NUL]) (int (length tx) + 1) 5 (psv p2) = Inr s" "p' = p2\<lparr>psv := s\<rparr>"
    by (auto simp: inquiry_rf_and_mf_def res_bind_eq_Inr send_rf_mf_is_type_5)
  from q(1) have "keeps p p1"
    by (auto simp: ad7417_temperature_def res_bind_eq_Inr dest!: keeps_i2cset keeps_i2cget intro: keeps_trans)
  also from q(2) have "keeps p1 p2"
    by (auto simp: rf_current_def res_bind_eq_Inr dest!: keeps_i2cset keeps_i2cget intro: keeps_trans)
  also from q(3,4) have "keeps p2 p'" by (simp add: keeps_sendStateInquiry)
  finally show ?thesis .
qed


section \<open>Every step keeps the invariant\<close>

lemma sys_inv_keeps: "sys_inv y \<Longrightarrow> keeps (sy_broker y) p \<Longrightarrow> sys_inv (y\<lparr>sy_broker := p\<rparr>)"
  by (auto simp: sys_inv_def keeps_def)

lemma timer_inv_queue: "timer_inv (pc, g, q) = timer_inv (pc, g, q')"
  by (simp add: timer_inv_def)

lemma sys_inv_queue [simp]: "sys_inv (y\<lparr>sy_queue := q\<rparr>) = sys_inv y"
  using timer_inv_queue [of "fst (sy_timer y)" "snd (sy_timer y)" q "sy_queue y"] by (simp add: sys_inv_def)

lemma sys_inv_server:
  "sys_inv y \<Longrightarrow> srv_inv s \<Longrightarrow> hasTimer (sv s) = hasTimer (sv (server y)) \<Longrightarrow>
     enableCallback (sv s) = enableCallback (sv (server y)) \<Longrightarrow> sys_inv (set_server s y)"
  by (simp add: sys_inv_def)

lemma sys_inv_dma:
  "sys_inv y \<Longrightarrow> dma_inv g \<Longrightarrow> registered g = registered (sy_dma y) \<Longrightarrow> sys_inv (y\<lparr>sy_dma := g\<rparr>)"
  by (simp add: sys_inv_def)

lemma registered_op [simp]: "registered (dma_op c g) = registered g"
  by (cases c; cases "p_axidma g")
    (auto simp: registered_def gw_startcsi_def gw_stopcsi_def gw_start_constellation_def gw_stop_constellation_def)

lemma sys_inv_op: "sys_inv y \<Longrightarrow> sys_inv (y\<lparr>sy_dma := dma_op c (sy_dma y)\<rparr>)"
  by (rule sys_inv_dma) (simp_all add: dma_inv_op sys_inv_def del: dma_op.simps)

lemma register_callback_entry:
  assumes "cb_list b = []"
  shows "length (cb_list (snd (register_callback a aw env (Some ''all'') (Some 1) (Some ''#'') b))) \<le> 1 \<and>
    (\<forall>d \<in> set (cb_list (snd (register_callback a aw env (Some ''all'') (Some 1) (Some ''#'') b))).
       recv_callback d = 1 \<and> topic d = ''+/all/pub/#'')"
proof -
  have t: "topic_of ''all'' (Some ''#'') = ''+/all/pub/#''" by code_simp
  show ?thesis using assms
    by (cases "ack_wait aw env (sub_list b)")
      (simp add: register_callback_def register_cb_common_def found_cb_def Let_def mq_call_def t)
qed

lemma sys_inv_register:
  assumes "sys_inv y"
  shows "sys_inv (register_callbacks L y)"
proof (cases "enableCallback (sv (server y)) = 0")
  case True
  obtain ret l where l: "register_callback (tu_addr L) (tu_waddr L) (tu_ack L) (Some ''all'') (Some 1) (Some ''#'') (lib (sy_broker y)) = (ret, l)"
    by fastforce
  have "cb_list (lib (sy_broker y)) = []" using assms True by (simp add: sys_inv_def)
  from register_callback_entry [OF this, of "tu_addr L" "tu_waddr L" "tu_ack L"] l
  have "length (cb_list l) \<le> 1" "\<forall>d \<in> set (cb_list l). recv_callback d = 1 \<and> topic d = ''+/all/pub/#''" by simp_all
  moreover have "axi_running (axi [Axi_Register p] g) = axi_running g" for p g by (simp add: axi_running_def)
  ultimately show ?thesis using assms True l
    by (auto simp: register_callbacks_def broker_register_callback_def dma_register_callback_def Let_def sys_inv_def
        registered_def dma_inv_def set_server_def srv_inv_def)
qed (simp add: register_callbacks_def assms)

lemma Start_Timer_owns [simp]: "owns (Start_Timer cb sec msec g) = owns g" "owns (stop_Timer g) = owns g"
  by (simp_all add: owns_def Start_Timer_def start_run_def start_state_def start_args_def stop_Timer_def getState_def)

lemma srv_inv_hasTimer [simp]: "srv_inv (s\<lparr>sv := (sv s)\<lparr>hasTimer := v\<rparr>\<rparr>) = srv_inv s"
  by (simp add: srv_inv_def)

text \<open>The main thread starts or stops the timer and notes it in \<open>hasTimer\<close>.\<close>

lemma sys_inv_timer:
  assumes "sys_inv y" and "\<And>g. owns (f g) = owns g" and "v \<in> {0, 1}"
  shows "sys_inv (set_server ((server y)\<lparr>sv := (sv (server y))\<lparr>hasTimer := v\<rparr>\<rparr>) (y\<lparr>sy_timer := apsnd f (sy_timer y)\<rparr>))"
proof -
  obtain pc g where t: "sy_timer y = (pc, g)" by (cases "sy_timer y")
  have "timer_inv (pc, f g, sy_queue y) = timer_inv (pc, g, sy_queue y)" using assms(2) by (simp add: timer_inv_def)
  with assms(1,3) t show ?thesis by (simp add: sys_inv_def)
qed

lemma sys_inv_supervise: "sys_inv y \<Longrightarrow> sys_inv (start_supervision L y)"
  using sys_inv_timer [of y "Start_Timer (timerout_cb (tu_junk L)) 4 0" 1] by (simp add: start_supervision_def Let_def)

lemma sys_inv_accept:
  assumes "sys_inv y" and "on_accept L y = Next y'"
  shows "sys_inv y'"
proof -
  let ?z = "start_supervision L (register_callbacks L y)"
  have z: "sys_inv ?z" using assms(1) by (intro sys_inv_supervise sys_inv_register)
  then have "srv_inv (enable_send (server ?z))" by (intro srv_inv_enable) (simp add: sys_inv_def)
  from sys_inv_server [OF z this] assms(2) show ?thesis by (simp add: on_accept_def Let_def enable_send_def)
qed

lemma stop_flags:
  assumes "stopReceThread ovl junk infl (s, q) = Some (Inr (s', q'))"
  shows "hasTimer (sv s') = hasTimer (sv s) \<and> enableCallback (sv s') = enableCallback (sv s)"
  using assms
  by (auto simp: stopReceThread_def freeReceThread_def Let_def getServerwaiting_def mutex_reInit_def
      res_bind_eq_Inr split: option.splits sum.splits mutex.splits)

lemma of_res_Next: "of_res r = Next y \<longleftrightarrow> r = Inr y"
  by (cases r) auto

lemma sys_inv_timeout:
  assumes "sys_inv y" and "on_timeout L y = Next y'"
  shows "sys_inv y'"
proof (cases "waiting (sv (server y)) = STATE_DISCONNECTED")
  case True
  with assms show ?thesis by (simp add: on_timeout_def)
next
  case False
  with assms(2) obtain a r where a: "g_receive (sv (server y)) = Some a" "rx_heap (server y) a = Some r"
    by (auto simp: on_timeout_def deref_rx_def split: option.splits)
  have inv: "srv_inv (server y)" using assms(1) by (simp add: sys_inv_def)
  show ?thesis
  proof (cases "connected r = 1")
    case True
    with False a assms(2) have "y' = set_server ((server y)\<lparr>rx_heap := (rx_heap (server y))(a \<mapsto> r\<lparr>connected := 0\<rparr>)\<rparr>) y"
      by (simp add: on_timeout_def deref_rx_def display_def)
    with sys_inv_server [OF assms(1) srv_inv_connected [OF inv a(2), of 0]] show ?thesis by simp
  next
    case off: False
    from False off a assms(2) obtain p s q where p: "close_rssi (tu_env L) (sy_broker y) = Inr p"
      "stopReceThread (tu_ovl L) (tu_junk L) (tu_inflight L) (psv p, sy_queue y) = Some (Inr (s, q))"
      "y' = set_server s (y\<lparr>sy_broker := p, sy_dma := gw_stop_constellation (gw_stopcsi (sy_dma y)), sy_queue := q\<rparr>)"
      by (auto simp: on_timeout_def deref_rx_def Let_def of_res_Next res_bind_eq_Inr split: sum.splits option.splits)
    have "sys_inv (y\<lparr>sy_broker := p\<rparr>)" using assms(1) keeps_close_rssi [OF p(1)] by (rule sys_inv_keeps)
    then have "sys_inv (y\<lparr>sy_broker := p, sy_dma := dma_op D_StopConst (dma_op D_StopCsi (sy_dma y)), sy_queue := q\<rparr>)"
      using sys_inv_op [of "y\<lparr>sy_broker := p, sy_dma := dma_op D_StopCsi (sy_dma y)\<rparr>" D_StopConst]
        sys_inv_op [of "y\<lparr>sy_broker := p\<rparr>" D_StopCsi] by simp
    from sys_inv_server [OF this srv_inv_stop [OF p(2)]] stop_flags [OF p(2)] show ?thesis unfolding p(3) by simp
  qed
qed

lemma sys_inv_closed: "sys_inv y \<Longrightarrow> on_closed y = Next y' \<Longrightarrow> sys_inv y'"
  using sys_inv_timer [of y stop_Timer 0] by (auto simp: on_closed_def Let_def split: if_splits)

lemma sys_inv_heart_beat: "sys_inv y \<Longrightarrow> on_heart_beat y = Next y' \<Longrightarrow> sys_inv y'"
proof -
  assume y: "sys_inv y" "on_heart_beat y = Next y'"
  then obtain a r where a: "rx_heap (server y) a = Some r"
    "y' = set_server ((server y)\<lparr>rx_heap := (rx_heap (server y))(a \<mapsto> r\<lparr>connected := 1\<rparr>)\<rparr>) y"
    by (auto simp: on_heart_beat_def of_res_Next res_bind_eq_Inr deref_rx_def split: option.splits)
  have "srv_inv (server y)" using y(1) by (simp add: sys_inv_def)
  from sys_inv_server [OF y(1) srv_inv_connected [OF this a(1), of 1]] a(2) show ?thesis by simp
qed

lemma sys_inv_request: "sys_inv y \<Longrightarrow> on_request L m y = Next y' \<Longrightarrow> sys_inv y'"
  by (auto simp: on_request_def of_res_Next res_bind_eq_Inr split: if_splits
      intro: sys_inv_keeps dest: keeps_rssi_change keeps_inquiry keeps_rf_mf)


lemma sys_inv_dispatch: "sys_inv y \<Longrightarrow> dispatch L m y = Next y' \<Longrightarrow> sys_inv y'"
  using sys_inv_op [of y D_StopCsi] sys_inv_op [of y D_StartCsi] sys_inv_op [of y D_StartConst] sys_inv_op [of y D_StopConst]
  by (auto simp: dispatch_def Let_def split: if_splits
      dest: sys_inv_accept sys_inv_request sys_inv_timeout sys_inv_closed sys_inv_heart_beat)

lemma sys_inv_turn: "sys_inv y \<Longrightarrow> eventLoop L y = Next y' \<Longrightarrow> sys_inv y'"
  by (auto simp: eventLoop_def split: option.splits dest!: sys_inv_dispatch [rotated])

lemma receive_keeps:
  "receive ovl junk avail (r, q) = Some (Inr (r', q')) \<Longrightarrow>
     receive_running r' = receive_running r \<and> (recvbuf r \<noteq> None \<longrightarrow> recvbuf r' \<noteq> None)"
  by (auto simp: receive_def Let_def rx_done_def res_bind_eq_Inr split: option.splits sum.splits if_splits)

lemma receive_connfd: "receive ovl junk avail (r, q) = Some (Inr (r', q')) \<Longrightarrow> connfd r' = connfd r"
  by (auto simp: receive_def Let_def rx_done_def res_bind_eq_Inr split: option.splits sum.splits if_splits)

lemma IQ_keeps:
  assumes "IQ_register_callback buf n (g, s) = Inr (g', s')"
  shows "(srv_inv s \<longrightarrow> srv_inv s') \<and> hasTimer (sv s') = hasTimer (sv s) \<and> enableCallback (sv s') = enableCallback (sv s) \<and>
    (dma_inv g \<longrightarrow> dma_inv g') \<and> registered g' = registered g"
proof -
  have k: "dma_inv (g\<lparr>slow_cnt := c\<rparr>) = dma_inv g" "registered (g\<lparr>slow_cnt := c\<rparr>) = registered g" for c
    by (simp_all add: dma_inv_def registered_def axi_running_def)
  show ?thesis
  proof (cases "slow_cnt g < 50")
    case True
    with assms k show ?thesis by (auto simp: IQ_register_callback_def)
  next
    case False
    with assms obtain b l ret where "sendToPc b l s = Inr (ret, s')" "g' = g\<lparr>slow_cnt := 0\<rparr>"
      by (auto simp: IQ_register_callback_def Let_def res_bind_eq_Inr)
    with k sendToPc_flags srv_inv_send show ?thesis by metis
  qed
qed

text \<open>What a turn of the loop does to the flags the rest of the program looks at: \<open>enableCallback\<close> is never reset, and
  without a receiver the state of the server stays as it is.\<close>

lemma IQ_waiting: "IQ_register_callback buf n (g, s) = Inr (g', s') \<Longrightarrow>
    waiting (sv s') = waiting (sv s) \<and> g_receive (sv s') = g_receive (sv s)"
  by (auto simp: IQ_register_callback_def Let_def res_bind_eq_Inr dest: sendToPc_flags split: if_splits)

definition idle_kept :: "sys \<Rightarrow> sys \<Rightarrow> bool" where
  "idle_kept y y' \<longleftrightarrow> (enableCallback (sv (server y)) = 1 \<longrightarrow> enableCallback (sv (server y')) = 1) \<and>
     (g_receive (sv (server y)) = None \<longrightarrow> g_receive (sv (server y')) = None \<and> waiting (sv (server y')) = waiting (sv (server y)))"

lemma idle_kept_keeps: "keeps (sy_broker y) p \<Longrightarrow> idle_kept y (y\<lparr>sy_broker := p, sy_queue := q\<rparr>)"
  by (simp add: idle_kept_def keeps_def)

lemma idle_kept_accept: "on_accept L y = Next y' \<Longrightarrow> idle_kept y y'"
  by (auto simp: on_accept_def start_supervision_def register_callbacks_def broker_register_callback_def enable_send_def
      idle_kept_def set_server_def Let_def split: prod.splits)

lemma idle_kept_request: "on_request L m y = Next y' \<Longrightarrow> idle_kept y y'"
  using idle_kept_keeps [of y _ "sy_queue y"]
  by (auto simp: on_request_def of_res_Next res_bind_eq_Inr split: if_splits
      dest: keeps_rssi_change keeps_inquiry keeps_rf_mf)

lemma idle_kept_timeout: "on_timeout L y = Next y' \<Longrightarrow> idle_kept y y'"
  by (auto simp: on_timeout_def idle_kept_def deref_rx_def display_def of_res_Next res_bind_eq_Inr Let_def
      split: if_splits option.splits sum.splits dest!: stop_flags keeps_close_rssi simp: keeps_def)

lemma idle_kept_turn:
  assumes "eventLoop L y = Next y'"
  shows "idle_kept y y'"
proof -
  have q: "idle_kept (y\<lparr>sy_queue := q\<rparr>) z \<Longrightarrow> idle_kept y z" for q z by (simp add: idle_kept_def)
  have d: "dispatch L m z = Next z' \<Longrightarrow> idle_kept z z'" for m z z'
    using idle_kept_accept [of L z z'] idle_kept_request [of L m z z'] idle_kept_timeout [of L z z']
    by (auto simp: dispatch_def Let_def on_closed_def on_heart_beat_def of_res_Next res_bind_eq_Inr deref_rx_def
        idle_kept_def split: if_splits option.splits)
  show ?thesis using assms q d by (auto simp: eventLoop_def idle_kept_def split: option.splits)
qed

text \<open>Once the callbacks are registered, a turn leaves the connection and the registered callbacks as they are.\<close>

definition lib_kept :: "sys \<Rightarrow> sys \<Rightarrow> bool" where
  "lib_kept y y' \<longleftrightarrow> (enableCallback (sv (server y)) = 1 \<longrightarrow>
     cb_list (lib (sy_broker y')) = cb_list (lib (sy_broker y)) \<and> mosq (lib (sy_broker y')) = mosq (lib (sy_broker y)))"

lemma lib_kept_keeps: "keeps (sy_broker y) p \<Longrightarrow> lib_kept y (y\<lparr>sy_broker := p, sy_queue := q\<rparr>)"
  by (simp add: lib_kept_def keeps_def)

lemma lib_kept_accept: "on_accept L y = Next y' \<Longrightarrow> lib_kept y y'"
  by (cases "hasTimer (sv (server y)) = 0")
    (auto simp: on_accept_def start_supervision_def register_callbacks_def lib_kept_def set_server_def Let_def)

lemma lib_kept_request: "on_request L m y = Next y' \<Longrightarrow> lib_kept y y'"
  using lib_kept_keeps [of y _ "sy_queue y"]
  by (auto simp: on_request_def of_res_Next res_bind_eq_Inr split: if_splits
      dest: keeps_rssi_change keeps_inquiry keeps_rf_mf)

lemma lib_kept_timeout: "on_timeout L y = Next y' \<Longrightarrow> lib_kept y y'"
  by (auto simp: on_timeout_def lib_kept_def deref_rx_def display_def of_res_Next res_bind_eq_Inr Let_def set_server_def
      split: if_splits option.splits sum.splits dest!: keeps_close_rssi simp: keeps_def)

lemma lib_kept_turn:
  assumes "eventLoop L y = Next y'"
  shows "lib_kept y y'"
proof -
  have q: "lib_kept (y\<lparr>sy_queue := q\<rparr>) z \<Longrightarrow> lib_kept y z" for q z by (simp add: lib_kept_def)
  have d: "dispatch L m z = Next z' \<Longrightarrow> lib_kept z z'" for m z z'
    using lib_kept_accept [of L z z'] lib_kept_request [of L m z z'] lib_kept_timeout [of L z z']
    by (auto simp: dispatch_def Let_def on_closed_def on_heart_beat_def of_res_Next res_bind_eq_Inr deref_rx_def
        lib_kept_def set_server_def split: if_splits option.splits)
  show ?thesis using assms q d by (auto simp: eventLoop_def lib_kept_def split: option.splits)
qed

lemma mqtt_event_cbs: "mqtt_event matches e b = Inr (cs, b') \<Longrightarrow> cb_list b' = cb_list b"
  by (cases e) (auto simp: connect_callback_def disconnect_callback_def publish_callback_def subscribe_callback_def
      unsubscribe_callback_def dest: message_callback_cbs)

lemma cb_loop_calls: "cb_loop matches payload t ds = Inr cs \<Longrightarrow> fst ` set cs \<subseteq> recv_callback ` set ds"
proof (induction ds arbitrary: cs)
  case (Cons d ds)
  then show ?case by (cases "matches (topic d) t") (fastforce simp: res_bind_eq_Inr split: if_splits)+
qed simp

lemma mqtt_event_calls: "mqtt_event matches e b = Inr (cs, b') \<Longrightarrow> fst ` set cs \<subseteq> recv_callback ` set (cb_list b)"
  by (cases e) (auto simp: message_callback_def Let_def res_bind_eq_Inr dest!: cb_loop_calls split: prod.splits if_splits)

lemma exit_cbs: "mqtt_thread_exit b = (cb, b') \<Longrightarrow> mosq b \<Longrightarrow> cb_list b' = [] \<and> \<not> mosq b'"
  by (auto simp: mqtt_thread_exit_def clean_global_def clean_list_def mq_call_def Let_def split: if_splits)

lemma keeps_callback: "cb_thread (run_callback E) c p = Inr p' \<Longrightarrow> keeps p p'"
  by (cases c) (auto simp: cb_thread_def run_callback_def res_bind_eq_Inr dest: keeps_published split: if_splits)

lemma sys_inv_lib:
  assumes "sys_inv y" and "cb_list l = cb_list (lib (sy_broker y)) \<or> cb_list l = []"
  shows "sys_inv (set_lib l y)"
  using assms by (auto simp: sys_inv_def set_lib_def)

lemma srv_inv_setup: "runServer_setup fd bnd lst v = (ok, v') \<Longrightarrow> g_receive v = None \<Longrightarrow>
    pt_mutex (sv_para_t v') = pt_mutex (sv_para_t v) \<and> g_receive v' = None \<and> hasTimer v' = hasTimer v \<and>
    enableCallback v' = enableCallback v \<and> waiting v' = (if ok then STATE_STARTUP else STATE_DISCONNECTED)"
  by (auto simp: runServer_setup_def Let_def split: if_splits)

lemma prog_inv_setup:
  assumes "prog_inv p" and "pg_server p = Srv_Setup"
  shows "prog_inv (server_setup fd bnd lst p)"
proof -
  obtain ok v where v: "runServer_setup fd bnd lst (sv (server (pg_sys p))) = (ok, v)" by fastforce
  have s: "sys_inv (pg_sys p)" "g_receive (sv (server (pg_sys p))) = None" using assms by (auto simp: prog_inv_def)
  note w = srv_inv_setup [OF v s(2)]
  have "srv_inv ((server (pg_sys p))\<lparr>sv := v\<rparr>)" using s w by (auto simp: sys_inv_def srv_inv_def)
  then have "sys_inv (set_server ((server (pg_sys p))\<lparr>sv := v\<rparr>) (pg_sys p))"
    using s(1) w by (intro sys_inv_server) simp_all
  then show ?thesis using assms w v by (auto simp: server_setup_def prog_inv_def)
qed

text \<open>The other steps: the state of the components, and what they need not touch.\<close>

lemma prog_inv_sys:
  assumes "prog_inv p" and "sys_inv y" and "idle_kept (pg_sys p) y"
  shows "prog_inv (p\<lparr>pg_sys := y\<rparr>)"
  using assms by (auto simp: prog_inv_def idle_kept_def)

lemma sys_inv_accepted:
  assumes "sys_inv y" and "runServer_accept a junk sbuf rbuf pcreate fd (server y, sy_queue y) = Inr (s, q)"
  shows "sys_inv (set_server s (y\<lparr>sy_queue := q\<rparr>))" "hasTimer (sv s) = hasTimer (sv (server y))"
    "enableCallback (sv s) = enableCallback (sv (server y))"
proof -
  have "srv_inv s" using assms srv_inv_accept by (auto simp: sys_inv_def)
  moreover show f: "hasTimer (sv s) = hasTimer (sv (server y))" "enableCallback (sv s) = enableCallback (sv (server y))"
    using assms(2) by (auto simp: runServer_accept_def Let_def res_bind_eq_Inr split: if_splits prod.splits)
  ultimately show "sys_inv (set_server s (y\<lparr>sy_queue := q\<rparr>))" using assms(1) by (intro sys_inv_server) simp_all
qed

lemma sys_inv_received:
  assumes "sys_inv y" and "rx_heap (server y) a = Some r" and "receive ovl junk avail (r, sy_queue y) = Some (Inr (r', q))"
  shows "sys_inv (set_server ((server y)\<lparr>rx_heap := (rx_heap (server y))(a \<mapsto> r')\<rparr>) (y\<lparr>sy_queue := q\<rparr>))"
proof -
  have "srv_inv ((server y)\<lparr>rx_heap := (rx_heap (server y))(a \<mapsto> r')\<rparr>)"
    using assms(1,2) receive_keeps [OF assms(3)] by (auto simp: sys_inv_def srv_inv_def)
  then show ?thesis using assms(1) by (intro sys_inv_server) simp_all
qed

lemma prog_inv_library:
  assumes "prog_inv p" and e: "mqtt_event matches e (lib (sy_broker (pg_sys p))) = Inr (cs, l)"
  shows "prog_inv (p\<lparr>pg_sys := set_lib l (pg_sys p), pg_calls := pg_calls p @ cs\<rparr>)"
proof -
  have inv: "sys_inv (pg_sys p)" using assms(1) by (simp add: prog_inv_def)
  then have s: "sys_inv (set_lib l (pg_sys p))" using mqtt_event_cbs [OF e] by (simp add: sys_inv_lib)
  note c = mqtt_event_calls [OF e]
  have "\<forall>x \<in> set cs. fst x = 1" using c inv by (auto simp: sys_inv_def)
  moreover have "enableCallback (sv (server (pg_sys p))) = 1" if "cs \<noteq> []"
  proof -
    have "cb_list (lib (sy_broker (pg_sys p))) \<noteq> []" using c that by auto
    then show ?thesis using inv by (auto simp: sys_inv_def)
  qed
  ultimately show ?thesis using assms(1) s by (auto simp: prog_inv_def set_lib_def)
qed

lemma prog_inv_step: "sys_step D p p' \<Longrightarrow> prog_inv p \<Longrightarrow> prog_inv p'"
proof (induction rule: sys_step.induct)
  case (Turn L p y)
  then have "sys_inv y" using sys_inv_turn by (auto simp: prog_inv_def)
  from prog_inv_sys [OF Turn.prems this idle_kept_turn [OF Turn.hyps(2)]] show ?case .
next
  case (Setup p fd bnd lst)
  then show ?case by (simp add: prog_inv_setup)
next
  case (Client p a junk sbuf rbuf pcreate fd s q)
  then have "sys_inv (pg_sys p)" by (simp add: prog_inv_def)
  note k = sys_inv_accepted [OF this Client.hyps(3)]
  show ?case using Client.prems Client.hyps(1) k by (simp add: prog_inv_def)
next
  case (Receive p a r ovl junk avail r' q)
  then have "sys_inv (pg_sys p)" by (simp add: prog_inv_def)
  from prog_inv_sys [OF Receive.prems sys_inv_received [OF this Receive.hyps(1,3)]] show ?case by (simp add: idle_kept_def)
next
  case (Timer junk p pc g q)
  then have "timer_inv (pc, g, q)" using timer_inv_step by (auto simp: prog_inv_def sys_inv_def)
  then have "sys_inv ((pg_sys p)\<lparr>sy_timer := (pc, g), sy_queue := q\<rparr>)" using Timer.prems by (simp add: prog_inv_def sys_inv_def)
  then show ?case by (rule prog_inv_sys [OF Timer.prems]) (simp add: idle_kept_def)
next
  case (Library p matches e cs l)
  then show ?case by (intro prog_inv_library)
next
  case (Library_End p cb l)
  have "sys_inv (set_lib l (pg_sys p))"
    using Library_End.prems exit_cbs [OF Library_End.hyps(2,1)] by (simp add: sys_inv_lib prog_inv_def)
  then show ?case by (rule prog_inv_sys [OF Library_End.prems]) (simp add: idle_kept_def set_lib_def)
next
  case (Callback p cs c cs' E b)
  have k: "keeps (sy_broker (pg_sys p)) b" using keeps_callback [OF Callback.hyps(3)] .
  have "sys_inv ((pg_sys p)\<lparr>sy_broker := b\<rparr>)" using Callback.prems k sys_inv_keeps by (simp add: prog_inv_def)
  then show ?case using Callback.prems Callback.hyps(1) k by (auto simp: prog_inv_def keeps_def)
next
  case (Samples p buf n g s)
  have inv: "sys_inv (pg_sys p)" using Samples.prems by (simp add: prog_inv_def)
  note k = IQ_keeps [OF Samples.hyps(2)] IQ_waiting [OF Samples.hyps(2)]
  have "sys_inv (set_server s ((pg_sys p)\<lparr>sy_dma := g\<rparr>))" using inv k by (simp add: sys_inv_def)
  then show ?case by (rule prog_inv_sys [OF Samples.prems]) (use k in \<open>simp add: idle_kept_def\<close>)
qed

lemma init_exit_cbs [simp]:
  "cb_list (snd (init_exit0 r b)) = cb_list b" "cb_list (snd (init_exit1 r b)) = cb_list b"
  "cb_list (snd (init_exit2 r b)) = cb_list b" "cb_list (connect_callback c b) = cb_list b"
  by (simp_all add: init_exit0_def init_exit1_def init_exit2_def mq_call_def Let_def connect_callback_def)

lemma init_connected_cbs [simp]: "cb_list (snd (init_connected aw env src cb b)) = cb_list b"
  by (simp add: init_connected_def Let_def mq_call_def split: prod.split)

lemma client_id_cbs: "client_id_generate src pid h b = Inr b' \<Longrightarrow> cb_list b' = cb_list b"
  by (auto simp: client_id_generate_def Let_def split: if_splits)

lemma init_broker_cbs:
  assumes "init_broker aw env src host port cb b = Inr x" and "cb_list b = []"
  shows "cb_list (snd x) = []"
proof (cases "client_id_generate src (ie_pid env) (ie_hostname env) (b\<lparr>big_mutex := Locked\<rparr>)")
  case (Inl e)
  then show ?thesis using assms by (auto simp: init_broker_def Let_def split: if_splits)
next
  case (Inr b1)
  then have "cb_list b1 = []" using client_id_cbs assms(2) by fastforce
  with Inr assms show ?thesis
    by (cases "ie_conn env") (auto simp: init_broker_def Let_def split: if_splits)
qed

lemma startup_parts:
  assumes "main_startup M = Inr (Some y)"
  shows "\<exists>p. createMsgQueue (me_msgget M) = Some (sy_queue y) \<and>
    initProcBroker (me_waddr M) (me_init M) (me_argv M) (me_memory M) (me_xfers M) g_broker0
       \<lparr>sv = snd (InitServerThread (me_server M)), rx_heap = Map.empty, wire = [], send_env = me_sends M\<rparr> = Inr (0, p) \<and>
    fst (init_dma_state (me_axidma M)) = 0 \<and>
    sy_timer y = (T_Lock, snd (InitTimerThread (me_timer M))) \<and> sy_broker y = p \<and> sy_dma y = snd (init_dma_state (me_axidma M)) \<and>
    server y = \<lparr>sv = snd (InitServerThread (me_server M)), rx_heap = Map.empty, wire = [], send_env = me_sends M\<rparr>"
  using assms
  by (auto simp: main_startup_def Let_def res_bind_eq_Inr initProcBroker_def split: option.splits prod.splits if_splits)

lemma startup_inv:
  assumes "main_startup M = Inr (Some y)"
  shows "sys_inv y"
proof -
  from startup_parts [OF assms] obtain p where y:
    "initProcBroker (me_waddr M) (me_init M) (me_argv M) (me_memory M) (me_xfers M) g_broker0
       \<lparr>sv = snd (InitServerThread (me_server M)), rx_heap = Map.empty, wire = [], send_env = me_sends M\<rparr> = Inr (0, p)"
    "fst (init_dma_state (me_axidma M)) = 0" "sy_timer y = (T_Lock, snd (InitTimerThread (me_timer M)))"
    "sy_broker y = p" "sy_dma y = snd (init_dma_state (me_axidma M))"
    "server y = \<lparr>sv = snd (InitServerThread (me_server M)), rx_heap = Map.empty, wire = [], send_env = me_sends M\<rparr>" by blast
  from y(1) obtain ret where l: "init_broker (me_waddr M) (me_init M) (get_prog_name (me_argv M)) None (- 1) None g_broker0 = Inr (ret, lib p)"
    "rssi_state p = 0" by (auto simp: initProcBroker_def res_bind_eq_Inr split: if_splits)
  have "cb_list (lib p) = []" using init_broker_cbs [OF l(1)] by (simp add: g_broker0_def)
  moreover have "srv_inv (server y)" by (simp add: y(6) srv_inv_def InitServerThread_def newThreadPara_def)
  moreover have "timer_inv (T_Lock, snd (InitTimerThread (me_timer M)), sy_queue y)"
    by (simp add: timer_inv_def InitTimerThread_def owns_def newThreadPara_def)
  moreover have "dma_inv (sy_dma y)" "registered (sy_dma y) = 0"
    using y(2,5) by (cases "me_axidma M"; simp add: init_dma_state_def dma_inv_def axi_running_def registered_def Let_def)+
  ultimately show ?thesis using l(2) y(3,4,6) by (simp add: sys_inv_def InitServerThread_def)
qed

lemma start_prog_inv: "main_startup M = Inr (Some y) \<Longrightarrow> prog_inv (start_prog y)"
  using startup_inv [of M y] startup_parts [of M y] by (auto simp: prog_inv_def start_prog_def InitServerThread_def)

lemma sys_reach_inv: "sys_reach D p \<Longrightarrow> prog_inv p"
  by (induction rule: sys_reach.induct) (use start_prog_inv prog_inv_step in blast)+

text \<open>A program whose connection to the broker has ended, after the callbacks were registered.\<close>

definition cut_off :: "prog \<Rightarrow> bool" where
  "cut_off p \<longleftrightarrow> enableCallback (sv (server (pg_sys p))) = 1 \<and> \<not> mosq (lib (sy_broker (pg_sys p))) \<and>
     cb_list (lib (sy_broker (pg_sys p))) = []"

lemma cut_off_sys:
  "cut_off p \<Longrightarrow> idle_kept (pg_sys p) y \<Longrightarrow> lib_kept (pg_sys p) y \<Longrightarrow> cut_off (p\<lparr>pg_sys := y, pg_calls := cs\<rparr>)"
  by (simp add: cut_off_def idle_kept_def lib_kept_def)

lemma cut_off_setup:
  assumes "prog_inv p" and "cut_off p" and "pg_server p = Srv_Setup"
  shows "cut_off (server_setup fd bnd lst p)"
proof -
  obtain ok v where v: "runServer_setup fd bnd lst (sv (server (pg_sys p))) = (ok, v)" by fastforce
  have "g_receive (sv (server (pg_sys p))) = None" using assms(1,3) by (simp add: prog_inv_def)
  from srv_inv_setup [OF v this] v assms(2) show ?thesis by (simp add: cut_off_def server_setup_def set_server_def)
qed

lemma cut_off_step: "sys_step D p p' \<Longrightarrow> prog_inv p \<Longrightarrow> cut_off p \<Longrightarrow> cut_off p' \<and> set (pg_calls p') \<subseteq> set (pg_calls p)"
proof (induction rule: sys_step.induct)
  case (Turn L p y)
  from cut_off_sys [OF Turn.prems(2) idle_kept_turn [OF Turn.hyps(2)] lib_kept_turn [OF Turn.hyps(2)], of "pg_calls p"]
  show ?case by simp
next
  case (Setup p fd bnd lst)
  then show ?case using cut_off_setup [of p fd bnd lst] by (simp add: server_setup_def split: prod.split)
next
  case (Client p a junk sbuf rbuf pcreate fd s q)
  have "enableCallback (sv s) = enableCallback (sv (server (pg_sys p)))"
    using Client.hyps(3) by (auto simp: runServer_accept_def Let_def res_bind_eq_Inr split: if_splits prod.splits)
  then show ?case using Client.prems by (simp add: cut_off_def set_server_def)
next
  case (Callback p cs c cs' E b)
  have "keeps (sy_broker (pg_sys p)) b" using keeps_callback [OF Callback.hyps(3)] .
  then show ?case using Callback by (auto simp: cut_off_def keeps_def)
next
  case (Samples p buf n g s)
  then show ?case using IQ_keeps [OF Samples.hyps(2)] by (simp add: cut_off_def set_server_def)
qed (simp_all add: cut_off_def set_server_def)

lemma cut_off_steps: "(sys_step D)\<^sup>*\<^sup>* p p' \<Longrightarrow> prog_inv p \<Longrightarrow> cut_off p \<Longrightarrow>
    prog_inv p' \<and> cut_off p' \<and> set (pg_calls p') \<subseteq> set (pg_calls p)"
  by (induction rule: rtranclp_induct) (use prog_inv_step cut_off_step in blast)+

text \<open>A message that finds the one registered callback creates one call of it.\<close>

lemma message_one_call:
  assumes "cb_list b = [d]" and "srv_list b = []" and "matches (topic d) t" and "length t < 256"
  shows "mqtt_event matches (Ev_Message payload t) b = Inr ([(recv_callback d, payload, t)], b)"
  using assms by (simp add: message_callback_def)

section \<open>Properties\<close>


text \<open>A start of the program, with what an earlier run may have left in the kernel's queue.\<close>

definition ex_main :: "(int \<times> bytes) list \<Rightarrow> main_env" where
  "ex_main old = \<lparr>me_zlog_init = 0, me_zlog_cat = Some 1, me_build = (''11.2'', ''Jan  1 2020'', ''00:00:00''), me_msgget = (0, \<lparr>kq_live = True, kq_msgs = old\<rparr>), me_timer = 0, me_server = 0, me_waddr = 1,
     me_init = ex_init_env, me_argv = ''/usr/bin/devAdapter'', me_memory = replicate MAXSHAREBUF_SIZE NUL, me_xfers = [],
     me_sends = [], me_axidma = Some 1\<rparr>"

lemma ex_main_starts:
  "\<exists>y. main_startup (ex_main old) = Inr (Some y) \<and> server y = \<lparr>sv = snd (InitServerThread 0), rx_heap = Map.empty, wire = [], send_env = []\<rparr> \<and>
     mq_kernel (sy_queue y) = \<lparr>kq_live = True, kq_msgs = old\<rparr> \<and> seq_id (sy_queue y) = 1 \<and>
     mosq (lib (sy_broker y)) \<and> cb_list (lib (sy_broker y)) = [] \<and> srv_list (lib (sy_broker y)) = []"
proof -
  have n: "get_prog_name ''/usr/bin/devAdapter'' = ''devAdapter''" by code_simp
  obtain b1 where "init_broker 1 ex_init_env ''devAdapter'' None (- 1) None g_broker0 = Inr (0, b1)"
    "mosq b1" "cb_list b1 = []" "srv_list b1 = []"
    using init_broker_starts by blast
  then show ?thesis
    by (simp add: main_startup_def ex_main_def createMsgQueue_def initProcBroker_def n InitTimerThread_def InitServerThread_def
        init_dma_state_def initCountDown_def)
qed

text \<open>The same start, with the listening socket set up and one client accepted.\<close>

lemma register_callback_signalled:
  assumes "cb_list b = []" and "rc env = 0" and "timedwait env = 0"
  shows "cb_list (snd (register_callback a aw env (Some s) (Some f) t b)) \<noteq> [] \<and>
    srv_list (snd (register_callback a aw env (Some s) (Some f) t b)) = srv_list b \<and>
    mosq (snd (register_callback a aw env (Some s) (Some f) t b)) = mosq b"
  using assms ack_wait_signalled [OF assms(2,3), of aw "sub_list b"]
  by (cases "ack_wait aw env (sub_list b)")
    (simp add: register_callback_def register_cb_common_def found_cb_def Let_def mq_call_def)

lemma ex_connected:
  "\<exists>p. sys_reach int_dbl p \<and> waiting (sv (server (pg_sys p))) = STATE_CONNECTED \<and>
    link_ready 7 (server (pg_sys p)) \<and> send_up (server (pg_sys p)) \<and> mosq (lib (sy_broker (pg_sys p))) \<and>
    cb_list (lib (sy_broker (pg_sys p))) \<noteq> [] \<and> srv_list (lib (sy_broker (pg_sys p))) = []"
proof -
  from ex_main_starts [of "[]"] obtain y where y: "main_startup (ex_main []) = Inr (Some y)"
    "server y = \<lparr>sv = snd (InitServerThread 0), rx_heap = Map.empty, wire = [], send_env = []\<rparr>"
    "mq_kernel (sy_queue y) = \<lparr>kq_live = True, kq_msgs = []\<rparr>" "seq_id (sy_queue y) = 1"
    "mosq (lib (sy_broker y))" "cb_list (lib (sy_broker y)) = []" "srv_list (lib (sy_broker y)) = []" by blast
  define p where "p = server_setup 4 0 0 (start_prog y)"
  have r: "mq_ready (Suc 0) (sy_queue y)" using y(3,4) by (simp add: mq_ready_def)
  obtain q where q: "postMsg ex_junk MSG_ACCEPT_NEW_CLIENT None 0 (sy_queue y) = Inr q" "mq_ready 0 q"
    "mq_evs q = [(MSG_ACCEPT_NEW_CLIENT, 0, take 2040 ex_junk)]"
    using postMsg_ready [OF r, of MSG_ACCEPT_NEW_CLIENT ex_junk] y(3) by (auto simp: mq_evs_def simp del: postMsg_NULL)
  have p: "pg_server p = Srv_Accept" "rx_heap (server (pg_sys p)) 3 = None" "sy_queue (pg_sys p) = sy_queue y"
    "lib (sy_broker (pg_sys p)) = lib (sy_broker y)" "enableCallback (sv (server (pg_sys p))) = 0"
    by (simp_all add: p_def server_setup_def start_prog_def runServer_setup_def y(2) InitServerThread_def set_server_def)
  have "sys_reach int_dbl p" unfolding p_def
    by (rule sys_reach.Step [OF sys_reach.Init [OF y(1)] sys_step.Setup]) (simp add: start_prog_def)
  moreover obtain t where t: "runServer_accept ex_junk [] [] 0 3 7 (server (pg_sys p), sy_queue (pg_sys p)) = Inr (t, q)"
    "waiting (sv t) = STATE_CONNECTED" "link_ready 7 t" "enableCallback (sv t) = 0"
    using q(1) p(3,5) by (simp add: runServer_accept_def InitReceThread_def link_ready_def del: postMsg_NULL)
  define p1 where "p1 = p\<lparr>pg_sys := set_server t ((pg_sys p)\<lparr>sy_queue := q\<rparr>)\<rparr>"
  have r1: "sys_reach int_dbl p1" unfolding p1_def
    using calculation sys_step.Client [OF p(1,2) t(1)] sys_reach.Step by blast
  have p1: "server (pg_sys p1) = t" "sy_queue (pg_sys p1) = q" "lib (sy_broker (pg_sys p1)) = lib (sy_broker y)"
    using p(4) by (simp_all add: p1_def set_server_def)
  obtain m q2 where m: "eventLoop ex_turn (pg_sys p1) = dispatch ex_turn m ((pg_sys p1)\<lparr>sy_queue := q2\<rparr>)"
    "mq_ev m = (MSG_ACCEPT_NEW_CLIENT, 0, take 2040 ex_junk)"
    using eventLoop_ev [OF q(2,3) [folded p1(2)], of ex_turn] by blast
  define y2 where "y2 = start_supervision ex_turn (register_callbacks ex_turn ((pg_sys p1)\<lparr>sy_queue := q2\<rparr>))"
  have "eventLoop ex_turn (pg_sys p1) = Next (set_server (enable_send (server y2)) y2)"
    using m by (simp add: dispatch_def mq_ev_def on_accept_def y2_def Let_def)
  then have r2: "sys_reach int_dbl (p1\<lparr>pg_sys := set_server (enable_send (server y2)) y2\<rparr>)"
    by (intro sys_reach.Step [OF r1 sys_step.Turn [where L = ex_turn]]) (simp_all add: ex_turn_def [THEN arg_cong [where f = tu_env]])
  have e: "rc (tu_ack ex_turn) = 0" "timedwait (tu_ack ex_turn) = 0" by (simp_all add: ex_turn_def ex_signalled_def)
  have "waiting (sv (server y2)) = STATE_CONNECTED" "link_ready 7 (server y2)" "mosq (lib (sy_broker y2))"
    "cb_list (lib (sy_broker y2)) \<noteq> []" "srv_list (lib (sy_broker y2)) = []"
    using t p1 y(5-7) register_callback_signalled [OF y(6) e, of "tu_addr ex_turn" "tu_waddr ex_turn" "''all''" 1 "Some ''#''"]
    by (auto simp: y2_def start_supervision_def register_callbacks_def broker_register_callback_def Let_def set_server_def
        link_ready_def split: prod.splits)
  then show ?thesis using r2
    by (intro exI [of _ "p1\<lparr>pg_sys := set_server (enable_send (server y2)) y2\<rparr>"])
      (simp add: set_server_def enable_send_def link_ready_def send_up_def)
qed




text \<open>
  Property C37: The connection to the broker is not made again.  When it ends after the callbacks were registered, its thread
  frees them and leaves, \<open>enableCallback\<close> stays 1, and so in every later state, however many clients come,
  no callback is registered, no call is made beyond those already pending, and nothing is connected.
\<close>
theorem broker_loss_is_final:
  assumes "sys_reach D p" and "mosq (lib (sy_broker (pg_sys p)))" and "enableCallback (sv (server (pg_sys p))) = 1"
    and "mqtt_thread_exit (lib (sy_broker (pg_sys p))) = (cb, l)" and "p1 = p\<lparr>pg_sys := set_lib l (pg_sys p)\<rparr>"
  shows "sys_step D p p1 \<and> (\<forall>p2. (sys_step D)\<^sup>*\<^sup>* p1 p2 \<longrightarrow>
    \<not> mosq (lib (sy_broker (pg_sys p2))) \<and> cb_list (lib (sy_broker (pg_sys p2))) = [] \<and>
    enableCallback (sv (server (pg_sys p2))) = 1 \<and> set (pg_calls p2) \<subseteq> set (pg_calls p))"
proof -
  have s: "sys_step D p p1" using sys_step.Library_End [OF assms(2,4)] assms(5) by simp
  have c: "cut_off p1" using exit_cbs [OF assms(4,2)] assms(3,5) by (simp add: cut_off_def set_lib_def)
  have "prog_inv p1" using prog_inv_step [OF s sys_reach_inv [OF assms(1)]] .
  from cut_off_steps [OF _ this c] s assms(5) show ?thesis by (auto simp: cut_off_def)
qed

theorem broker_loss_is_final_witness:
  "\<exists>p p1. sys_reach int_dbl p \<and> cb_list (lib (sy_broker (pg_sys p))) \<noteq> [] \<and> sys_step int_dbl p p1 \<and>
    cb_list (lib (sy_broker (pg_sys p1))) = [] \<and> enableCallback (sv (server (pg_sys p1))) = 1"
proof -
  from ex_connected obtain p where p: "sys_reach int_dbl p" "mosq (lib (sy_broker (pg_sys p)))"
    "cb_list (lib (sy_broker (pg_sys p))) \<noteq> []" by blast
  then have "enableCallback (sv (server (pg_sys p))) = 1"
    using sys_reach_inv [OF p(1)] by (auto simp: prog_inv_def sys_inv_def)
  from broker_loss_is_final [OF p(1,2) this _ refl] p show ?thesis by (metis rtranclp.rtrancl_refl surj_pair)
qed

text \<open>
  Property C40: A restart can stop the program.  The kernel's queue outlives the process and is opened
  again under the same key; a \<open>MSG_TIMEOUT\<close> that an earlier run left there is the first event of the new run, which finds
  \<open>STATE_STARTUP\<close> instead of \<open>STATE_DISCONNECTED\<close> and follows the null pointer \<open>g_receive\<close>.
\<close>
theorem stale_timeout_crashes:
  assumes "main_startup M = Inr (Some y)" and "kq_live (snd (me_msgget M))"
    and "kq_msgs (snd (me_msgget M)) = (MSG_TIMEOUT, b) # ms"
  shows "eventLoop L y = Ub NullDeref"
proof -
  from startup_parts [OF assms(1)] have y: "createMsgQueue (me_msgget M) = Some (sy_queue y)"
    "server y = \<lparr>sv = snd (InitServerThread (me_server M)), rx_heap = Map.empty, wire = [], send_env = me_sends M\<rparr>" by blast+
  from y(1) have "mq_kernel (sy_queue y) = snd (me_msgget M)" by (auto simp: createMsgQueue_def split: if_splits dest: sym)
  with assms(2,3) obtain m q where "getMsgQueue (tu_junk L) (sy_queue y) = Some (Some m, q)" "msg_type m = MSG_TIMEOUT"
    by (simp add: getMsgQueue_def msgrcv_def)
  moreover have "on_timeout L (y\<lparr>sy_queue := q\<rparr>) = Ub NullDeref"
    by (simp add: on_timeout_def y(2) InitServerThread_def deref_rx_def)
  ultimately show ?thesis by (simp add: eventLoop_def dispatch_supervision)
qed

theorem stale_timeout_crashes_witness:
  "\<exists>y. main_startup (ex_main [(20, replicate 2048 NUL)]) = Inr (Some y) \<and> eventLoop ex_turn y = Ub NullDeref"
proof -
  obtain y where y: "main_startup (ex_main [(20, replicate 2048 NUL)]) = Inr (Some y)" using ex_main_starts by blast
  from stale_timeout_crashes [OF y, of "replicate 2048 NUL" "[]" ex_turn] y show ?thesis by (simp add: ex_main_def)
qed

end
