(* ===== verification/GW_RegDev.thy ===== *)
theory GW_RegDev
  imports GW_Prelude
begin

text \<open>
  \<open>src/code/dependence/gw_regdev/regdev_common.c\<close> and \<open>src/code/src/gw_control.c\<close>: the FPGA
  registers, mapped from \<open>/dev/mem\<close>.

  The machine's physical memory is a function from byte addresses.  A mapping is the physical
  address of its first byte with its size; an access through it outside the mapping is
  \<open>OutOfBounds\<close>.  The kernel's answers (\<open>open\<close>, \<open>mmap\<close>, \<open>getpagesize\<close>) are parameters.
\<close>

unbundle bit_operations_syntax

section \<open>State\<close>

type_synonym phys = "int \<Rightarrow> byte"

record mem_map_s =
  mm_fd :: int
  phy_addr :: int
  map_base :: "int option"
  memmap_size :: int

definition REG_PHY_ADDR :: int where "REG_PHY_ADDR = 0x43C20000"
definition REG_MAP_SIZE :: int where "REG_MAP_SIZE = 0x10000"

text \<open>Conversions between \<open>int\<close> and \<open>unsigned\<close>.\<close>

definition u32 :: "int \<Rightarrow> int" where "u32 v = v mod 4294967296"
definition s32 :: "int \<Rightarrow> int" where "s32 v = (if u32 v < 2147483648 then u32 v else u32 v - 4294967296)"

section \<open>Operations\<close>

definition regdev_init :: mem_map_s where
  "regdev_init = \<lparr>mm_fd = - 1, phy_addr = 0, map_base = None, memmap_size = 0\<rparr>"

definition regdev_set_para :: "int \<Rightarrow> int \<Rightarrow> mem_map_s \<Rightarrow> int \<times> mem_map_s" where
  "regdev_set_para addr map_size mp = (0, mp\<lparr>phy_addr := addr, memmap_size := map_size\<rparr>)"

text \<open>
  \<open>fd\<close> is what \<open>open\<close> returns, \<open>mmap_ok\<close> says whether \<open>mmap\<close> succeeds.  \<open>width\<close> is 8 times the
  size of an \<open>int\<close>, a number of bits that is added to a number of bytes.
\<close>

definition regdev_open :: "int \<Rightarrow> int \<Rightarrow> bool \<Rightarrow> mem_map_s option \<Rightarrow> int \<times> mem_map_s option" where
  "regdev_open fd page_size mmap_ok dev =
     (case dev of
        None \<Rightarrow> (- EINVAL, None)
      | Some mp \<Rightarrow>
          (let mp1 = mp\<lparr>mm_fd := fd\<rparr>
           in if fd < 0 then (fd, Some mp1)
              else let width = 32;
                       offset_in_page = u32 (phy_addr mp1) AND (page_size - 1);
                       mapped_size = (if u32 (offset_in_page + width) > page_size
                                      then u32 (u32 (memmap_size mp1) + page_size) else u32 (memmap_size mp1));
                       base = phy_addr mp1 AND NOT (page_size - 1)
                   in if \<not> mmap_ok then (- EINVAL, Some (mp1\<lparr>map_base := None\<rparr>))
                      else (0, Some (mp1\<lparr>map_base := Some base, memmap_size := s32 mapped_size\<rparr>))))"

text \<open>The calls of \<open>munmap\<close> and \<open>close\<close> it makes; the struct is not changed.\<close>

definition regdev_close :: "mem_map_s option \<Rightarrow> (int \<times> int) option \<times> int option" where
  "regdev_close dev =
     (case dev of
        None \<Rightarrow> (None, None)
      | Some mp \<Rightarrow>
          (map_option (\<lambda>b. (b, memmap_size mp)) (map_base mp), if mm_fd mp \<ge> 0 then Some (mm_fd mp) else None))"

text \<open>
  An access of four bytes at offset \<open>reg\<close>; \<open>MAP_FAILED\<close> is no mapping.  The only guard of the
  source is \<open>reg > 0xFFFB\<close>.
\<close>

definition reg_addr :: "mem_map_s \<Rightarrow> int \<Rightarrow> int res" where
  "reg_addr mp reg =
     (case map_base mp of
        None \<Rightarrow> Inl OutOfBounds
      | Some b \<Rightarrow> if 0 \<le> reg \<and> reg + 4 \<le> memmap_size mp then Inr (b + reg) else Inl OutOfBounds)"

definition phys_read :: "phys \<Rightarrow> int \<Rightarrow> int" where
  "phys_read m a = un_le32 [m a, m (a + 1), m (a + 2), m (a + 3)]"

definition phys_write :: "phys \<Rightarrow> int \<Rightarrow> int \<Rightarrow> phys" where
  "phys_write m a v = (\<lambda>i. if a \<le> i \<and> i < a + 4 then le32 v ! nat (i - a) else m i)"

definition regdev_read :: "phys \<Rightarrow> mem_map_s \<Rightarrow> int \<Rightarrow> (int \<times> int option) res" where
  "regdev_read m mp reg =
     (if reg > 0xFFFB then Inr (- EIO, None)
      else res_bind (reg_addr mp reg) (\<lambda>a. Inr (0, Some (phys_read m a))))"

definition regdev_write :: "mem_map_s \<Rightarrow> int \<Rightarrow> int \<Rightarrow> phys \<Rightarrow> (int \<times> phys) res" where
  "regdev_write mp reg val m =
     (if reg > 0xFFFB then Inr (- EIO, m)
      else res_bind (reg_addr mp reg) (\<lambda>a. Inr (0, phys_write m a val)))"

definition regdev_phy :: "mem_map_s \<Rightarrow> int" where
  "regdev_phy mp = phy_addr mp"

definition initRegdev :: "int \<Rightarrow> int \<Rightarrow> bool \<Rightarrow> int \<times> mem_map_s option" where
  "initRegdev fd page_size mmap_ok =
     (let (rc, dev) = regdev_open fd page_size mmap_ok (Some (snd (regdev_set_para REG_PHY_ADDR REG_MAP_SIZE regdev_init)))
      in if rc < 0 then (- 1, dev) else (0, dev))"

section \<open>Memory\<close>

lemma phys_write_bytes:
  "[phys_write m a v a, phys_write m a v (a + 1), phys_write m a v (a + 2), phys_write m a v (a + 3)] = le32 v"
proof -
  have "le32 v = [le32 v ! nat 0, le32 v ! nat 1, le32 v ! nat 2, le32 v ! nat 3]"
    using list.size(3) length_le32 [of v] by (intro nth_equalityI) (auto simp: less_Suc_eq numeral_nat)
  then show ?thesis by (simp add: phys_write_def)
qed

lemma phys_read_write [simp]: "int32 v \<Longrightarrow> phys_read (phys_write m a v) a = v"
  unfolding phys_read_def phys_write_bytes by (rule un_le32_le32)

lemma phys_read_write_other: "b + 4 \<le> a \<or> a + 4 \<le> b \<Longrightarrow> phys_read (phys_write m a v) b = phys_read m b"
  by (auto simp: phys_read_def phys_write_def)

lemma initRegdev_ok:
  assumes "0 \<le> fd"
  shows "initRegdev fd 4096 True =
    (0, Some \<lparr>mm_fd = fd, phy_addr = REG_PHY_ADDR, map_base = Some REG_PHY_ADDR, memmap_size = REG_MAP_SIZE\<rparr>)"
  using assms
  by (simp add: initRegdev_def regdev_open_def regdev_set_para_def regdev_init_def Let_def REG_PHY_ADDR_def
      REG_MAP_SIZE_def u32_def s32_def)

section \<open>Properties\<close>

text \<open>
  Property C33: After a successful \<open>initRegdev\<close> a register write is read back, lands at the
  physical address \<open>REG_PHY_ADDR + reg\<close>, leaves every register that does not overlap it alone,
  and an offset past the 64 KB window is refused without an access.
\<close>
theorem register_window:
  assumes "initRegdev fd 4096 True = (rc, Some mp)" and "0 \<le> fd"
    and "0 \<le> reg" and "reg \<le> 0xFFFB" and "int32 val"
  shows "\<exists>m'. regdev_write mp reg val m = Inr (0, m') \<and> regdev_read m' mp reg = Inr (0, Some val) \<and>
    phys_read m' (REG_PHY_ADDR + reg) = val \<and>
    (\<forall>r. 0 \<le> r \<and> r \<le> 0xFFFB \<and> (r + 4 \<le> reg \<or> reg + 4 \<le> r) \<longrightarrow> regdev_read m' mp r = regdev_read m mp r) \<and>
    (\<forall>r > 0xFFFB. regdev_read m' mp r = Inr (- EIO, None) \<and> regdev_write mp r val m' = Inr (- EIO, m'))"
proof -
  from initRegdev_ok [OF assms(2)] assms(1) have mp:
    "mp = \<lparr>mm_fd = fd, phy_addr = REG_PHY_ADDR, map_base = Some REG_PHY_ADDR, memmap_size = REG_MAP_SIZE\<rparr>" by simp
  have a: "reg_addr mp r = Inr (REG_PHY_ADDR + r)" if "0 \<le> r" "r \<le> 0xFFFB" for r
    using that by (simp add: mp reg_addr_def REG_MAP_SIZE_def)
  have o: "phys_read (phys_write m (REG_PHY_ADDR + reg) val) (REG_PHY_ADDR + r) = phys_read m (REG_PHY_ADDR + r)"
    if "r + 4 \<le> reg \<or> reg + 4 \<le> r" for r
    by (rule phys_read_write_other) (use that in linarith)
  show ?thesis
    using assms(3-5) a o by (simp add: regdev_write_def regdev_read_def)
qed

definition ex_regdev :: mem_map_s where
  "ex_regdev = \<lparr>mm_fd = 5, phy_addr = REG_PHY_ADDR, map_base = Some REG_PHY_ADDR, memmap_size = REG_MAP_SIZE\<rparr>"

theorem register_window_witness:
  "\<exists>m'. regdev_write ex_regdev 0x100 77 (\<lambda>_. NUL) = Inr (0, m') \<and> regdev_read m' ex_regdev 0x100 = Inr (0, Some 77)"
  using register_window [where fd = 5 and rc = 0 and mp = ex_regdev and reg = "0x100" and val = 77 and m = "\<lambda>_. NUL"] initRegdev_ok [of 5]
  by (auto simp: ex_regdev_def)

text \<open>
  The guard is one-sided and the page offset is dropped: a negative register
  number passes the test and leaves the mapping, and on a device whose physical address is
  not page-aligned register \<open>reg\<close> is read from \<open>phy_addr - offset + reg\<close>, short of the
  register asked for.
\<close>
lemma register_access_gaps:
  "(reg < 0 \<longrightarrow> regdev_read m mp reg = Inl OutOfBounds \<and> regdev_write mp reg val m = Inl OutOfBounds) \<and>
   regdev_read m (the (snd (regdev_open 5 4096 True (Some (snd (regdev_set_para 0x43C20010 0x1000 regdev_init)))))) 4
     = Inr (0, Some (phys_read m (0x43C20010 - 0x10 + 4)))"
  by (simp add: regdev_read_def regdev_write_def reg_addr_def regdev_open_def regdev_set_para_def regdev_init_def
      Let_def u32_def s32_def split: option.split)

lemma register_access_gaps_witness:
  "regdev_read (\<lambda>_. NUL) ex_regdev (- 4) = Inl OutOfBounds"
  using register_access_gaps [of "- 4" "\<lambda>_. NUL" ex_regdev 0] by simp

end
