(* ===== verification/GW_Socket.thy ===== *)
theory GW_Socket
  imports GW_Prelude
begin

text \<open>
  The sockets of \<open>src/code/src/server.c\<close>: the options \<open>InitReceThread\<close> sets on a client's connection and the
  listening socket of \<open>runServer\<close>.

  A socket is a record of the settings the code touches; the table maps the open descriptors to their sockets.  The
  system calls are modelled by their documented behaviour: on a descriptor that is not open they return \<open>- 1\<close> and
  change nothing.  What the kernel makes of a requested buffer size (it doubles it, within limits of its own) is the
  parameter \<open>rule\<close>.
\<close>

unbundle bit_operations_syntax

section \<open>The kernel's side\<close>

record sock =
  so_sndbuf :: int
  so_rcvbuf :: int
  so_flags :: int
  so_rcvtimeo :: "int \<times> int"
  so_sndtimeo :: "int \<times> int"
  so_reuseaddr :: int
  so_port :: "int option"
  so_backlog :: "int option"
  so_outq :: int

type_synonym sockets = "int \<rightharpoonup> sock"

datatype sockopt = SO_SNDBUF int | SO_RCVBUF int | SO_RCVTIMEO "int \<times> int" | SO_SNDTIMEO "int \<times> int" | SO_REUSEADDR int

text \<open>A time must have its microseconds below a million.\<close>

definition timeval_ok :: "int \<times> int \<Rightarrow> bool" where
  "timeval_ok t \<longleftrightarrow> 0 \<le> snd t \<and> snd t < 1000000"

definition setsockopt :: "(int \<Rightarrow> int) \<Rightarrow> int \<Rightarrow> sockopt \<Rightarrow> sockets \<Rightarrow> int \<times> sockets" where
  "setsockopt rule fd opt net =
     (case net fd of
        None \<Rightarrow> (- 1, net)
      | Some s \<Rightarrow>
          (case opt of
             SO_SNDBUF n \<Rightarrow> (0, net(fd \<mapsto> s\<lparr>so_sndbuf := rule n\<rparr>))
           | SO_RCVBUF n \<Rightarrow> (0, net(fd \<mapsto> s\<lparr>so_rcvbuf := rule n\<rparr>))
           | SO_RCVTIMEO t \<Rightarrow> if timeval_ok t then (0, net(fd \<mapsto> s\<lparr>so_rcvtimeo := t\<rparr>)) else (- 1, net)
           | SO_SNDTIMEO t \<Rightarrow> if timeval_ok t then (0, net(fd \<mapsto> s\<lparr>so_sndtimeo := t\<rparr>)) else (- 1, net)
           | SO_REUSEADDR n \<Rightarrow> (0, net(fd \<mapsto> s\<lparr>so_reuseaddr := n\<rparr>))))"

text \<open>Reading an option leaves the variable alone when it fails.\<close>

definition getsockopt :: "(sock \<Rightarrow> int) \<Rightarrow> int \<Rightarrow> sockets \<Rightarrow> int \<Rightarrow> int \<times> int" where
  "getsockopt field fd net v = (case net fd of None \<Rightarrow> (- 1, v) | Some s \<Rightarrow> (0, field s))"

definition fcntl_getfl :: "int \<Rightarrow> sockets \<Rightarrow> int" where
  "fcntl_getfl fd net = (case net fd of None \<Rightarrow> - 1 | Some s \<Rightarrow> so_flags s)"

definition fcntl_setfl :: "int \<Rightarrow> int \<Rightarrow> sockets \<Rightarrow> int \<times> sockets" where
  "fcntl_setfl fd flags net =
     (case net fd of None \<Rightarrow> (- 1, net) | Some s \<Rightarrow> (0, net(fd \<mapsto> s\<lparr>so_flags := flags\<rparr>)))"

definition ioctl_siocoutq :: "int \<Rightarrow> sockets \<Rightarrow> int \<Rightarrow> int" where
  "ioctl_siocoutq fd net v = (case net fd of None \<Rightarrow> v | Some s \<Rightarrow> so_outq s)"

section \<open>The options of a connection\<close>

definition O_NONBLOCK :: int where "O_NONBLOCK = 2048"

definition gw_set_non_blocking_mode :: "int \<Rightarrow> sockets \<Rightarrow> sockets" where
  "gw_set_non_blocking_mode sockfd net =
     (let flags = fcntl_getfl sockfd net in snd (fcntl_setfl sockfd (flags OR O_NONBLOCK) net))"

definition gw_set_recv_timeout_mode :: "(int \<Rightarrow> int) \<Rightarrow> int \<Rightarrow> sockets \<Rightarrow> sockets" where
  "gw_set_recv_timeout_mode rule sockfd net = snd (setsockopt rule sockfd (SO_RCVTIMEO (0, 5)) net)"

definition gw_set_send_timeout_mode :: "(int \<Rightarrow> int) \<Rightarrow> int \<Rightarrow> sockets \<Rightarrow> int \<times> sockets" where
  "gw_set_send_timeout_mode rule sockfd net =
     (let timeout = (5, 0); (ret, net') = setsockopt rule sockfd (SO_SNDTIMEO timeout) net in (ret, net'))"

text \<open>
  \<open>gw_set_socket_buffer\<close> asks for 32 MB of send buffer, and for a receive buffer of the size it has just read.  The
  results are the two pairs of sizes it logs, before and after.
\<close>

definition gw_set_socket_buffer :: "(int \<Rightarrow> int) \<Rightarrow> int \<Rightarrow> sockets \<Rightarrow> (int \<times> int) \<times> (int \<times> int) \<times> sockets" where
  "gw_set_socket_buffer rule sock net =
     (let (err, snd_size) = getsockopt so_sndbuf sock net 0;
          (err, rcv_size) = getsockopt so_rcvbuf sock net 0;
          before = (snd_size, rcv_size);
          snd_size = 32 * 1024 * 1024;
          (err, net1) = setsockopt rule sock (SO_SNDBUF snd_size) net;
          (err, net2) = setsockopt rule sock (SO_RCVBUF rcv_size) net1;
          (err, snd_size) = getsockopt so_sndbuf sock net2 0;
          (err, rcv_size) = getsockopt so_rcvbuf sock net2 0
      in (before, (snd_size, rcv_size), net2))"

text \<open>What \<open>InitReceThread\<close> does to the socket before it starts the thread; the result is the value it logs.\<close>

definition InitReceThread_socket :: "(int \<Rightarrow> int) \<Rightarrow> int \<Rightarrow> sockets \<Rightarrow> int \<times> sockets" where
  "InitReceThread_socket rule connfd net =
     (let net1 = gw_set_recv_timeout_mode rule connfd net;
          (ret, net2) = gw_set_send_timeout_mode rule connfd net1;
          (before, after, net3) = gw_set_socket_buffer rule connfd net2
      in (ioctl_siocoutq connfd net3 0, net3))"

section \<open>The listening socket\<close>

definition new_sock :: "int \<Rightarrow> int \<Rightarrow> sock" where
  "new_sock sndbuf rcvbuf = \<lparr>so_sndbuf = sndbuf, so_rcvbuf = rcvbuf, so_flags = 2, so_rcvtimeo = (0, 0), so_sndtimeo = (0, 0),
     so_reuseaddr = 0, so_port = None, so_backlog = None, so_outq = 0\<rparr>"

text \<open>
  The calls of \<open>runServer\<close> before its loop, all of them made whatever the ones before return: \<open>fd\<close>, \<open>bnd\<close> and \<open>lst\<close> are
  the results of \<open>socket\<close>, \<open>bind\<close> and \<open>listen\<close>, \<open>s0\<close> the new socket.
\<close>

definition SERVER_PORT :: int where [simp]: "SERVER_PORT = 55555"

definition runServer_sockets :: "(int \<Rightarrow> int) \<Rightarrow> sock \<Rightarrow> int \<Rightarrow> int \<Rightarrow> int \<Rightarrow> sockets \<Rightarrow> sockets" where
  "runServer_sockets rule s0 fd bnd lst net =
     (let net1 = (if fd = - 1 then net else net(fd \<mapsto> s0));
          one = 1;
          (ret, net2) = setsockopt rule fd (SO_REUSEADDR one) net1;
          net3 = (case net2 fd of None \<Rightarrow> net2 | Some s \<Rightarrow> if bnd = - 1 then net2 else net2(fd \<mapsto> s\<lparr>so_port := Some SERVER_PORT\<rparr>))
      in (case net3 fd of None \<Rightarrow> net3 | Some s \<Rightarrow> if lst = - 1 then net3 else net3(fd \<mapsto> s\<lparr>so_backlog := Some 10\<rparr>)))"

section \<open>Properties\<close>

lemma setsockopt_closed: "net fd = None \<Longrightarrow> setsockopt rule fd opt net = (- 1, net)"
  by (simp add: setsockopt_def)

lemma setsockopt_other: "fd' \<noteq> fd \<Longrightarrow> snd (setsockopt rule fd opt net) fd' = net fd'"
  by (cases opt) (auto simp: setsockopt_def split: option.split)

text \<open>The flag is added to the ones the descriptor has, and a second call changes nothing.\<close>

lemma non_blocking_mode:
  assumes "net fd = Some s"
  shows "gw_set_non_blocking_mode fd net = net(fd \<mapsto> s\<lparr>so_flags := so_flags s OR O_NONBLOCK\<rparr>)"
    "gw_set_non_blocking_mode fd (gw_set_non_blocking_mode fd net) = gw_set_non_blocking_mode fd net"
  using assms by (simp_all add: gw_set_non_blocking_mode_def fcntl_getfl_def fcntl_setfl_def Let_def or.assoc)

lemma non_blocking_closed: "net fd = None \<Longrightarrow> gw_set_non_blocking_mode fd net = net"
  by (simp add: gw_set_non_blocking_mode_def fcntl_getfl_def fcntl_setfl_def Let_def)

text \<open>
  The options of a connection.  An open socket gets a receive timeout of five microseconds and a send
  timeout of five seconds; the send buffer is what the kernel grants of 32 MB, but the
  receive buffer is what it grants of the present size, so that it is never asked to grow to 32 MB; the other settings and
  sockets stay.  On a descriptor that is not open nothing happens and nothing is reported.
\<close>
lemma connection_options:
  "(\<forall>s. net fd = Some s \<longrightarrow>
      InitReceThread_socket rule fd net = (so_outq s, net(fd \<mapsto> s\<lparr>so_rcvtimeo := (0, 5), so_sndtimeo := (5, 0),
        so_sndbuf := rule 33554432, so_rcvbuf := rule (so_rcvbuf s)\<rparr>))) \<and>
   (net fd = None \<longrightarrow> InitReceThread_socket rule fd net = (0, net))"
  by (auto simp: InitReceThread_socket_def gw_set_recv_timeout_mode_def gw_set_send_timeout_mode_def gw_set_socket_buffer_def
      setsockopt_def getsockopt_def ioctl_siocoutq_def timeval_ok_def Let_def)

lemma connection_options_witness:
  "InitReceThread_socket (\<lambda>n. min (2 * n) 425984) 7 [7 \<mapsto> new_sock 87040 131072] =
    (0, [7 \<mapsto> (new_sock 87040 131072)\<lparr>so_rcvtimeo := (0, 5), so_sndtimeo := (5, 0), so_sndbuf := 425984, so_rcvbuf := 262144\<rparr>])"
  using connection_options [of "[7 \<mapsto> new_sock 87040 131072]" 7 "\<lambda>n. min (2 * n) 425984"] by (simp add: new_sock_def)

text \<open>When all calls succeed the server listens on its port; a failed \<open>socket\<close> leaves the table alone.\<close>

lemma runServer_listens:
  assumes "fd \<noteq> - 1" and "bnd \<noteq> - 1" and "lst \<noteq> - 1"
  shows "runServer_sockets rule s0 fd bnd lst net =
    net(fd \<mapsto> s0\<lparr>so_reuseaddr := 1, so_port := Some SERVER_PORT, so_backlog := Some 10\<rparr>)"
  using assms by (simp add: runServer_sockets_def setsockopt_def Let_def)

lemma runServer_no_socket: "net (- 1) = None \<Longrightarrow> runServer_sockets rule s0 (- 1) bnd lst net = net"
  by (simp add: runServer_sockets_def setsockopt_def Let_def)

end
