(* ===== verification/GW_Common.thy ===== *)
theory GW_Common
  imports GW_Utility
begin

text \<open>
  The helpers of \<open>src/code/dependence/broker/common.h\<close>: allocation, a dump of a message, and elapsed time.
  (\<open>get_prog_name\<close> is the same function as in \<open>GW_Utility\<close>.)

  \<open>blocks\<close> maps the addresses of the allocated blocks to their contents.  The allocator is an argument: the address
  it gives, or \<open>None\<close>, and what the fresh memory holds.
\<close>

section \<open>Allocation\<close>

type_synonym blocks = "nat \<rightharpoonup> bytes"

definition xmalloc :: "nat option \<Rightarrow> bytes \<Rightarrow> nat \<Rightarrow> blocks \<Rightarrow> nat option \<times> blocks" where
  "xmalloc a junk sz m = (case a of None \<Rightarrow> (None, m) | Some p \<Rightarrow> (Some p, m(p \<mapsto> take sz junk)))"

text \<open>\<open>xzalloc\<close> clears what \<open>malloc\<close> returned without looking at it.\<close>

definition xzalloc :: "nat option \<Rightarrow> bytes \<Rightarrow> nat \<Rightarrow> blocks \<Rightarrow> (nat option \<times> blocks) res" where
  "xzalloc a junk sz m =
     (let (ptr, m1) = xmalloc a junk sz m
      in case ptr of None \<Rightarrow> Inl NullDeref | Some p \<Rightarrow> Inr (Some p, m1(p \<mapsto> replicate sz NUL)))"

text \<open>\<open>realloc\<close>: a failure returns null and leaves the old block allocated.\<close>

definition xrealloc :: "nat option \<Rightarrow> bytes \<Rightarrow> nat option \<Rightarrow> nat \<Rightarrow> blocks \<Rightarrow> (nat option \<times> blocks) res" where
  "xrealloc a junk ptr sz m =
     (case ptr of
        None \<Rightarrow> Inr (xmalloc a junk sz m)
      | Some p \<Rightarrow>
          (case m p of
             None \<Rightarrow> Inl UseAfterFree
           | Some old \<Rightarrow>
               (case a of
                  None \<Rightarrow> Inr (None, m)
                | Some q \<Rightarrow> Inr (Some q, (m(p := None))(q \<mapsto> take sz (old @ drop (length old) junk))))))"

text \<open>The macro \<open>xfree\<close> also clears the variable it is given.\<close>

definition xfree :: "nat option \<Rightarrow> blocks \<Rightarrow> (nat option \<times> blocks) res" where
  "xfree ptr m =
     (case ptr of
        None \<Rightarrow> Inr (None, m)
      | Some p \<Rightarrow> if m p = None then Inl UseAfterFree else Inr (None, m(p := None)))"

lemma xzalloc_clears:
  "xzalloc (Some p) junk sz m = Inr (Some p, m(p \<mapsto> replicate sz NUL))"
  by (simp add: xzalloc_def xmalloc_def)

lemma xzalloc_no_memory: "xzalloc None junk sz m = Inl NullDeref"
  by (simp add: xzalloc_def xmalloc_def)

text \<open>Freeing the same variable twice is harmless; freeing a copy of it is not.\<close>

lemma xfree_twice:
  assumes "m p \<noteq> None"
  shows "res_bind (xfree (Some p) m) (\<lambda>(ptr, m1). xfree ptr m1) = Inr (None, m(p := None))"
    "res_bind (xfree (Some p) m) (\<lambda>(ptr, m1). xfree (Some p) m1) = Inl UseAfterFree"
  using assms by (simp_all add: xfree_def)

lemma xrealloc_keeps:
  assumes "m p = Some old" and "length old \<le> sz" and "sz \<le> length junk"
  shows "\<exists>b m'. xrealloc (Some q) junk (Some p) sz m = Inr (Some q, m') \<and> m' q = Some b \<and> length b = sz \<and> take (length old) b = old"
  using assms by (simp add: xrealloc_def)

section \<open>Messages and time\<close>

text \<open>What \<open>print_msg\<close> writes; a negative length prints only the end of the line.\<close>

definition print_msg :: "bytes \<Rightarrow> int \<Rightarrow> bytes res" where
  "print_msg buf buf_len = res_bind (rd buf 0 (max 0 buf_len)) (\<lambda>d. Inr (d @ [CHR 0x0A]))"

text \<open>A time in seconds and microseconds, as \<open>gettimeofday\<close> gives it.\<close>

type_synonym time_diff_s = "int \<times> int"

definition get_usec :: "time_diff_s \<Rightarrow> time_diff_s" where
  "get_usec tv = tv"

text \<open>\<open>tv\<close> is the time now.  The microseconds are computed in a 32-bit \<open>int\<close>.\<close>

definition time_expire :: "time_diff_s \<Rightarrow> time_diff_s \<Rightarrow> int \<Rightarrow> int res" where
  "time_expire tv start expire_us =
     res_bind (chk32 (fst tv - fst start)) (\<lambda>sec.
     res_bind (chk32 (sec * 1000000)) (\<lambda>u.
     res_bind (chk32 (u + snd tv)) (\<lambda>v.
     res_bind (chk32 (v - snd start)) (\<lambda>diff_usec.
     res_bind (chk32 (diff_usec - expire_us)) (\<lambda>d. Inr (if 0 \<le> d then 1 else 0))))))"

definition usec :: "time_diff_s \<Rightarrow> int" where
  "usec t = fst t * 1000000 + snd t"

text \<open>
  Up to 2146 seconds the answer is whether the microseconds from \<open>start\<close> to now have reached \<open>expire_us\<close>; from 2148
  seconds on the multiplication overflows.
\<close>

lemma time_expire_right:
  assumes "0 \<le> snd tv" and "snd tv < 1000000" and "0 \<le> snd start" and "snd start < 1000000"
    and "0 \<le> fst tv - fst start" and "fst tv - fst start \<le> 2146" and "0 \<le> expire_us" and "expire_us \<le> INT_MAX - 1000000"
  shows "time_expire tv start expire_us = Inr (if expire_us \<le> usec tv - usec start then 1 else 0)"
  using assms by (simp add: time_expire_def chk32_def usec_def INT_MAX_def algebra_simps)

lemma time_expire_overflow:
  assumes "2148 \<le> fst tv - fst start" and "fst tv - fst start \<le> 2147483647"
  shows "time_expire tv start expire_us = Inl SignedOverflow"
  using assms by (simp add: time_expire_def chk32_def)

end
