(* ===== verification/GW_JsonTypes.thy ===== *)
theory GW_JsonTypes
  imports GW_JsonRoundTrip
begin

text \<open>
  What the parser of \<open>src/code/dependence/cjson/cJSON.c\<close> returns, as a type: which fields of an item
  are set for which kind of value.  The accessors, \<open>cJSON_Compare\<close> and the printer rely on it.
\<close>

section \<open>Well-typed documents\<close>

definition c_text :: "bytes option \<Rightarrow> bool" where
  "c_text s \<longleftrightarrow> s \<noteq> None \<and> no_zero s"

fun well_typed :: "'d dbl \<Rightarrow> 'd cJSON \<Rightarrow> bool" where
  "well_typed D (CJ t vs vi vd nm cs) \<longleftrightarrow>
     t \<in> {cJSON_False, cJSON_True, cJSON_NULL, cJSON_Number, cJSON_String, cJSON_Array, cJSON_Object} \<and>
     (if t = cJSON_String then c_text vs else vs = None) \<and>
     (if t = cJSON_Number then vi = saturate D vd else vi = (if t = cJSON_True then 1 else 0) \<and> vd = d_zero D) \<and>
     (t \<in> {cJSON_Array, cJSON_Object} \<or> cs = []) \<and>
     list_all (\<lambda>c. well_typed D c \<and> (if t = cJSON_Object then c_text (cj_string c) else cj_string c = None)) cs"

text \<open>A value read at nesting \<open>d\<close> under the name \<open>nm\<close>.\<close>

definition typed :: "'d dbl \<Rightarrow> bytes option \<Rightarrow> nat \<Rightarrow> 'd cJSON \<Rightarrow> bool" where
  "typed D nm d x \<longleftrightarrow> well_typed D x \<and> cj_string x = nm \<and> d + nesting x \<le> CJSON_NESTING_LIMIT"

definition member_typed :: "'d dbl \<Rightarrow> nat \<Rightarrow> 'd cJSON \<Rightarrow> bool" where
  "member_typed D d x \<longleftrightarrow> c_text (cj_string x) \<and> typed D (cj_string x) d x"

section \<open>The parser's functions\<close>

text \<open>A value parser that fills a fresh item with a well-typed value and comes back to the nesting it started at.\<close>

definition pv_typed :: "('d cJSON \<Rightarrow> parse_buffer \<Rightarrow> 'd parsed) \<Rightarrow> 'd dbl \<Rightarrow> bool" where
  "pv_typed pv D \<longleftrightarrow> (\<forall>ty nm p x p'. pb_depth p \<le> CJSON_NESTING_LIMIT \<longrightarrow>
     pv (CJ ty None 0 (d_zero D) nm []) p = Some (Inr (Some x, p')) \<longrightarrow>
     typed D nm (pb_depth p) x \<and> pb_depth p' = pb_depth p)"

lemma pv_typedD:
  assumes "pv_typed pv D" and "pb_depth p \<le> CJSON_NESTING_LIMIT"
    and "pv (CJ ty None 0 (d_zero D) nm []) p = Some (Inr (Some x, p'))"
  shows "typed D nm (pb_depth p) x" "pb_depth p' = pb_depth p"
  using assms unfolding pv_typed_def by blast+

lemma obind_Some: "obind m f = Some (Inr y) \<longleftrightarrow> (\<exists>x. m = Some (Inr x) \<and> f x = Some (Inr y))"
  by (auto simp: obind_def split: option.splits sum.splits)

lemma depth_simps [simp]: "pb_depth (advance k p) = pb_depth p" "pb_depth (step_back p) = pb_depth p"
  by (simp_all add: advance_def step_back_def)

lemma parse_string_text:
  assumes "parse_string p = Inr (Some s, p')"
  shows "c_text (Some s) \<and> pb_depth p' = pb_depth p"
proof -
  from assms obtain e k where e: "scan_string (content p) (Suc (pb_offset p)) 0 = Some (e, k)"
    by (auto simp: parse_string_def Let_def res_bind_eq_Inr split: if_splits option.splits)
  from assms obtain r where r: "unescape (content p) e (e - pb_offset p - k + 1) (Suc (pb_offset p)) [] = Inr r"
    using e by (auto simp: parse_string_def Let_def res_bind_eq_Inr split: if_splits)
  from assms e r have "s = cstr (projr r)" "pb_depth p' = pb_depth p"
    by (auto simp: parse_string_def Let_def res_bind_eq_Inr split: if_splits sum.splits)
  then show ?thesis by (auto simp: c_text_def no_zero_def cstr_def dest: set_takeWhileD)
qed

lemma parse_elements_typed:
  assumes "pv_typed pv D"
  shows "parse_elements pv D m head p = Some (Inr (Some cs, p')) \<Longrightarrow> pb_depth p = d \<Longrightarrow> d \<le> CJSON_NESTING_LIMIT \<Longrightarrow>
    list_all (typed D None d) head \<Longrightarrow> list_all (typed D None d) cs \<and> pb_depth p' = d"
proof (induction m arbitrary: head p)
  case (Suc m)
  from Suc.prems(1) obtain x p1 where
    x: "pv (cJSON_New_Item D) (buffer_skip_whitespace (advance 1 p)) = Some (Inr (Some x, p1))"
    and rest: "(let p2 = buffer_skip_whitespace p1
        in if here p2 CHR '','' then parse_elements pv D m (head @ [x]) p2 else Some (Inr (Some (head @ [x]), p2)))
        = Some (Inr (Some cs, p'))"
    by (auto simp: parse_elements.simps obind_Some split: option.splits)
  have "typed D None d x \<and> pb_depth p1 = d"
    using pv_typedD [OF assms _ x [unfolded cJSON_New_Item_def]] Suc.prems(2,3) by simp
  with Suc.prems(4) have "list_all (typed D None d) (head @ [x])" "pb_depth (buffer_skip_whitespace p1) = d" by simp_all
  with rest Suc.IH Suc.prems(3) show ?case by (auto simp: Let_def simp del: CJSON_NESTING_LIMIT_def split: if_splits)
qed (simp add: parse_elements.simps)

lemma parse_members_turn:
  assumes "parse_members pv D (Suc m) head p = Some (Inr (Some cs, p'))"
  obtains key p1 x p3 where "parse_string (buffer_skip_whitespace (advance 1 p)) = Inr (Some key, p1)"
    and "pv (CJ cJSON_String None 0 (d_zero D) (Some key) []) (buffer_skip_whitespace (advance 1 (buffer_skip_whitespace p1)))
      = Some (Inr (Some x, p3))"
    and "(let p4 = buffer_skip_whitespace p3
        in if here p4 CHR '','' then parse_members pv D m (head @ [x]) p4 else Some (Inr (Some (head @ [x]), p4)))
        = Some (Inr (Some cs, p'))"
proof -
  from assms obtain key p1 where k: "parse_string (buffer_skip_whitespace (advance 1 p)) = Inr (Some key, p1)"
    unfolding parse_members.simps(2) obind_Some by (auto simp del: One_nat_def split: option.splits)
  from assms obtain x p3 where
    "pv (CJ cJSON_String None 0 (d_zero D) (Some key) []) (buffer_skip_whitespace (advance 1 (buffer_skip_whitespace p1)))
      = Some (Inr (Some x, p3))"
    unfolding parse_members.simps(2) k
    by (auto simp: Let_def obind_Some simp del: One_nat_def split: if_splits option.splits)
  with k assms show thesis
    by (intro that) (auto simp: parse_members.simps(2) Let_def simp del: One_nat_def split: if_splits)
qed

lemma parse_members_typed:
  assumes "pv_typed pv D"
  shows "parse_members pv D m head p = Some (Inr (Some cs, p')) \<Longrightarrow> pb_depth p = d \<Longrightarrow> d \<le> CJSON_NESTING_LIMIT \<Longrightarrow>
    list_all (member_typed D d) head \<Longrightarrow> list_all (member_typed D d) cs \<and> pb_depth p' = d"
proof (induction m arbitrary: head p)
  case (Suc m)
  from Suc.prems(1) obtain key p1 x p3 where
    k: "parse_string (buffer_skip_whitespace (advance 1 p)) = Inr (Some key, p1)"
    and x: "pv (CJ cJSON_String None 0 (d_zero D) (Some key) []) (buffer_skip_whitespace (advance 1 (buffer_skip_whitespace p1)))
      = Some (Inr (Some x, p3))"
    and rest: "(let p4 = buffer_skip_whitespace p3
        in if here p4 CHR '','' then parse_members pv D m (head @ [x]) p4 else Some (Inr (Some (head @ [x]), p4)))
        = Some (Inr (Some cs, p'))"
    by (elim parse_members_turn)
  have "typed D (Some key) d x \<and> pb_depth p3 = d"
    using pv_typedD [OF assms _ x] parse_string_text [OF k] Suc.prems(2,3) by simp
  moreover from this parse_string_text [OF k] have "member_typed D d x" by (simp add: member_typed_def typed_def)
  ultimately have "list_all (member_typed D d) (head @ [x])" "pb_depth (buffer_skip_whitespace p3) = d"
    using Suc.prems(4) by simp_all
  with rest Suc.IH Suc.prems(3) show ?case by (auto simp: Let_def simp del: CJSON_NESTING_LIMIT_def split: if_splits)
qed (simp add: parse_members.simps)

text \<open>The containers.\<close>

lemma container_typed:
  assumes "t = cJSON_Array \<and> list_all (typed D None (Suc d)) cs \<or> t = cJSON_Object \<and> list_all (member_typed D (Suc d)) cs"
    and "d < CJSON_NESTING_LIMIT" and "pb_depth p = Suc d"
    and "finish t (CJ ty None 0 (d_zero D) nm []) cs p = Some (Inr (Some x, p'))"
  shows "typed D nm d x \<and> pb_depth p' = d"
proof -
  have x: "x = CJ t None 0 (d_zero D) nm cs" "pb_depth p' = d"
    using assms(3,4) by (auto simp: finish_def with_child_def with_type_def)
  have k: "\<forall>c \<in> set cs. well_typed D c \<and> Suc d + nesting c \<le> CJSON_NESTING_LIMIT \<and>
      (if t = cJSON_Object then c_text (cj_string c) else cj_string c = None)"
    using assms(1) by (auto simp: list_all_iff typed_def member_typed_def)
  define M where "M = Max (set (0 # map nesting cs))"
  have "M \<le> CJSON_NESTING_LIMIT - Suc d" unfolding M_def using k assms(2) by (intro Max.boundedI) fastforce+
  moreover have "nesting x = Suc M" using assms(1) by (auto simp: x(1) M_def)
  moreover have "well_typed D x \<and> cj_string x = nm" using k assms(1) by (auto simp: x(1) list_all_iff)
  ultimately show ?thesis using assms(2) x(2) by (simp add: typed_def)
qed

lemma parse_array_typed:
  assumes "pv_typed pv D" and "parse_array pv D (CJ ty None 0 (d_zero D) nm []) p = Some (Inr (Some x, p'))"
  shows "typed D nm (pb_depth p) x \<and> pb_depth p' = pb_depth p"
proof -
  have d: "pb_depth p < CJSON_NESTING_LIMIT" using assms(2) by (auto simp: parse_array_def split: if_splits)
  obtain cs q where "finish cJSON_Array (CJ ty None 0 (d_zero D) nm []) cs q = Some (Inr (Some x, p'))"
    "list_all (typed D None (Suc (pb_depth p))) cs" "pb_depth q = Suc (pb_depth p)"
    using assms(2) d
    by (auto simp: parse_array_def Let_def obind_Some simp del: CJSON_NESTING_LIMIT_def
        dest!: parse_elements_typed [OF assms(1), where d = "Suc (pb_depth p)"] split: if_splits option.splits)
  with container_typed [of cJSON_Array] d show ?thesis by blast
qed

lemma parse_object_typed:
  assumes "pv_typed pv D" and "parse_object pv D (CJ ty None 0 (d_zero D) nm []) p = Some (Inr (Some x, p'))"
  shows "typed D nm (pb_depth p) x \<and> pb_depth p' = pb_depth p"
proof -
  have d: "pb_depth p < CJSON_NESTING_LIMIT" using assms(2) by (auto simp: parse_object_def split: if_splits)
  obtain cs q where "finish cJSON_Object (CJ ty None 0 (d_zero D) nm []) cs q = Some (Inr (Some x, p'))"
    "list_all (member_typed D (Suc (pb_depth p))) cs" "pb_depth q = Suc (pb_depth p)"
    using assms(2) d
    by (auto simp: parse_object_def Let_def obind_Some simp del: CJSON_NESTING_LIMIT_def
        dest!: parse_members_typed [OF assms(1), where d = "Suc (pb_depth p)"] split: if_splits option.splits)
  with container_typed [of cJSON_Object] d show ?thesis by blast
qed

lemma leaf_typed: "well_typed D (CJ t vs vi vd nm []) \<Longrightarrow> t \<notin> {cJSON_Array, cJSON_Object} \<Longrightarrow> d \<le> CJSON_NESTING_LIMIT \<Longrightarrow>
    typed D nm d (CJ t vs vi vd nm [])"
  by (auto simp: typed_def)

lemma parse_value_typed: "pv_typed (parse_value n D) D"
proof (induction n)
  case 0
  show ?case by (simp add: pv_typed_def parse_value.simps)
next
  case (Suc n)
  show ?case unfolding pv_typed_def
  proof (intro allI impI)
    fix ty nm p x p'
    let ?i = "CJ ty None 0 (d_zero D) nm []"
    assume d: "pb_depth p \<le> CJSON_NESTING_LIMIT" and v: "parse_value (Suc n) D ?i p = Some (Inr (Some x, p'))"
    let ?R = "typed D nm (pb_depth p) x \<and> pb_depth p' = pb_depth p"
    have s: ?R if "res_bind (parse_string p) (\<lambda>(r, p'). Inr (map_option (\<lambda>t. CJ cJSON_String (Some t) 0 (d_zero D) nm []) r, p'))
       = Inr (Some x, p')"
      using that parse_string_text [of p _ p'] d by (auto simp: res_bind_eq_Inr simp del: CJSON_NESTING_LIMIT_def intro!: leaf_typed)
    have m: ?R if "parse_number D ?i p = (Some x, p')"
      using that d by (auto simp: parse_number_def Let_def simp del: CJSON_NESTING_LIMIT_def intro!: leaf_typed split: prod.splits if_splits)
    show ?R using v d s m parse_array_typed [OF Suc.IH, of ty nm p x p'] parse_object_typed [OF Suc.IH, of ty nm p x p']
      by (auto simp: parse_value.simps with_type_def simp del: CJSON_NESTING_LIMIT_def intro!: leaf_typed split: if_splits)
  qed
qed

lemma cJSON_ParseWithOpts_typed:
  assumes "cJSON_ParseWithOpts D t req = Some (Inr (Some x, pos))"
  shows "typed D None 0 x"
proof -
  obtain v where t: "t = Some v" using assms by (cases t) (simp_all add: cJSON_ParseWithOpts_def)
  let ?b = "\<lparr>content = v @ [NUL], pb_offset = 0, pb_depth = 0\<rparr>"
  obtain b where b: "skip_utf8_bom ?b = Some b" "pb_depth b = 0"
    by (rule that [of "the (skip_utf8_bom ?b)"]) (auto simp: skip_utf8_bom_def)
  let ?p = "buffer_skip_whitespace b"
  from assms b obtain p' where v: "parse_value (Suc CJSON_NESTING_LIMIT) D (cJSON_New_Item D) ?p = Some (Inr (Some x, p'))"
    by (auto simp: t cJSON_ParseWithOpts_def Let_def obind_Some simp del: CJSON_NESTING_LIMIT_def split: option.splits if_splits)
  have p: "pb_depth ?p = 0" using b(2) by simp
  show ?thesis using pv_typedD [OF parse_value_typed _ v [unfolded cJSON_New_Item_def]] p by simp
qed

text \<open>What is asked of the number formats for a document to have a text.\<close>

definition numbers_print :: "'d dbl \<Rightarrow> bool" where
  "numbers_print D \<longleftrightarrow> (\<forall>d. length (number_text D d) < 26 \<and> NUL \<notin> set (number_text D d))"

lemma well_typed_printable:
  assumes "numbers_print D"
  shows "well_typed D x \<Longrightarrow> no_zero (cj_string x) \<Longrightarrow> printable D x"
proof (induction x)
  case (CJ t vs vi vd nm cs)
  have "printable D c" if "c \<in> set cs" for c
    using CJ.prems(1) that
    by (intro CJ.IH) (auto simp: list_all_iff c_text_def no_zero_def split: if_splits)
  then have cs: "list_all (printable D) cs" by (simp add: list_all_iff)
  have t: "t AND 255 = t" if "t \<in> {1, 2, 4, 8, 16, 32, 64}" using that by auto
  with CJ.prems cs assms show ?case
    by (auto simp: numbers_print_def c_text_def no_zero_def split: if_splits)
qed

section \<open>Property\<close>

text \<open>
  Property C11: A parsed document is well typed: each item has exactly the fields of its type set (a string its
  text, a number its value and the value clamped to \<open>int\<close>, a container its children, members a
  name and elements none), texts and names are C strings, and the nesting stays within the limit.  So it can be printed again:
  \<open>print\<close> writes inside its block and gives the text of the document.
\<close>
theorem parse_well_typed:
  assumes "cJSON_ParseWithOpts D t req = Some (Inr (Some x, pos))"
  shows "well_typed D x \<and> cj_string x = None \<and> nesting x \<le> CJSON_NESTING_LIMIT \<and>
    (numbers_print D \<longrightarrow> (\<exists>r. print H D (Some x) fmt = Inr r \<and> (\<forall>c. r = Some c \<longrightarrow> c = map Some (render D fmt 0 x @ [NUL]))))"
proof -
  note x = cJSON_ParseWithOpts_typed [OF assms, unfolded typed_def]
  have "printable D x" if "numbers_print D"
    using well_typed_printable [OF that] x by (simp add: no_zero_def)
  with print_text_ok x show ?thesis by (simp del: CJSON_NESTING_LIMIT_def) blast
qed

text \<open>Numbers of one digit.\<close>

definition short_dbl :: "int dbl" where
  "short_dbl = digit_dbl\<lparr>d_fmt15 := (\<lambda>_. ''3''), d_fmt17 := (\<lambda>_. ''3'')\<rparr>"

lemma short_dbl_prints: "numbers_print short_dbl" "number_text short_dbl 3 = ''3''"
  by (auto simp: numbers_print_def number_text_def short_dbl_def digit_dbl_def int_dbl_def)

lemma ex_json_short: "reads_back short_dbl ex_json"
proof -
  note d = ex_json_def named_def jstr_def cJSON_CreateObject_def with_child_def with_type_def cJSON_New_Item_def with_string_def
  have "number_back short_dbl 3"
    using short_dbl_prints(2) by (simp add: number_back_def short_dbl_def digit_dbl_def number_char_def)
  then show ?thesis by (simp add: d no_zero_def)
qed

theorem parse_well_typed_witness:
  "\<exists>x r. cJSON_ParseWithOpts short_dbl (Some (render short_dbl True 0 ex_json)) True =
      Some (Inr (Some x, Some (length (render short_dbl True 0 ex_json)))) \<and>
    well_typed short_dbl x \<and> nesting x \<le> CJSON_NESTING_LIMIT \<and> print libc_hooks short_dbl (Some x) False = Inr r"
proof -
  let ?x = "canon short_dbl None ex_json"
  note p = parse_rendered [OF ex_json_short ex_json_reads_back(2), of True True]
  from parse_well_typed [OF p, of libc_hooks False] short_dbl_prints(1) obtain r where
    "well_typed short_dbl ?x" "nesting ?x \<le> CJSON_NESTING_LIMIT" "print libc_hooks short_dbl (Some ?x) False = Inr r" by blast
  with p show ?thesis by blast
qed

end
