(* ===== verification/GW_JsonHeap.thy ===== *)
theory GW_JsonHeap
  imports GW_Json
begin

text \<open>
  \<open>src/code/dependence/cjson/cJSON.c\<close>, the tree in memory: items are nodes of a store, linked by \<open>next\<close>,
  \<open>prev\<close> and \<open>child\<close>, and own the blocks of their texts and names.  The pointer code of appending and of
  \<open>cJSON_Delete\<close> is related to the values of \<open>GW_Json\<close>.
\<close>

unbundle bit_operations_syntax

section \<open>The store\<close>

text \<open>
  \<open>jn\<close> has the nodes and \<open>jt\<close> the blocks of text that are allocated; \<open>jl\<close> are the program's string literals, used
  as constant keys.
\<close>

record 'd jnode =
  jn_next :: "nat option"
  jn_prev :: "nat option"
  jn_child :: "nat option"
  jn_type :: int
  jn_valuestring :: "nat option"
  jn_valueint :: int
  jn_valuedouble :: 'd
  jn_string :: "nat option"

record 'd jheap =
  jn :: "nat \<rightharpoonup> 'd jnode"
  jt :: "nat \<rightharpoonup> bytes"
  jl :: "nat \<rightharpoonup> bytes"

definition node :: "'d jheap \<Rightarrow> nat \<Rightarrow> 'd jnode res" where
  "node h a = (case jn h a of None \<Rightarrow> Inl UseAfterFree | Some nd \<Rightarrow> Inr nd)"

definition free_text :: "nat option \<Rightarrow> 'd jheap \<Rightarrow> 'd jheap res" where
  "free_text p h =
     (case p of None \<Rightarrow> Inr h
      | Some x \<Rightarrow> (if jt h x = None then Inl UseAfterFree else Inr (h\<lparr>jt := (jt h)(x := None)\<rparr>)))"

section \<open>The pointer code\<close>

text \<open>The tail of a turn of \<open>cJSON_Delete\<close>, behind the children.\<close>

definition delete_item :: "nat \<Rightarrow> 'd jheap \<Rightarrow> 'd jheap res" where
  "delete_item item h =
     res_bind (node h item) (\<lambda>nd.
     res_bind (if jn_type nd AND cJSON_IsReference = 0 then free_text (jn_valuestring nd) h else Inr h) (\<lambda>h1.
     res_bind (if jn_type nd AND cJSON_StringIsConst = 0 then free_text (jn_string nd) h1 else Inr h1) (\<lambda>h2.
     Inr (h2\<lparr>jn := (jn h2)(item := None)\<rparr>))))"

partial_function (option) heap_Delete :: "nat option \<Rightarrow> 'd jheap \<Rightarrow> 'd jheap res option" where
  "heap_Delete p h =
     (case p of None \<Rightarrow> Some (Inr h)
      | Some item \<Rightarrow>
          (case node h item of
             Inl e \<Rightarrow> Some (Inl e)
           | Inr nd \<Rightarrow>
               Option.bind (if jn_type nd AND cJSON_IsReference = 0 \<and> jn_child nd \<noteq> None then heap_Delete (jn_child nd) h
                            else Some (Inr h)) (\<lambda>r.
                 case r of
                   Inl e \<Rightarrow> Some (Inl e)
                 | Inr h1 \<Rightarrow>
                     (case delete_item item h1 of
                        Inl e \<Rightarrow> Some (Inl e)
                      | Inr h2 \<Rightarrow> heap_Delete (jn_next nd) h2))))"

definition suffix_object :: "nat \<Rightarrow> nat \<Rightarrow> 'd jheap \<Rightarrow> 'd jheap res" where
  "suffix_object prev item h =
     res_bind (node h prev) (\<lambda>p.
     let h1 = h\<lparr>jn := (jn h)(prev \<mapsto> p\<lparr>jn_next := Some item\<rparr>)\<rparr>
     in res_bind (node h1 item) (\<lambda>i. Inr (h1\<lparr>jn := (jn h1)(item \<mapsto> i\<lparr>jn_prev := Some prev\<rparr>)\<rparr>)))"

partial_function (option) last_child :: "nat \<Rightarrow> 'd jheap \<Rightarrow> nat res option" where
  "last_child child h =
     (case node h child of
        Inl e \<Rightarrow> Some (Inl e)
      | Inr nd \<Rightarrow> (case jn_next nd of None \<Rightarrow> Some (Inr child) | Some n \<Rightarrow> last_child n h))"

definition heap_add_item :: "nat option \<Rightarrow> nat option \<Rightarrow> 'd jheap \<Rightarrow> (bool \<times> 'd jheap) res option" where
  "heap_add_item array item h =
     (case (array, item) of
        (Some a, Some i) \<Rightarrow>
          (case node h a of
             Inl e \<Rightarrow> Some (Inl e)
           | Inr nd \<Rightarrow>
               (case jn_child nd of
                  None \<Rightarrow> Some (Inr (True, h\<lparr>jn := (jn h)(a \<mapsto> nd\<lparr>jn_child := Some i\<rparr>)\<rparr>))
                | Some c \<Rightarrow>
                    map_option (\<lambda>r. res_bind r (\<lambda>l. res_bind (suffix_object l i h) (\<lambda>h'. Inr (True, h')))) (last_child c h)))
      | _ \<Rightarrow> Some (Inr (False, h)))"

section \<open>The values in the store\<close>

text \<open>
  \<open>text_at h own p s T\<close>: the pointer \<open>p\<close> stands for the text \<open>s\<close> in the block \<open>T\<close>, or for a literal.  \<open>chain h prev p xs N T\<close>: from
  \<open>p\<close> on there are the items \<open>xs\<close>, made of the nodes \<open>N\<close> and the blocks \<open>T\<close>, each used once.  What a reference
  points to belongs to another tree, and its value is left open.
\<close>

definition text_at :: "'d jheap \<Rightarrow> bool \<Rightarrow> nat option \<Rightarrow> bytes option \<Rightarrow> nat set \<Rightarrow> bool" where
  "text_at h own p s T \<longleftrightarrow>
     (case p of None \<Rightarrow> s = None \<and> T = {}
      | Some x \<Rightarrow> s \<noteq> None \<and> (if own then jt h x = s \<and> T = {x} else jl h x = s \<and> T = {}))"

inductive chain :: "'d jheap \<Rightarrow> nat option \<Rightarrow> nat option \<Rightarrow> 'd cJSON list \<Rightarrow> nat set \<Rightarrow> nat set \<Rightarrow> bool" for h :: "'d jheap" where
  Nil: "chain h prev None [] {} {}"
| Item: "jn h a = Some nd \<Longrightarrow> jn_prev nd = prev \<Longrightarrow> jn_type nd AND cJSON_IsReference = 0 \<Longrightarrow>
    text_at h True (jn_valuestring nd) vs T1 \<Longrightarrow> text_at h (jn_type nd AND cJSON_StringIsConst = 0) (jn_string nd) nm T2 \<Longrightarrow>
    chain h None (jn_child nd) cs N1 T3 \<Longrightarrow> chain h (Some a) (jn_next nd) xs N2 T4 \<Longrightarrow>
    a \<notin> N1 \<union> N2 \<Longrightarrow> N1 \<inter> N2 = {} \<Longrightarrow> T1 \<inter> T2 = {} \<Longrightarrow> (T1 \<union> T2) \<inter> (T3 \<union> T4) = {} \<Longrightarrow> T3 \<inter> T4 = {} \<Longrightarrow>
    chain h prev (Some a) (CJ (jn_type nd) vs (jn_valueint nd) (jn_valuedouble nd) nm cs # xs)
      (insert a (N1 \<union> N2)) (T1 \<union> T2 \<union> T3 \<union> T4)"
| Reference: "jn h a = Some nd \<Longrightarrow> jn_prev nd = prev \<Longrightarrow> jn_type nd AND cJSON_IsReference \<noteq> 0 \<Longrightarrow>
    text_at h (jn_type nd AND cJSON_StringIsConst = 0) (jn_string nd) nm T2 \<Longrightarrow>
    chain h (Some a) (jn_next nd) xs N2 T4 \<Longrightarrow> a \<notin> N2 \<Longrightarrow> T2 \<inter> T4 = {} \<Longrightarrow>
    chain h prev (Some a) (CJ (jn_type nd) vs (jn_valueint nd) (jn_valuedouble nd) nm cs # xs) (insert a N2) (T2 \<union> T4)"

inductive_cases chain_None: "chain h prev None xs N T"
inductive_cases chain_Some: "chain h prev (Some a) xs N T"

lemma chain_None_iff [simp]: "chain h prev None xs N T \<longleftrightarrow> xs = [] \<and> N = {} \<and> T = {}"
  by (auto elim: chain_None intro: chain.Nil)

text \<open>Two stores that agree on a footprint.\<close>

definition agree :: "nat set \<Rightarrow> nat set \<Rightarrow> 'd jheap \<Rightarrow> 'd jheap \<Rightarrow> bool" where
  "agree N T h h' \<longleftrightarrow> (\<forall>a \<in> N. jn h' a = jn h a) \<and> (\<forall>x \<in> T. jt h' x = jt h x) \<and> jl h' = jl h"

lemma agree_Un [simp]: "agree (N \<union> N') (T \<union> T') h h' \<longleftrightarrow> agree N T h h' \<and> agree N' T' h h'"
  by (auto simp: agree_def)

lemma agree_insert [simp]: "agree (insert a N) T h h' \<longleftrightarrow> jn h' a = jn h a \<and> agree N T h h'"
  by (auto simp: agree_def)

lemma text_at_agree: "text_at h own p s T \<Longrightarrow> (\<forall>x \<in> T. jt h' x = jt h x) \<Longrightarrow> jl h' = jl h \<Longrightarrow> text_at h' own p s T"
  by (auto simp: text_at_def split: option.splits if_splits)

text \<open>A chain does not depend on what is outside its footprint.\<close>

lemma chain_frame: "chain h prev p xs N T \<Longrightarrow> agree N T h h' \<Longrightarrow> chain h' prev p xs N T"
proof (induction rule: chain.induct)
  case (Item a nd prev vs T1 nm T2 cs N1 T3 xs N2 T4)
  from Item.prems have ag: "agree N1 T3 h h'" "agree N2 T4 h h'" "jn h' a = Some nd"
    "\<forall>x \<in> T1 \<union> T2. jt h' x = jt h x" "jl h' = jl h" using Item.hyps(1) by (auto simp: agree_def)
  show ?case
    by (rule chain.Item [OF ag(3) Item.hyps(2,3) text_at_agree [OF Item.hyps(4)] text_at_agree [OF Item.hyps(5)]
        Item.IH(1) [OF ag(1)] Item.IH(2) [OF ag(2)] Item.hyps(8-12)]) (use ag in auto)
next
  case (Reference a nd prev nm T2 xs N2 T4 vs cs)
  from Reference.prems have ag: "agree N2 T4 h h'" "jn h' a = Some nd"
    "\<forall>x \<in> T2. jt h' x = jt h x" "jl h' = jl h" using Reference.hyps(1) by (auto simp: agree_def)
  show ?case
    by (rule chain.Reference [OF ag(2) Reference.hyps(2,3) text_at_agree [OF Reference.hyps(4)]
        Reference.IH [OF ag(1)] Reference.hyps(6,7)]) (use ag in auto)
qed simp

section \<open>Deleting\<close>

definition without :: "nat set \<Rightarrow> nat set \<Rightarrow> 'd jheap \<Rightarrow> 'd jheap" where
  "without N T h = h\<lparr>jn := jn h |` (- N), jt := jt h |` (- T)\<rparr>"

lemma restrict_UNIV [simp]: "m |` UNIV = m"
  by (rule ext) simp

lemma without_simps [simp]:
  "without {} {} h = h" "without N' T' (without N T h) = without (N \<union> N') (T \<union> T') h"
  "jn (without N T h) = jn h |` (- N)" "jt (without N T h) = jt h |` (- T)" "jl (without N T h) = jl h"
  by (simp_all add: without_def Int_commute)

lemma agree_without: "agree N T h h' \<Longrightarrow> N \<inter> N' = {} \<Longrightarrow> T \<inter> T' = {} \<Longrightarrow> agree N T h (without N' T' h')"
  by (auto simp: agree_def restrict_map_def)

lemma free_text_at:
  assumes "text_at h own p s T" and "own" and "\<forall>x \<in> T. jt h' x = jt h x"
  shows "free_text p h' = Inr (without {} T h')"
  using assms by (auto simp: text_at_def free_text_def without_def restrict_complement_singleton_eq split: option.splits)

lemma delete_item_at:
  assumes "jn h' a = Some nd" and "text_at h True vp vs T1" and "text_at h (jn_type nd AND cJSON_StringIsConst = 0) (jn_string nd) nm T2"
    and "jn_type nd AND cJSON_IsReference = 0 \<longrightarrow> vp = jn_valuestring nd" and "jn_type nd AND cJSON_IsReference \<noteq> 0 \<longrightarrow> T1 = {}"
    and "\<forall>x \<in> T1 \<union> T2. jt h' x = jt h x" and "T1 \<inter> T2 = {}"
  shows "delete_item a h' = Inr (without {a} (T1 \<union> T2) h')"
proof -
  let ?h1 = "without {} T1 h'"
  have 1: "(if jn_type nd AND cJSON_IsReference = 0 then free_text (jn_valuestring nd) h' else Inr h') = Inr ?h1"
    using free_text_at [OF assms(2), of h'] assms(4-6) by auto
  have t2: "jn_type nd AND cJSON_StringIsConst \<noteq> 0 \<Longrightarrow> T2 = {}" using assms(3) by (auto simp: text_at_def split: option.splits)
  have "\<forall>x \<in> T2. jt ?h1 x = jt h x" using assms(6,7) by (auto simp: restrict_map_def)
  then have 2: "(if jn_type nd AND cJSON_StringIsConst = 0 then free_text (jn_string nd) ?h1 else Inr ?h1) = Inr (without {} (T1 \<union> T2) h')"
    using free_text_at [OF assms(3), of ?h1] t2 by auto
  from 1 2 assms(1) have "delete_item a h' = Inr ((without {} (T1 \<union> T2) h')\<lparr>jn := (jn h')(a := None)\<rparr>)"
    by (simp add: delete_item_def node_def)
  then show ?thesis by (simp add: without_def restrict_complement_singleton_eq)
qed

lemma heap_Delete_chain:
  "chain h prev p xs N T \<Longrightarrow> agree N T h h' \<Longrightarrow> heap_Delete p h' = Some (Inr (without N T h'))"
proof (induction arbitrary: h' rule: chain.induct)
  case (Nil prev)
  show ?case by (simp add: heap_Delete.simps)
next
  case (Item a nd prev vs T1 nm T2 cs N1 T3 xs N2 T4)
  let ?h1 = "without N1 T3 h'"
  let ?h2 = "without {a} (T1 \<union> T2) ?h1"
  have ag: "agree N1 T3 h h'" "agree N2 T4 h h'" "jn h' a = Some nd" "\<forall>x \<in> T1 \<union> T2. jt h' x = jt h x"
    using Item.prems Item.hyps(1) by (auto simp: agree_def)
  have kids: "(if jn_type nd AND cJSON_IsReference = 0 \<and> jn_child nd \<noteq> None then heap_Delete (jn_child nd) h' else Some (Inr h'))
      = Some (Inr ?h1)"
    using Item.IH(1) [OF ag(1)] Item.hyps(3,6) by (cases "jn_child nd") auto
  have "delete_item a ?h1 = Inr ?h2"
    by (rule delete_item_at [OF _ Item.hyps(4,5)])
      (use ag(3,4) Item.hyps in \<open>auto simp: restrict_map_def disjoint_iff\<close>)
  moreover have "heap_Delete (jn_next nd) ?h2 = Some (Inr (without N2 T4 ?h2))"
    by (rule Item.IH(2), intro agree_without ag(2)) (use Item.hyps in auto)
  ultimately show ?case
    using kids ag(3) by (subst heap_Delete.simps) (simp add: node_def Un_ac)
next
  case (Reference a nd prev nm T2 xs N2 T4 vs cs)
  let ?h2 = "without {a} T2 h'"
  have ag: "agree N2 T4 h h'" "jn h' a = Some nd" "\<forall>x \<in> T2. jt h' x = jt h x"
    using Reference.prems Reference.hyps(1) by (auto simp: agree_def)
  have "text_at h True None None {}" by (simp add: text_at_def)
  from delete_item_at [OF ag(2) this Reference.hyps(4)] Reference.hyps(3) ag(3) have "delete_item a h' = Inr ?h2" by simp
  moreover have "heap_Delete (jn_next nd) ?h2 = Some (Inr (without N2 T4 ?h2))"
    by (rule Reference.IH, intro agree_without ag(1)) (use Reference.hyps in auto)
  ultimately show ?case
    using ag(2) Reference.hyps(3) by (subst heap_Delete.simps) (simp add: node_def)
qed

section \<open>Appending\<close>

text \<open>The first item of a chain with the footprint of its own, and the rest.\<close>

definition single :: "'d jheap \<Rightarrow> nat option \<Rightarrow> nat \<Rightarrow> 'd cJSON \<Rightarrow> nat option \<Rightarrow> nat set \<Rightarrow> nat set \<Rightarrow> bool" where
  "single h prev a x nx N T \<longleftrightarrow>
     (\<exists>nd vs nm cs T2. jn h a = Some nd \<and> jn_prev nd = prev \<and> jn_next nd = nx \<and>
        x = CJ (jn_type nd) vs (jn_valueint nd) (jn_valuedouble nd) nm cs \<and>
        text_at h (jn_type nd AND cJSON_StringIsConst = 0) (jn_string nd) nm T2 \<and>
        (if jn_type nd AND cJSON_IsReference = 0
         then \<exists>T1 N1 T3. text_at h True (jn_valuestring nd) vs T1 \<and> chain h None (jn_child nd) cs N1 T3 \<and>
           a \<notin> N1 \<and> N = insert a N1 \<and> T = T1 \<union> T2 \<union> T3 \<and> T1 \<inter> T2 = {} \<and> (T1 \<union> T2) \<inter> T3 = {}
         else N = {a} \<and> T = T2))"

lemma chain_single:
  assumes "single h prev a x nx N1 T1" and "chain h (Some a) nx xs N2 T2" and "N1 \<inter> N2 = {}" and "T1 \<inter> T2 = {}"
  shows "chain h prev (Some a) (x # xs) (N1 \<union> N2) (T1 \<union> T2)"
proof -
  from assms(1) obtain nd vs nm cs S2 where nd: "jn h a = Some nd" "jn_prev nd = prev" "jn_next nd = nx"
    "x = CJ (jn_type nd) vs (jn_valueint nd) (jn_valuedouble nd) nm cs"
    "text_at h (jn_type nd AND cJSON_StringIsConst = 0) (jn_string nd) nm S2"
    and own: "if jn_type nd AND cJSON_IsReference = 0
         then \<exists>S1 M S3. text_at h True (jn_valuestring nd) vs S1 \<and> chain h None (jn_child nd) cs M S3 \<and>
           a \<notin> M \<and> N1 = insert a M \<and> T1 = S1 \<union> S2 \<union> S3 \<and> S1 \<inter> S2 = {} \<and> (S1 \<union> S2) \<inter> S3 = {}
         else N1 = {a} \<and> T1 = S2" unfolding single_def by blast
  show ?thesis
  proof (cases "jn_type nd AND cJSON_IsReference = 0")
    case True
    with own obtain S1 M S3 where o: "text_at h True (jn_valuestring nd) vs S1" "chain h None (jn_child nd) cs M S3"
      "a \<notin> M" "N1 = insert a M" "T1 = S1 \<union> S2 \<union> S3" "S1 \<inter> S2 = {}" "(S1 \<union> S2) \<inter> S3 = {}" by auto
    have "chain h prev (Some a) (x # xs) (insert a (M \<union> N2)) (S1 \<union> S2 \<union> S3 \<union> T2)"
      unfolding nd(4)
      by (rule chain.Item [OF nd(1,2) True o(1) nd(5) o(2) assms(2) [folded nd(3)]]) (use o assms(3,4) in auto)
    then show ?thesis using o(4,5) by simp
  next
    case False
    with own have o: "N1 = {a}" "T1 = S2" by auto
    have "chain h prev (Some a) (x # xs) (insert a N2) (S2 \<union> T2)"
      unfolding nd(4)
      by (rule chain.Reference [OF nd(1,2) False nd(5) assms(2) [folded nd(3)]]) (use o assms(3,4) in auto)
    then show ?thesis using o by simp
  qed
qed

lemma chain_first:
  assumes "chain h prev (Some a) ys N T"
  obtains x xs nx N1 T1 N2 T2 where "ys = x # xs" "single h prev a x nx N1 T1" "chain h (Some a) nx xs N2 T2"
    "N1 \<inter> N2 = {}" "T1 \<inter> T2 = {}" "N = N1 \<union> N2" "T = T1 \<union> T2"
proof -
  have own: "single h prev a (CJ (jn_type nd) vs (jn_valueint nd) (jn_valuedouble nd) nm cs) (jn_next nd) N1 S1"
    if "jn h a = Some nd" "jn_prev nd = prev" "text_at h (jn_type nd AND cJSON_StringIsConst = 0) (jn_string nd) nm T2"
      and "if jn_type nd AND cJSON_IsReference = 0
         then \<exists>T1 M T3. text_at h True (jn_valuestring nd) vs T1 \<and> chain h None (jn_child nd) cs M T3 \<and>
           a \<notin> M \<and> N1 = insert a M \<and> S1 = T1 \<union> T2 \<union> T3 \<and> T1 \<inter> T2 = {} \<and> (T1 \<union> T2) \<inter> T3 = {}
         else N1 = {a} \<and> S1 = T2" for nd vs nm cs T2 N1 S1
    unfolding single_def using that
    by (intro exI [of _ nd] exI [of _ vs] exI [of _ nm] exI [of _ cs] exI [of _ T2]) simp
  from assms show thesis
  proof (rule chain_Some)
    fix nd vs T1 nm T2 cs N1 T3 xs N2 T4
    assume c: "ys = CJ (jn_type nd) vs (jn_valueint nd) (jn_valuedouble nd) nm cs # xs" "N = insert a (N1 \<union> N2)"
      "T = T1 \<union> T2 \<union> T3 \<union> T4" "jn h a = Some nd" "jn_prev nd = prev" "jn_type nd AND 256 = 0"
      "text_at h True (jn_valuestring nd) vs T1" "text_at h (jn_type nd AND 512 = 0) (jn_string nd) nm T2"
      "chain h None (jn_child nd) cs N1 T3" "chain h (Some a) (jn_next nd) xs N2 T4" "N1 \<inter> N2 = {}"
      "T1 \<inter> T2 = {}" "(T1 \<union> T2) \<inter> (T3 \<union> T4) = {}" "T3 \<inter> T4 = {}" "a \<notin> N1" "a \<notin> N2"
    have o: "\<exists>T1' M T3'. text_at h True (jn_valuestring nd) vs T1' \<and> chain h None (jn_child nd) cs M T3' \<and>
        a \<notin> M \<and> insert a N1 = insert a M \<and> T1 \<union> T2 \<union> T3 = T1' \<union> T2 \<union> T3' \<and> T1' \<inter> T2 = {} \<and> (T1' \<union> T2) \<inter> T3' = {}"
      by (intro exI [of _ T1] exI [of _ N1] exI [of _ T3]) (use c in auto)
    have "single h prev a (CJ (jn_type nd) vs (jn_valueint nd) (jn_valuedouble nd) nm cs) (jn_next nd) (insert a N1) (T1 \<union> T2 \<union> T3)"
      by (rule own [where ?T2.0 = T2]) (use c(4-6,8) o in simp_all)
    then show thesis by (rule that [OF c(1) _ c(10)]) (use c in auto)
  next
    fix nd nm T2 xs N2 T4 vs cs
    assume c: "ys = CJ (jn_type nd) vs (jn_valueint nd) (jn_valuedouble nd) nm cs # xs" "N = insert a N2"
      "T = T2 \<union> T4" "jn h a = Some nd" "jn_prev nd = prev" "jn_type nd AND 256 \<noteq> 0"
      "text_at h (jn_type nd AND 512 = 0) (jn_string nd) nm T2"
      "chain h (Some a) (jn_next nd) xs N2 T4" "a \<notin> N2" "T2 \<inter> T4 = {}"
    show thesis
      by (rule that [OF c(1) own [where nd = nd and ?T2.0 = T2 and nm = nm and vs = vs and cs = cs and ?N1.0 = "{a}" and ?S1.0 = T2] c(8)])
        (use c in simp_all)
  qed
qed

text \<open>The own part does not depend on the rest, nor on where \<open>next\<close> leads.\<close>

lemma single_moved:
  assumes "single h prev a x nx N T" and "agree (N - {a}) T h h'" and "jn h a = Some nd" and "jn h' a = Some (nd\<lparr>jn_next := nx', jn_prev := prev'\<rparr>)"
  shows "single h' prev' a x nx' N T"
proof -
  from assms(1,3) obtain vs nm cs S2 where nd: "jn_prev nd = prev"
    "x = CJ (jn_type nd) vs (jn_valueint nd) (jn_valuedouble nd) nm cs"
    "text_at h (jn_type nd AND cJSON_StringIsConst = 0) (jn_string nd) nm S2"
    and own: "if jn_type nd AND cJSON_IsReference = 0
         then \<exists>S1 M S3. text_at h True (jn_valuestring nd) vs S1 \<and> chain h None (jn_child nd) cs M S3 \<and>
           a \<notin> M \<and> N = insert a M \<and> T = S1 \<union> S2 \<union> S3 \<and> S1 \<inter> S2 = {} \<and> (S1 \<union> S2) \<inter> S3 = {}
         else N = {a} \<and> T = S2" unfolding single_def by auto
  have l: "jl h' = jl h" "\<forall>x \<in> T. jt h' x = jt h x" using assms(2) by (auto simp: agree_def)
  have t2: "text_at h' (jn_type nd AND cJSON_StringIsConst = 0) (jn_string nd) nm S2"
    by (rule text_at_agree [OF nd(3) _ l(1)]) (use own l(2) in \<open>auto split: if_splits\<close>)
  show ?thesis
  proof (cases "jn_type nd AND cJSON_IsReference = 0")
    case True
    with own obtain S1 M S3 where o: "text_at h True (jn_valuestring nd) vs S1" "chain h None (jn_child nd) cs M S3"
      "a \<notin> M" "N = insert a M" "T = S1 \<union> S2 \<union> S3" "S1 \<inter> S2 = {}" "(S1 \<union> S2) \<inter> S3 = {}" by auto
    have "text_at h' True (jn_valuestring nd) vs S1" by (rule text_at_agree [OF o(1) _ l(1)]) (use o(5) l(2) in auto)
    moreover have "chain h' None (jn_child nd) cs M S3"
      by (rule chain_frame [OF o(2)]) (use assms(2) o in \<open>auto simp: agree_def\<close>)
    ultimately show ?thesis unfolding single_def
      using assms(4) nd(1,2) t2 o(3-7) True
      by (intro exI [of _ "nd\<lparr>jn_next := nx', jn_prev := prev'\<rparr>"] exI [of _ vs] exI [of _ nm] exI [of _ cs] exI [of _ S2]) auto
  next
    case False
    with own assms(4) nd(1,2) t2 show ?thesis unfolding single_def
      by (intro exI [of _ "nd\<lparr>jn_next := nx', jn_prev := prev'\<rparr>"] exI [of _ vs] exI [of _ nm] exI [of _ cs] exI [of _ S2]) auto
  qed
qed

lemma single_frame:
  assumes "single h prev a x nx N T" and "agree (N - {a}) T h h'" and "jn h a = Some nd" and "jn h' a = Some (nd\<lparr>jn_next := nx'\<rparr>)"
  shows "single h' prev a x nx' N T"
proof -
  have "nd\<lparr>jn_next := nx'\<rparr> = nd\<lparr>jn_next := nx', jn_prev := prev\<rparr>" using assms(1,3) by (auto simp: single_def)
  with assms show ?thesis by (intro single_moved [OF assms(1-3)]) simp
qed

lemma single_node: "single h prev a x nx N T \<Longrightarrow> a \<in> N \<and> (\<exists>nd. jn h a = Some nd \<and> jn_next nd = nx)"
  by (auto simp: single_def split: if_splits)

text \<open>
  The last node of a chain, and what the chain becomes when that node's \<open>next\<close> leads on to a further chain.
\<close>

definition linked :: "'d jheap \<Rightarrow> nat \<Rightarrow> nat \<Rightarrow> nat set \<Rightarrow> nat set \<Rightarrow> 'd jheap \<Rightarrow> bool" where
  "linked h l i N T h' \<longleftrightarrow> agree (N - {l}) T h h' \<and> (\<exists>nd. jn h l = Some nd \<and> jn h' l = Some (nd\<lparr>jn_next := Some i\<rparr>))"

lemma linked_part: "linked h l i (N \<union> M) (T \<union> S) h' \<Longrightarrow> linked h l i M S h'"
  by (auto simp: linked_def agree_def)

lemma chain_append:
  "chain h prev (Some c) xs N T \<Longrightarrow>
     \<exists>l. last_child c h = Some (Inr l) \<and> l \<in> N \<and>
       (\<forall>h'. linked h l i N T h' \<longrightarrow> chain h' (Some l) (Some i) ys N' T' \<longrightarrow> N \<inter> N' = {} \<longrightarrow> T \<inter> T' = {} \<longrightarrow>
          chain h' prev (Some c) (xs @ ys) (N \<union> N') (T \<union> T'))"
proof (induction xs arbitrary: prev c N T)
  case Nil
  then show ?case by (auto elim: chain_first)
next
  case (Cons x xs)
  from Cons.prems obtain nx N1 T1 N2 T2 where f: "single h prev c x nx N1 T1" "chain h (Some c) nx xs N2 T2"
    "N1 \<inter> N2 = {}" "T1 \<inter> T2 = {}" "N = N1 \<union> N2" "T = T1 \<union> T2" by (auto elim: chain_first)
  from single_node [OF f(1)] obtain nd where nd: "c \<in> N1" "jn h c = Some nd" "jn_next nd = nx" by blast
  show ?case
  proof (cases nx)
    case None
    then have e: "xs = []" "N2 = {}" "T2 = {}" using f(2) by simp_all
    have "chain h' prev (Some c) (x # ys) (N1 \<union> N') (T1 \<union> T')"
      if h': "linked h c i N1 T1 h'" "chain h' (Some c) (Some i) ys N' T'" "N1 \<inter> N' = {}" "T1 \<inter> T' = {}" for h'
    proof (rule chain_single [OF _ h'(2-4)])
      show "single h' prev c x (Some i) N1 T1"
        by (rule single_frame [OF f(1) _ nd(2)]) (use h'(1) nd(2) in \<open>auto simp: linked_def\<close>)
    qed
    then show ?thesis using nd None e f(5,6) by (intro exI [of _ c]) (simp add: last_child.simps node_def)
  next
    case (Some n)
    from Cons.IH [OF f(2) [unfolded Some]] obtain l where l: "last_child n h = Some (Inr l)" "l \<in> N2"
      "\<And>h'. linked h l i N2 T2 h' \<Longrightarrow> chain h' (Some l) (Some i) ys N' T' \<Longrightarrow> N2 \<inter> N' = {} \<Longrightarrow> T2 \<inter> T' = {} \<Longrightarrow>
         chain h' (Some c) (Some n) (xs @ ys) (N2 \<union> N') (T2 \<union> T')" by blast
    have "chain h' prev (Some c) (x # xs @ ys) (N1 \<union> (N2 \<union> N')) (T1 \<union> (T2 \<union> T'))"
      if h': "linked h l i N T h'" "chain h' (Some l) (Some i) ys N' T'" "N \<inter> N' = {}" "T \<inter> T' = {}" for h'
    proof (rule chain_single [where nx = nx])
      have "l \<notin> N1" using l(2) f(3) by auto
      then have "agree N1 T1 h h'" using h'(1) f(5,6) by (auto simp: linked_def agree_def)
      then have "agree (N1 - {c}) T1 h h'" "jn h' c = Some (nd\<lparr>jn_next := nx\<rparr>)" using nd by (auto simp: agree_def)
      then show "single h' prev c x nx N1 T1" by (rule single_frame [OF f(1) _ nd(2)])
      show "chain h' (Some c) nx (xs @ ys) (N2 \<union> N') (T2 \<union> T')"
        unfolding Some by (rule l(3) [OF linked_part]) (use h' f(5,6) in auto)
    qed (use f h' in auto)
    then show ?thesis using nd Some f(5,6) l(1,2) by (intro exI [of _ l]) (simp add: last_child.simps [of c] node_def Un_assoc)
  qed
qed

lemma chain_empty [simp]: "chain h prev p [] N T \<longleftrightarrow> p = None \<and> N = {} \<and> T = {}"
  by (cases p) (auto elim: chain_first)

lemma chain_one: "chain h prev (Some a) [x] N T \<longleftrightarrow> single h prev a x None N T"
  using chain_single [of h prev a x None N T "[]" "{}" "{}"] by (auto elim!: chain_first)

lemma chain_allocated: "chain h prev p xs N T \<Longrightarrow> N \<subseteq> dom (jn h)"
  by (induction rule: chain.induct) auto

lemma suffix_object_links:
  assumes "jn h l = Some p" and "l \<in> N" and "chain h None (Some i) [x] N' T'" and "N \<inter> N' = {}"
  shows "\<exists>h'. suffix_object l i h = Inr h' \<and> linked h l i N T h' \<and> chain h' (Some l) (Some i) [x] N' T' \<and>
    agree (- (insert l N')) UNIV h h'"
proof -
  from assms(3) have s: "single h None i x None N' T'" by (auto elim!: chain_first dest: single_node)
  from single_node [OF s] obtain nd where nd: "i \<in> N'" "jn h i = Some nd" "jn_next nd = None" by blast
  let ?h = "h\<lparr>jn := (jn h)(l \<mapsto> p\<lparr>jn_next := Some i\<rparr>, i \<mapsto> nd\<lparr>jn_prev := Some l\<rparr>)\<rparr>"
  have li: "l \<noteq> i" "l \<notin> N'" "i \<notin> N" using assms(2,4) nd(1) by auto
  have "nd\<lparr>jn_prev := Some l\<rparr> = nd\<lparr>jn_next := None, jn_prev := Some l\<rparr>" using nd(3) by simp
  then have "single ?h (Some l) i x None N' T'"
    using li by (intro single_moved [OF s _ nd(2)]) (auto simp: agree_def)
  then have "chain ?h (Some l) (Some i) [x] N' T'" by (simp add: chain_one)
  moreover have "suffix_object l i h = Inr ?h"
    using assms(1) nd(2) li(1) by (simp add: suffix_object_def node_def Let_def)
  moreover have "linked h l i N T ?h" using assms(1) li by (auto simp: linked_def agree_def)
  moreover have "agree (- (insert l N')) UNIV h ?h" using nd(1) by (auto simp: agree_def)
  ultimately show ?thesis by blast
qed

lemma without_agree: "agree (- N) UNIV h h' \<Longrightarrow> without N T h' = without N T h"
  by (auto simp: without_def agree_def fun_eq_iff restrict_map_def intro!: jheap.equality)

lemma with_child_CJ: "with_child ds (CJ t vs vi vd nm cs) = CJ t vs vi vd nm ds"
  by (simp add: with_child_def)

text \<open>The item \<open>ob\<close> at \<open>a\<close>, taken apart: its node, its texts and its children.\<close>

lemma container_parts:
  assumes "chain h None (Some a) [ob] N1 T1" and "cj_type ob AND cJSON_IsReference = 0"
  obtains nd S M S3 where "jn h a = Some nd" "jn_type nd AND cJSON_IsReference = 0" "chain h None (jn_child nd) (cj_child ob) M S3"
    "a \<notin> M" "N1 = insert a M" "T1 = S \<union> S3" "S \<inter> S3 = {}"
    "\<And>h' c ys N2 T2. \<lbrakk>jn h' a = Some (nd\<lparr>jn_child := c\<rparr>); chain h' None c ys N2 T2; jt h' = jt h; jl h' = jl h; a \<notin> N2; S \<inter> T2 = {}\<rbrakk> \<Longrightarrow>
      chain h' None (Some a) [with_child ys ob] (insert a N2) (S \<union> T2)"
proof -
  have "single h None a ob None N1 T1" using assms(1) by (simp add: chain_one)
  then obtain nd vs nm cs S2 S1 M S3 where nd: "jn h a = Some nd" "jn_prev nd = None" "jn_next nd = None"
    "ob = CJ (jn_type nd) vs (jn_valueint nd) (jn_valuedouble nd) nm cs"
    "text_at h (jn_type nd AND cJSON_StringIsConst = 0) (jn_string nd) nm S2"
    "text_at h True (jn_valuestring nd) vs S1" "chain h None (jn_child nd) cs M S3" "a \<notin> M" "N1 = insert a M"
    "T1 = S1 \<union> S2 \<union> S3" "S1 \<inter> S2 = {}" "(S1 \<union> S2) \<inter> S3 = {}" and r: "jn_type nd AND cJSON_IsReference = 0"
    using assms(2) by (auto simp: single_def)
  have "chain h' None (Some a) [with_child ys ob] (insert a N2) ((S1 \<union> S2) \<union> T2)"
    if h': "jn h' a = Some (nd\<lparr>jn_child := c\<rparr>)" "chain h' None c ys N2 T2" "jt h' = jt h" "jl h' = jl h" "a \<notin> N2"
      "(S1 \<union> S2) \<inter> T2 = {}" for h' c ys N2 T2
  proof -
    have "chain h' None (Some a) [CJ (jn_type nd) vs (jn_valueint nd) (jn_valuedouble nd) nm ys] (insert a (N2 \<union> {})) (S1 \<union> S2 \<union> T2 \<union> {})"
      using chain.Item [OF h'(1), of None vs S1 nm S2 ys N2 T2 "[]" "{}" "{}"]
        text_at_agree [OF nd(5), of h'] text_at_agree [OF nd(6), of h'] h' nd(2,3,11) r by auto
    then show ?thesis using nd(4) by (simp add: with_child_CJ)
  qed
  then show thesis using that [of nd M S3 "S1 \<union> S2"] nd r by simp
qed

lemma heap_add_item_chain:
  assumes "chain h None (Some a) [ob] N1 T1" and "chain h None (Some i) [x] N2 T2" and "N1 \<inter> N2 = {}" and "T1 \<inter> T2 = {}"
    and "cj_type ob AND cJSON_IsReference = 0"
  shows "\<exists>h'. heap_add_item (Some a) (Some i) h = Some (Inr (True, h')) \<and> agree (- (N1 \<union> N2)) UNIV h h' \<and>
    chain h' None (Some a) [with_child (cj_child ob @ [x]) ob] (N1 \<union> N2) (T1 \<union> T2)"
proof -
  obtain nd S M S3 where nd: "jn h a = Some nd" "jn_type nd AND cJSON_IsReference = 0" "chain h None (jn_child nd) (cj_child ob) M S3"
    "a \<notin> M" "N1 = insert a M" "T1 = S \<union> S3" "S \<inter> S3 = {}"
    and root: "\<And>h' c ys N2 T2. \<lbrakk>jn h' a = Some (nd\<lparr>jn_child := c\<rparr>); chain h' None c ys N2 T2; jt h' = jt h; jl h' = jl h; a \<notin> N2;
      S \<inter> T2 = {}\<rbrakk> \<Longrightarrow> chain h' None (Some a) [with_child ys ob] (insert a N2) (S \<union> T2)"
    by (rule container_parts [OF assms(1,5)]) blast
  have sep: "a \<notin> N2" "S \<inter> T2 = {}" "M \<inter> N2 = {}" "S3 \<inter> T2 = {}" using assms(3,4) nd(5,6) by auto
  show ?thesis
  proof (cases "jn_child nd")
    case None
    then have e: "cj_child ob = []" "M = {}" "S3 = {}" using nd(3) by simp_all
    let ?h = "h\<lparr>jn := (jn h)(a \<mapsto> nd\<lparr>jn_child := Some i\<rparr>)\<rparr>"
    have "chain ?h None (Some i) [x] N2 T2" using sep(1) by (intro chain_frame [OF assms(2)]) (auto simp: agree_def)
    from root [OF _ this] have "chain ?h None (Some a) [with_child (cj_child ob @ [x]) ob] (N1 \<union> N2) (T1 \<union> T2)"
      using e sep nd(5,6) by simp
    moreover have "heap_add_item (Some a) (Some i) h = Some (Inr (True, ?h))"
      using nd(1) None by (simp add: heap_add_item_def node_def)
    moreover have "agree (- (N1 \<union> N2)) UNIV h ?h" using nd(5) by (auto simp: agree_def)
    ultimately show ?thesis by blast
  next
    case (Some c)
    from chain_append [OF nd(3) [unfolded Some], of i "[x]" N2 T2] obtain l where
      l: "last_child c h = Some (Inr l)" "l \<in> M"
        "\<And>h'. linked h l i M S3 h' \<Longrightarrow> chain h' (Some l) (Some i) [x] N2 T2 \<Longrightarrow> M \<inter> N2 = {} \<Longrightarrow> S3 \<inter> T2 = {} \<Longrightarrow>
           chain h' None (Some c) (cj_child ob @ [x]) (M \<union> N2) (S3 \<union> T2)" by blast
    obtain p where p: "jn h l = Some p" using chain_allocated [OF nd(3)] l(2) by auto
    have al: "a \<noteq> l" using nd(4) l(2) by blast
    from suffix_object_links [OF p l(2) assms(2) sep(3), of S3] obtain h' where
      h': "suffix_object l i h = Inr h'" "linked h l i M S3 h'" "chain h' (Some l) (Some i) [x] N2 T2"
        "agree (- (insert l N2)) UNIV h h'" by blast
    have same: "jt h' = jt h" "jl h' = jl h" "jn h' a = Some (nd\<lparr>jn_child := Some c\<rparr>)"
      using h'(4) al sep(1) nd(1) Some by (auto simp: agree_def)
    from root [OF same(3) l(3) [OF h'(2,3) sep(3,4)] same(1,2)]
    have "chain h' None (Some a) [with_child (cj_child ob @ [x]) ob] (N1 \<union> N2) (T1 \<union> T2)"
      using sep nd(4-7) by (simp add: Un_assoc Int_Un_distrib)
    moreover have "heap_add_item (Some a) (Some i) h = Some (Inr (True, h'))"
      using nd(1) Some l(1) h'(1) by (simp add: heap_add_item_def node_def)
    moreover have "agree (- (N1 \<union> N2)) UNIV h h'" using h'(4) l(2) nd(5) by (auto simp: agree_def)
    ultimately show ?thesis by blast
  qed
qed

section \<open>Property\<close>

text \<open>
  Property C24: The pointer code builds and frees the values.  Appending an item to an array or object in memory
  gives the nodes of the value that \<open>add_item_to_array\<close> computes, from the nodes of both and without touching any other; and
  \<open>cJSON_Delete\<close> of the result returns, having freed each node, text and name of it exactly once, and nothing
  else: no pointer is followed into freed memory, literals used as keys and what references point to stay.
\<close>
theorem json_memory:
  assumes "chain h None (Some a) [ob] N1 T1" and "chain h None (Some i) [x] N2 T2" and "N1 \<inter> N2 = {}" and "T1 \<inter> T2 = {}"
    and "cj_type ob AND cJSON_IsReference = 0"
  shows "\<exists>h' ob'. heap_add_item (Some a) (Some i) h = Some (Inr (True, h')) \<and>
    add_item_to_array (Some ob) (Some x) = (True, Some ob') \<and> chain h' None (Some a) [ob'] (N1 \<union> N2) (T1 \<union> T2) \<and>
    agree (- (N1 \<union> N2)) UNIV h h' \<and>
    heap_Delete (Some a) h' = Some (Inr (without (N1 \<union> N2) (T1 \<union> T2) h))"
proof -
  from heap_add_item_chain [OF assms] obtain h' where h': "heap_add_item (Some a) (Some i) h = Some (Inr (True, h'))"
    "agree (- (N1 \<union> N2)) UNIV h h'" "chain h' None (Some a) [with_child (cj_child ob @ [x]) ob] (N1 \<union> N2) (T1 \<union> T2)" by blast
  have "heap_Delete (Some a) h' = Some (Inr (without (N1 \<union> N2) (T1 \<union> T2) h'))"
    by (rule heap_Delete_chain [OF h'(3)]) (simp add: agree_def)
  with h' show ?thesis by (simp add: add_item_to_array_def without_agree [OF h'(2)])
qed

text \<open>The object \<open>{"dst":"rf"}\<close> at 1 with its member at 2 and the key a literal; a number at 3.\<close>

definition ex_heap :: "int jheap" where
  "ex_heap = \<lparr>
     jn = [1 \<mapsto> \<lparr>jn_next = None, jn_prev = None, jn_child = Some 2, jn_type = 64, jn_valuestring = None, jn_valueint = 0,
             jn_valuedouble = 0, jn_string = None\<rparr>,
           2 \<mapsto> \<lparr>jn_next = None, jn_prev = None, jn_child = None, jn_type = 528, jn_valuestring = Some 5, jn_valueint = 0,
             jn_valuedouble = 0, jn_string = Some 9\<rparr>,
           3 \<mapsto> \<lparr>jn_next = None, jn_prev = None, jn_child = None, jn_type = 8, jn_valuestring = None, jn_valueint = 3,
             jn_valuedouble = 3, jn_string = Some 6\<rparr>],
     jt = [5 \<mapsto> ''rf'', 6 \<mapsto> ''n''], jl = [9 \<mapsto> ''dst'']\<rparr>"

lemma ex_heap_sel:
  "jn ex_heap 1 = Some \<lparr>jn_next = None, jn_prev = None, jn_child = Some 2, jn_type = 64, jn_valuestring = None, jn_valueint = 0,
     jn_valuedouble = 0, jn_string = None\<rparr>"
  "jn ex_heap 2 = Some \<lparr>jn_next = None, jn_prev = None, jn_child = None, jn_type = 528, jn_valuestring = Some 5, jn_valueint = 0,
     jn_valuedouble = 0, jn_string = Some 9\<rparr>"
  "jn ex_heap 3 = Some \<lparr>jn_next = None, jn_prev = None, jn_child = None, jn_type = 8, jn_valuestring = None, jn_valueint = 3,
     jn_valuedouble = 3, jn_string = Some 6\<rparr>"
  "jt ex_heap 5 = Some ''rf''" "jt ex_heap 6 = Some ''n''" "jl ex_heap 9 = Some ''dst''"
  by (simp_all add: ex_heap_def)

lemma ex_heap_chains:
  "chain ex_heap None (Some 1) [CJ 64 None 0 0 None [CJ 528 (Some ''rf'') 0 0 (Some ''dst'') []]] {1, 2} {5}"
  "chain ex_heap None (Some 3) [CJ 8 None 3 3 (Some ''n'') []] {3} {6}"
proof -
  have 2: "chain ex_heap None (Some 2) [CJ 528 (Some ''rf'') 0 0 (Some ''dst'') []] {2} {5}"
    unfolding chain_one single_def by (auto simp: ex_heap_sel text_at_def)
  have "single ex_heap None 1 (CJ 64 None 0 0 None [CJ 528 (Some ''rf'') 0 0 (Some ''dst'') []]) None {1, 2} {5}"
    unfolding single_def using 2 by (auto simp: ex_heap_sel [simplified] text_at_def intro!: exI [of _ "{2}"])
  then show "chain ex_heap None (Some 1) [CJ 64 None 0 0 None [CJ 528 (Some ''rf'') 0 0 (Some ''dst'') []]] {1, 2} {5}"
    by (simp add: chain_one)
  show "chain ex_heap None (Some 3) [CJ 8 None 3 3 (Some ''n'') []] {3} {6}"
    unfolding chain_one single_def by (auto simp: ex_heap_sel text_at_def)
qed

theorem json_memory_witness:
  "\<exists>h'. heap_add_item (Some 1) (Some 3) ex_heap = Some (Inr (True, h')) \<and>
    chain h' None (Some 1) [CJ 64 None 0 0 None [CJ 528 (Some ''rf'') 0 0 (Some ''dst'') [], CJ 8 None 3 3 (Some ''n'') []]]
      ({1, 2} \<union> {3}) ({5} \<union> {6}) \<and>
    heap_Delete (Some 1) h' = Some (Inr \<lparr>jn = Map.empty, jt = Map.empty, jl = [9 \<mapsto> ''dst'']\<rparr>)"
proof -
  have e: "without ({1, 2} \<union> {3}) ({5} \<union> {6}) ex_heap = \<lparr>jn = Map.empty, jt = Map.empty, jl = [9 \<mapsto> ''dst'']\<rparr>"
    by (auto simp: without_def ex_heap_def fun_eq_iff restrict_map_def)
  have "\<exists>h' ob'. heap_add_item (Some 1) (Some 3) ex_heap = Some (Inr (True, h')) \<and>
    add_item_to_array (Some (CJ 64 None 0 0 None [CJ 528 (Some ''rf'') 0 0 (Some ''dst'') []])) (Some (CJ 8 None 3 3 (Some ''n'') [])) =
      (True, Some ob') \<and> chain h' None (Some 1) [ob'] ({1, 2} \<union> {3}) ({5} \<union> {6}) \<and>
    agree (- ({1, 2} \<union> {3})) UNIV ex_heap h' \<and>
    heap_Delete (Some 1) h' = Some (Inr (without ({1, 2} \<union> {3}) ({5} \<union> {6}) ex_heap))"
    by (rule json_memory [OF ex_heap_chains]) simp_all
  then show ?thesis unfolding e by (auto simp: add_item_to_array_def with_child_CJ)
qed

end
