(* ===== verification/GW_JsonHeapEdit.thy ===== *)
theory GW_JsonHeapEdit
  imports GW_JsonHeap
begin

text \<open>
  \<open>src/code/dependence/cjson/cJSON.c\<close>, editing the tree in memory: counting, indexing, finding, detaching, inserting and
  replacing items as pointer code over the store of \<open>GW_JsonHeap\<close>, refined to the operations on values of \<open>GW_Json\<close>.
\<close>

unbundle bit_operations_syntax

section \<open>The pointer code\<close>

definition upd :: "nat \<Rightarrow> ('d jnode \<Rightarrow> 'd jnode) \<Rightarrow> 'd jheap \<Rightarrow> 'd jheap res" where
  "upd a f h = res_bind (node h a) (\<lambda>nd. Inr (h\<lparr>jn := (jn h)(a \<mapsto> f nd)\<rparr>))"

definition upd_opt :: "nat option \<Rightarrow> ('d jnode \<Rightarrow> 'd jnode) \<Rightarrow> 'd jheap \<Rightarrow> 'd jheap res" where
  "upd_opt p f h = (case p of None \<Rightarrow> Inr h | Some a \<Rightarrow> upd a f h)"

text \<open>The loop of \<open>cJSON_GetArraySize\<close>.\<close>

partial_function (option) heap_count :: "nat option \<Rightarrow> 'd jheap \<Rightarrow> nat res option" where
  "heap_count child h =
     (case child of None \<Rightarrow> Some (Inr 0)
      | Some a \<Rightarrow>
          (case node h a of
             Inl e \<Rightarrow> Some (Inl e)
           | Inr nd \<Rightarrow> Option.bind (heap_count (jn_next nd) h) (\<lambda>r. Some (res_bind r (\<lambda>n. Inr (Suc n))))))"

definition heap_GetArraySize :: "nat option \<Rightarrow> 'd jheap \<Rightarrow> nat res option" where
  "heap_GetArraySize arr h =
     (case arr of None \<Rightarrow> Some (Inr 0)
      | Some a \<Rightarrow> (case node h a of Inl e \<Rightarrow> Some (Inl e) | Inr nd \<Rightarrow> heap_count (jn_child nd) h))"

fun walk :: "nat \<Rightarrow> nat option \<Rightarrow> 'd jheap \<Rightarrow> nat option res" where
  "walk 0 child h = Inr child"
| "walk (Suc index) child h =
     (case child of None \<Rightarrow> Inr None | Some a \<Rightarrow> res_bind (node h a) (\<lambda>nd. walk index (jn_next nd) h))"

definition heap_get_array_item :: "nat option \<Rightarrow> nat \<Rightarrow> 'd jheap \<Rightarrow> nat option res" where
  "heap_get_array_item arr index h =
     (case arr of None \<Rightarrow> Inr None | Some a \<Rightarrow> res_bind (node h a) (\<lambda>nd. walk index (jn_child nd) h))"

definition heap_DetachItemViaPointer :: "nat option \<Rightarrow> nat option \<Rightarrow> 'd jheap \<Rightarrow> (nat option \<times> 'd jheap) res" where
  "heap_DetachItemViaPointer parent item h =
     (case (parent, item) of
        (Some p, Some a) \<Rightarrow>
          res_bind (node h a) (\<lambda>i.
          res_bind (upd_opt (jn_prev i) (jn_next_update (\<lambda>_. jn_next i)) h) (\<lambda>h1.
          res_bind (node h1 a) (\<lambda>i1.
          res_bind (upd_opt (jn_next i1) (jn_prev_update (\<lambda>_. jn_prev i1)) h1) (\<lambda>h2.
          res_bind (node h2 p) (\<lambda>pn.
          res_bind (node h2 a) (\<lambda>i2.
          res_bind (if jn_child pn = Some a then upd p (jn_child_update (\<lambda>_. jn_next i2)) h2 else Inr h2) (\<lambda>h3.
          res_bind (upd a (\<lambda>nd. nd\<lparr>jn_prev := None, jn_next := None\<rparr>) h3) (\<lambda>h4. Inr (Some a, h4)))))))))
      | _ \<Rightarrow> Inr (None, h))"

definition heap_DetachItemFromArray :: "nat option \<Rightarrow> int \<Rightarrow> 'd jheap \<Rightarrow> (nat option \<times> 'd jheap) res" where
  "heap_DetachItemFromArray arr which h =
     (if which < 0 then Inr (None, h)
      else res_bind (heap_get_array_item arr (nat which) h) (\<lambda>i. heap_DetachItemViaPointer arr i h))"

definition heap_InsertItemInArray :: "nat option \<Rightarrow> int \<Rightarrow> nat option \<Rightarrow> 'd jheap \<Rightarrow> 'd jheap res option" where
  "heap_InsertItemInArray arr which newitem h =
     (if which < 0 then Some (Inr h)
      else case heap_get_array_item arr (nat which) h of
        Inl e \<Rightarrow> Some (Inl e)
      | Inr None \<Rightarrow> map_option (\<lambda>r. res_bind r (\<lambda>(_, h'). Inr h')) (heap_add_item arr newitem h)
      | Inr (Some after) \<Rightarrow>
          (case (arr, newitem) of
             (Some p, Some n) \<Rightarrow>
               Some (res_bind (upd n (jn_next_update (\<lambda>_. Some after)) h) (\<lambda>h1.
                 res_bind (node h1 after) (\<lambda>i.
                 res_bind (upd n (jn_prev_update (\<lambda>_. jn_prev i)) h1) (\<lambda>h2.
                 res_bind (upd after (jn_prev_update (\<lambda>_. Some n)) h2) (\<lambda>h3.
                 res_bind (node h3 p) (\<lambda>pn.
                 if Some after = jn_child pn then upd p (jn_child_update (\<lambda>_. Some n)) h3
                 else res_bind (node h3 n) (\<lambda>nn.
                   case jn_prev nn of None \<Rightarrow> Inl NullDeref | Some l \<Rightarrow> upd l (jn_next_update (\<lambda>_. Some n)) h3)))))))
           | _ \<Rightarrow> Some (Inl NullDeref)))"

definition heap_ReplaceItemViaPointer :: "nat option \<Rightarrow> nat option \<Rightarrow> nat option \<Rightarrow> 'd jheap \<Rightarrow> (bool \<times> 'd jheap) res option" where
  "heap_ReplaceItemViaPointer parent item replacement h =
     (case (parent, item, replacement) of
        (Some p, Some a, Some r) \<Rightarrow>
          if r = a then Some (Inr (True, h))
          else
            (case res_bind (node h a) (\<lambda>i.
                  res_bind (upd r (jn_next_update (\<lambda>_. jn_next i)) h) (\<lambda>h1.
                  res_bind (node h1 a) (\<lambda>i1.
                  res_bind (upd r (jn_prev_update (\<lambda>_. jn_prev i1)) h1) (\<lambda>h2.
                  res_bind (node h2 r) (\<lambda>rn.
                  res_bind (upd_opt (jn_next rn) (jn_prev_update (\<lambda>_. Some r)) h2) (\<lambda>h3.
                  res_bind (node h3 r) (\<lambda>rn3.
                  res_bind (upd_opt (jn_prev rn3) (jn_next_update (\<lambda>_. Some r)) h3) (\<lambda>h4.
                  res_bind (node h4 p) (\<lambda>pn.
                  res_bind (if jn_child pn = Some a then upd p (jn_child_update (\<lambda>_. Some r)) h4 else Inr h4) (\<lambda>h5.
                  upd a (\<lambda>nd. nd\<lparr>jn_next := None, jn_prev := None\<rparr>) h5)))))))))) of
               Inl e \<Rightarrow> Some (Inl e)
             | Inr h6 \<Rightarrow> map_option (\<lambda>x. res_bind x (\<lambda>h7. Inr (True, h7))) (heap_Delete (Some a) h6))
      | _ \<Rightarrow> Some (Inr (False, h)))"

definition heap_ReplaceItemInArray :: "nat option \<Rightarrow> int \<Rightarrow> nat option \<Rightarrow> 'd jheap \<Rightarrow> 'd jheap res option" where
  "heap_ReplaceItemInArray arr which newitem h =
     (if which < 0 then Some (Inr h)
      else case heap_get_array_item arr (nat which) h of
        Inl e \<Rightarrow> Some (Inl e)
      | Inr i \<Rightarrow> map_option (\<lambda>x. res_bind x (\<lambda>(_, h'). Inr h')) (heap_ReplaceItemViaPointer arr i newitem h))"

section \<open>Parts of a chain\<close>

text \<open>
  \<open>seg h prev p xs pe e N T\<close>: from \<open>p\<close> on there are the items \<open>xs\<close>, and then \<open>next\<close> leads to \<open>e\<close>, whose \<open>prev\<close> is \<open>pe\<close>.
\<close>

fun seg :: "'d jheap \<Rightarrow> nat option \<Rightarrow> nat option \<Rightarrow> 'd cJSON list \<Rightarrow> nat option \<Rightarrow> nat option \<Rightarrow> nat set \<Rightarrow> nat set \<Rightarrow> bool" where
  "seg h prev p [] pe e N T \<longleftrightarrow> pe = prev \<and> e = p \<and> N = {} \<and> T = {}"
| "seg h prev p (x # xs) pe e N T \<longleftrightarrow>
     (\<exists>a nx N1 T1 N2 T2. p = Some a \<and> single h prev a x nx N1 T1 \<and> seg h (Some a) nx xs pe e N2 T2 \<and>
        N1 \<inter> N2 = {} \<and> T1 \<inter> T2 = {} \<and> N = N1 \<union> N2 \<and> T = T1 \<union> T2)"

lemma seg_Cons:
  assumes "single h prev a x nx N1 T1" and "seg h (Some a) nx xs pe e N2 T2" and "N1 \<inter> N2 = {}" and "T1 \<inter> T2 = {}"
  shows "seg h prev (Some a) (x # xs) pe e (N1 \<union> N2) (T1 \<union> T2)"
  unfolding seg.simps using assms by (intro exI conjI) (assumption | rule refl)+

lemma single_allocated: "single h prev a x nx N T \<Longrightarrow> N \<subseteq> dom (jn h)"
proof -
  assume s: "single h prev a x nx N T"
  then obtain nd where "jn h a = Some nd" "N = {a} \<or> (\<exists>p cs M S. chain h None p cs M S \<and> N = insert a M)"
    by (auto simp: single_def split: if_splits)
  then show ?thesis using chain_allocated by blast
qed

lemma chain_split:
  "chain h prev p (xs @ ys) N T \<Longrightarrow>
     \<exists>pe e N1 T1 N2 T2. seg h prev p xs pe e N1 T1 \<and> chain h pe e ys N2 T2 \<and> N1 \<inter> N2 = {} \<and> T1 \<inter> T2 = {} \<and>
       N = N1 \<union> N2 \<and> T = T1 \<union> T2"
proof (induction xs arbitrary: prev p N T)
  case (Cons x xs)
  then obtain a where p: "p = Some a" by (cases p) auto
  from Cons.prems [unfolded p] obtain nx N1 T1 N2 T2 where f: "single h prev a x nx N1 T1" "chain h (Some a) nx (xs @ ys) N2 T2"
    "N1 \<inter> N2 = {}" "T1 \<inter> T2 = {}" "N = N1 \<union> N2" "T = T1 \<union> T2" by (auto elim: chain_first)
  from Cons.IH [OF f(2)] obtain pe e M1 S1 M2 S2 where g: "seg h (Some a) nx xs pe e M1 S1" "chain h pe e ys M2 S2"
    "M1 \<inter> M2 = {}" "S1 \<inter> S2 = {}" "N2 = M1 \<union> M2" "T2 = S1 \<union> S2" by blast
  have d: "N1 \<inter> M1 = {}" "T1 \<inter> S1 = {}" "(N1 \<union> M1) \<inter> M2 = {}" "(T1 \<union> S1) \<inter> S2 = {}" using f(3,4) g(3-6) by blast+
  have "seg h prev p (x # xs) pe e (N1 \<union> M1) (T1 \<union> S1)" unfolding p by (rule seg_Cons [OF f(1) g(1) d(1,2)])
  moreover have "N = (N1 \<union> M1) \<union> M2" "T = (T1 \<union> S1) \<union> S2" using f(5,6) g(5,6) by blast+
  ultimately show ?case using g(2) d(3,4) by blast
qed auto

lemma chain_join:
  "seg h prev p xs pe e N1 T1 \<Longrightarrow> chain h pe e ys N2 T2 \<Longrightarrow> N1 \<inter> N2 = {} \<Longrightarrow> T1 \<inter> T2 = {} \<Longrightarrow>
     chain h prev p (xs @ ys) (N1 \<union> N2) (T1 \<union> T2)"
proof (induction xs arbitrary: prev p N1 T1)
  case (Cons x xs)
  then obtain a nx M1 S1 M2 S2 where f: "p = Some a" "single h prev a x nx M1 S1" "seg h (Some a) nx xs pe e M2 S2"
    "M1 \<inter> M2 = {}" "S1 \<inter> S2 = {}" "N1 = M1 \<union> M2" "T1 = S1 \<union> S2" by auto
  have "chain h (Some a) nx (xs @ ys) (M2 \<union> N2) (S2 \<union> T2)" by (rule Cons.IH [OF f(3) Cons.prems(2)]) (use Cons.prems f in auto)
  from chain_single [OF f(2) this] f Cons.prems(3,4) show ?case by (simp add: Un_assoc Int_Un_distrib Int_Un_distrib2)
qed simp

lemma seg_nodes: "seg h prev p xs pe e N T \<Longrightarrow> N \<subseteq> dom (jn h)"
proof (induction xs arbitrary: prev p N T)
  case (Cons x xs)
  then obtain a nx M1 S1 M2 S2 where f: "single h prev a x nx M1 S1" "seg h (Some a) nx xs pe e M2 S2" "N = M1 \<union> M2" by auto
  with Cons.IH [OF f(2)] single_allocated [OF f(1)] show ?case by simp
qed simp

lemma seg_frame: "seg h prev p xs pe e N T \<Longrightarrow> agree N T h h' \<Longrightarrow> seg h' prev p xs pe e N T"
proof (induction xs arbitrary: prev p N T)
  case (Cons x xs)
  then obtain a nx M1 S1 M2 S2 where f: "p = Some a" "single h prev a x nx M1 S1" "seg h (Some a) nx xs pe e M2 S2"
    "M1 \<inter> M2 = {}" "S1 \<inter> S2 = {}" "N = M1 \<union> M2" "T = S1 \<union> S2" by auto
  have ag: "agree M1 S1 h h'" "agree M2 S2 h h'" using Cons.prems(2) f(6,7) by simp_all
  obtain nd where nd: "a \<in> M1" "jn h a = Some nd" "jn_next nd = nx" using single_node [OF f(2)] by blast
  have "single h' prev a x nx M1 S1"
    by (rule single_frame [OF f(2) _ nd(2)]) (use ag(1) nd in \<open>auto simp: agree_def\<close>)
  from seg_Cons [OF this Cons.IH [OF f(3) ag(2)] f(4,5)] show ?case unfolding f(1,6,7) .
qed simp

text \<open>The last node of a part that is not empty may lead elsewhere.\<close>

lemma seg_last: "seg h prev p xs pe e N T \<Longrightarrow> xs \<noteq> [] \<Longrightarrow> \<exists>l nd. pe = Some l \<and> l \<in> N \<and> jn h l = Some nd \<and> jn_next nd = e"
proof (induction xs arbitrary: prev p N T)
  case (Cons x xs)
  then obtain a nx M1 S1 M2 S2 where f: "single h prev a x nx M1 S1" "seg h (Some a) nx xs pe e M2 S2" "N = M1 \<union> M2" by auto
  show ?case
  proof (cases "xs = []")
    case True
    then show ?thesis using f single_node [OF f(1)] by auto
  next
    case False
    from Cons.IH [OF f(2) False] f(3) show ?thesis by auto
  qed
qed simp

lemma seg_relink:
  "seg h prev p xs pe e N T \<Longrightarrow> pe = Some l \<Longrightarrow> xs \<noteq> [] \<Longrightarrow> agree (N - {l}) T h h' \<Longrightarrow> jn h l = Some nd \<Longrightarrow>
     jn h' l = Some (nd\<lparr>jn_next := e'\<rparr>) \<Longrightarrow> seg h' prev p xs pe e' N T"
proof (induction xs arbitrary: prev p N T)
  case (Cons x xs)
  then obtain a nx M1 S1 M2 S2 where f: "p = Some a" "single h prev a x nx M1 S1" "seg h (Some a) nx xs pe e M2 S2"
    "M1 \<inter> M2 = {}" "S1 \<inter> S2 = {}" "N = M1 \<union> M2" "T = S1 \<union> S2" by auto
  obtain na where na: "a \<in> M1" "jn h a = Some na" "jn_next na = nx" using single_node [OF f(2)] by blast
  show ?case
  proof (cases "xs = []")
    case True
    with f Cons.prems(2) have e: "l = a" "nx = e" "M2 = {}" "S2 = {}" by auto
    with Cons.prems(5) na have "nd = na" by simp
    have "single h' prev a x e' M1 S1"
      by (rule single_frame [OF f(2) _ na(2)]) (use Cons.prems(4,6) e f(6,7) \<open>nd = na\<close> in auto)
    then show ?thesis using f True e Cons.prems(2) by auto
  next
    case False
    from seg_last [OF f(3) False] Cons.prems(2) have l: "l \<in> M2" by auto
    then have ag: "agree M1 S1 h h'" "agree (M2 - {l}) S2 h h'" using Cons.prems(4) f(4,6,7) by (auto simp: agree_def)
    have "single h' prev a x nx M1 S1"
      by (rule single_frame [OF f(2) _ na(2)]) (use ag(1) na in \<open>auto simp: agree_def\<close>)
    from seg_Cons [OF this Cons.IH [OF f(3) Cons.prems(2) False ag(2) Cons.prems(5,6)] f(4,5)] show ?thesis unfolding f(1,6,7) .
  qed
qed simp

lemma chain_relink:
  assumes "chain h pe (Some b) ys N T" and "agree (N - {b}) T h h'" and "jn h b = Some nd" and "jn h' b = Some (nd\<lparr>jn_prev := pe'\<rparr>)"
  shows "chain h' pe' (Some b) ys N T"
proof -
  from assms(1) obtain x xs nx N1 T1 N2 T2 where f: "ys = x # xs" "single h pe b x nx N1 T1" "chain h (Some b) nx xs N2 T2"
    "N1 \<inter> N2 = {}" "T1 \<inter> T2 = {}" "N = N1 \<union> N2" "T = T1 \<union> T2" by (rule chain_first)
  have b: "b \<in> N1" "jn_next nd = nx" using single_node [OF f(2)] assms(3) by auto
  then have ag: "agree (N1 - {b}) T1 h h'" "agree N2 T2 h h'" using assms(2) f(4,6,7) by (auto simp: agree_def)
  have "nd\<lparr>jn_prev := pe'\<rparr> = nd\<lparr>jn_next := nx, jn_prev := pe'\<rparr>" using b(2) by simp
  with assms(4) have "single h' pe' b x nx N1 T1" by (intro single_moved [OF f(2) ag(1) assms(3)]) simp
  from chain_single [OF this chain_frame [OF f(3) ag(2)] f(4,5)] f show ?thesis by simp
qed

lemma chain_prev: "chain h pe (Some b) ys N T \<Longrightarrow> \<exists>nd. b \<in> N \<and> jn h b = Some nd \<and> jn_prev nd = pe"
  by (auto elim!: chain_first simp: single_def split: if_splits)

section \<open>A parent and its children\<close>

definition root :: "'d jheap \<Rightarrow> nat \<Rightarrow> 'd cJSON \<Rightarrow> 'd jnode \<Rightarrow> nat set \<Rightarrow> bool" where
  "root h par ob nd S \<longleftrightarrow> jn h par = Some nd \<and> jn_prev nd = None \<and> jn_next nd = None \<and> jn_type nd AND cJSON_IsReference = 0 \<and>
     (\<exists>vs nm S1 S2. ob = CJ (jn_type nd) vs (jn_valueint nd) (jn_valuedouble nd) nm (cj_child ob) \<and> S = S1 \<union> S2 \<and> S1 \<inter> S2 = {} \<and>
        text_at h True (jn_valuestring nd) vs S1 \<and> text_at h (jn_type nd AND cJSON_StringIsConst = 0) (jn_string nd) nm S2)"

lemma root_open:
  assumes "chain h None (Some par) [ob] N T" and "cj_type ob AND cJSON_IsReference = 0"
  obtains nd S M S' where "root h par ob nd S" "chain h None (jn_child nd) (cj_child ob) M S'" "par \<notin> M" "N = insert par M"
    "T = S \<union> S'" "S \<inter> S' = {}"
proof -
  from assms(1) have s: "single h None par ob None N T" by (simp add: chain_one)
  then obtain nd vs nm cs S2 S1 M S3 where nd: "jn h par = Some nd" "jn_prev nd = None" "jn_next nd = None"
    "ob = CJ (jn_type nd) vs (jn_valueint nd) (jn_valuedouble nd) nm cs" "jn_type nd AND cJSON_IsReference = 0"
    "text_at h (jn_type nd AND cJSON_StringIsConst = 0) (jn_string nd) nm S2"
    "text_at h True (jn_valuestring nd) vs S1" "chain h None (jn_child nd) cs M S3" "par \<notin> M" "N = insert par M"
    "T = S1 \<union> S2 \<union> S3" "S1 \<inter> S2 = {}" "(S1 \<union> S2) \<inter> S3 = {}"
    using assms(2) by (auto simp: single_def)
  have "root h par ob nd (S1 \<union> S2)" unfolding root_def using nd by auto
  from that [OF this _ nd(9,10,11,13)] nd(4,8) show thesis by simp
qed

lemma root_close:
  assumes "root h par ob nd S" and "jn h' par = Some (nd\<lparr>jn_child := c\<rparr>)" and "\<forall>x \<in> S. jt h' x = jt h x" and "jl h' = jl h"
    and "chain h' None c cs M S'" and "par \<notin> M" and "S \<inter> S' = {}"
  shows "chain h' None (Some par) [with_child cs ob] (insert par M) (S \<union> S')"
proof -
  from assms(1) obtain vs nm S1 S2 where r: "jn_prev nd = None" "jn_next nd = None" "jn_type nd AND cJSON_IsReference = 0"
    "ob = CJ (jn_type nd) vs (jn_valueint nd) (jn_valuedouble nd) nm (cj_child ob)" "S = S1 \<union> S2" "S1 \<inter> S2 = {}"
    "text_at h True (jn_valuestring nd) vs S1" "text_at h (jn_type nd AND cJSON_StringIsConst = 0) (jn_string nd) nm S2"
    unfolding root_def by blast
  have t: "text_at h' True (jn_valuestring nd) vs S1" "text_at h' (jn_type nd AND cJSON_StringIsConst = 0) (jn_string nd) nm S2"
    using text_at_agree [OF r(7), of h'] text_at_agree [OF r(8), of h'] assms(3,4) r(5) by auto
  have "chain h' None (Some par) [CJ (jn_type nd) vs (jn_valueint nd) (jn_valuedouble nd) nm cs] (insert par (M \<union> {})) (S1 \<union> S2 \<union> S' \<union> {})"
    using chain.Item [OF assms(2), of None vs S1 nm S2 cs M S' "[]" "{}" "{}"] t r assms(5-7) by auto
  then show ?thesis using r(4,5) by (metis sup_bot_right with_child_CJ)
qed

text \<open>An item among the children: what is left of it, the item, what is right of it.\<close>

lemma root_at:
  assumes "chain h None (Some par) [ob] N T" and "cj_type ob AND cJSON_IsReference = 0" and "cj_child ob = xs @ x # ys"
  obtains nd S pe a nx M1 S1 M2 S2 M3 S3 where "root h par ob nd S" "seg h None (jn_child nd) xs pe (Some a) M1 S1"
    "single h pe a x nx M2 S2" "chain h (Some a) nx ys M3 S3" "N = insert par (M1 \<union> M2 \<union> M3)" "T = S \<union> S1 \<union> S2 \<union> S3"
    "par \<notin> M1 \<union> M2 \<union> M3" "M1 \<inter> M2 = {}" "M1 \<inter> M3 = {}" "M2 \<inter> M3 = {}"
    "S \<inter> (S1 \<union> S2 \<union> S3) = {}" "S1 \<inter> S2 = {}" "S1 \<inter> S3 = {}" "S2 \<inter> S3 = {}"
proof -
  from root_open [OF assms(1,2)] obtain nd S M S' where r: "root h par ob nd S" "chain h None (jn_child nd) (xs @ x # ys) M S'"
    "par \<notin> M" "N = insert par M" "T = S \<union> S'" "S \<inter> S' = {}" unfolding assms(3) by blast
  from chain_split [OF r(2)] obtain pe e M1 S1 M4 S4 where g: "seg h None (jn_child nd) xs pe e M1 S1" "chain h pe e (x # ys) M4 S4"
    "M1 \<inter> M4 = {}" "S1 \<inter> S4 = {}" "M = M1 \<union> M4" "S' = S1 \<union> S4" by blast
  obtain a where e: "e = Some a" using g(2) by (cases e) auto
  from g(2) [unfolded e] obtain nx M2 S2 M3 S3 where f: "single h pe a x nx M2 S2" "chain h (Some a) nx ys M3 S3"
    "M2 \<inter> M3 = {}" "S2 \<inter> S3 = {}" "M4 = M2 \<union> M3" "S4 = S2 \<union> S3" by (auto elim: chain_first)
  show thesis by (rule that [OF r(1) g(1) [unfolded e] f(1,2)]) (use r g f in auto)
qed

section \<open>Counting and indexing\<close>

lemma heap_count_chain: "chain h prev p xs N T \<Longrightarrow> heap_count p h = Some (Inr (length xs))"
proof (induction xs arbitrary: prev p N T)
  case Nil
  then show ?case by (simp add: heap_count.simps)
next
  case (Cons x xs)
  then obtain a where p: "p = Some a" by (cases p) auto
  from Cons.prems [unfolded p] obtain nx N1 T1 N2 T2 where f: "single h prev a x nx N1 T1" "chain h (Some a) nx xs N2 T2"
    by (auto elim: chain_first)
  with Cons.IH [OF f(2)] single_node [OF f(1)] show ?case unfolding p by (subst heap_count.simps) (auto simp: node_def)
qed

lemma walk_seg: "seg h prev p xs pe e N T \<Longrightarrow> walk (length xs) p h = Inr e"
proof (induction xs arbitrary: prev p N T)
  case (Cons x xs)
  then obtain a nx M1 S1 M2 S2 where f: "p = Some a" "single h prev a x nx M1 S1" "seg h (Some a) nx xs pe e M2 S2" by auto
  with Cons.IH [OF f(3)] single_node [OF f(2)] show ?case by (auto simp: node_def)
qed simp

lemma walk_None [simp]: "walk k None h = Inr None"
  by (cases k) simp_all

lemma walk_add: "walk (m + k) p h = res_bind (walk m p h) (\<lambda>q. walk k q h)"
proof (induction m arbitrary: p)
  case (Suc m)
  show ?case
  proof (cases p)
    case (Some a)
    then show ?thesis by (cases "jn h a") (simp_all add: node_def Suc.IH)
  qed simp
qed simp

lemma heap_get_array_item_at:
  assumes "root h par ob nd S" and "seg h None (jn_child nd) xs pe e M1 S1"
  shows "heap_get_array_item (Some par) (length xs) h = Inr e"
  using assms walk_seg [OF assms(2)] by (simp add: heap_get_array_item_def root_def node_def)

lemma heap_get_array_item_beyond:
  assumes "chain h None (Some par) [ob] N T" and "cj_type ob AND cJSON_IsReference = 0" and "length (cj_child ob) \<le> k"
  shows "heap_get_array_item (Some par) k h = Inr None"
proof -
  obtain nd S M S' where r: "root h par ob nd S" "chain h None (jn_child nd) (cj_child ob) M S'"
    by (rule root_open [OF assms(1,2)])
  from chain_split [of h None "jn_child nd" "cj_child ob" "[]"] r(2) obtain pe e M1 S1 M2 S2 where "seg h None (jn_child nd) (cj_child ob) pe e M1 S1" "chain h pe e [] M2 S2"
    unfolding append_Nil2 by blast
  then have g: "seg h None (jn_child nd) (cj_child ob) pe None M1 S1" by (simp only: chain_empty simp_thms)
  from walk_add [of "length (cj_child ob)" "k - length (cj_child ob)" "jn_child nd" h] walk_seg [OF g] assms(3)
  have "walk k (jn_child nd) h = Inr None" by simp
  then show ?thesis using r(1) by (simp add: heap_get_array_item_def root_def node_def)
qed

lemma heap_GetArraySize_value:
  assumes "chain h None (Some par) [ob] N T" and "cj_type ob AND cJSON_IsReference = 0"
  shows "heap_GetArraySize (Some par) h = Some (Inr (length (cj_child ob)))"
proof -
  obtain nd S M S' where r: "root h par ob nd S" "chain h None (jn_child nd) (cj_child ob) M S'"
    by (rule root_open [OF assms])
  from heap_count_chain [OF r(2)] r(1) show ?thesis by (simp add: heap_GetArraySize_def root_def node_def)
qed

section \<open>Relinking\<close>

text \<open>
  The two sides of an item: the left one ends in the parent's \<open>child\<close> or in the \<open>next\<close> of the node before, the right one in
  the \<open>prev\<close> of the node behind.
\<close>

definition left_ok :: "'d jheap \<Rightarrow> nat \<Rightarrow> 'd jnode \<Rightarrow> nat option \<Rightarrow> nat option \<Rightarrow> 'd jheap \<Rightarrow> bool" where
  "left_ok h par nd pe e' h' \<longleftrightarrow> jn h' par = Some (nd\<lparr>jn_child := (if pe = None then e' else jn_child nd)\<rparr>) \<and>
     (\<forall>l. pe = Some l \<longrightarrow> (\<exists>nl. jn h l = Some nl \<and> jn h' l = Some (nl\<lparr>jn_next := e'\<rparr>)))"

definition right_ok :: "'d jheap \<Rightarrow> nat option \<Rightarrow> nat option \<Rightarrow> 'd jheap \<Rightarrow> bool" where
  "right_ok h nx pe' h' \<longleftrightarrow> (\<forall>b. nx = Some b \<longrightarrow> (\<exists>nb. jn h b = Some nb \<and> jn h' b = Some (nb\<lparr>jn_prev := pe'\<rparr>)))"

definition others :: "'d jheap \<Rightarrow> nat set \<Rightarrow> 'd jheap \<Rightarrow> bool" where
  "others h A h' \<longleftrightarrow> (\<forall>z. z \<notin> A \<longrightarrow> jn h' z = jn h z) \<and> jt h' = jt h \<and> jl h' = jl h"

lemma others_agree: "others h A h' \<Longrightarrow> N \<inter> A = {} \<Longrightarrow> agree N T h h'"
  by (auto simp: others_def agree_def)

lemma seg_left:
  assumes "seg h None (jn_child nd) xs pe e M S" and "left_ok h par nd pe e' h'" and "others h A h'" and "M \<inter> A \<subseteq> set_option pe"
  shows "seg h' None (if pe = None then e' else jn_child nd) xs pe e' M S"
proof (cases "xs = []")
  case True
  with assms(1) show ?thesis by auto
next
  case False
  from seg_last [OF assms(1) False] obtain l nl where l: "pe = Some l" "l \<in> M" "jn h l = Some nl" by blast
  with assms(2) have "jn h' l = Some (nl\<lparr>jn_next := e'\<rparr>)" by (auto simp: left_ok_def)
  moreover have "agree (M - {l}) S h h'" using assms(3,4) l(1) by (auto simp: others_def agree_def)
  ultimately show ?thesis using seg_relink [OF assms(1) l(1) False _ l(3)] l(1) by simp
qed

lemma chain_right:
  assumes "chain h pe nx ys M S" and "right_ok h nx pe' h'" and "others h A h'" and "M \<inter> A \<subseteq> set_option nx"
  shows "chain h' pe' nx ys M S"
proof (cases nx)
  case None
  with assms(1) show ?thesis by simp
next
  case (Some b)
  with assms(2) obtain nb where b: "jn h b = Some nb" "jn h' b = Some (nb\<lparr>jn_prev := pe'\<rparr>)" by (auto simp: right_ok_def)
  have "agree (M - {b}) S h h'" using assms(3,4) Some by (auto simp: others_def agree_def)
  from chain_relink [OF assms(1) [unfolded Some] this b] show ?thesis by (simp add: Some)
qed

text \<open>What surrounds an item, as the operations find it.\<close>

definition placed :: "'d jheap \<Rightarrow> nat \<Rightarrow> 'd jnode \<Rightarrow> nat \<Rightarrow> 'd jnode \<Rightarrow> bool" where
  "placed h par nd a na \<longleftrightarrow> jn h par = Some nd \<and> jn h a = Some na \<and> a \<noteq> par \<and> (jn_prev na = None \<longleftrightarrow> jn_child nd = Some a) \<and>
     (\<forall>l. jn_prev na = Some l \<longrightarrow> l \<in> dom (jn h) \<and> l \<noteq> a \<and> l \<noteq> par \<and> jn_next na \<noteq> Some l) \<and>
     (\<forall>b. jn_next na = Some b \<longrightarrow> b \<in> dom (jn h) \<and> b \<noteq> a \<and> b \<noteq> par)"

lemma placed_at:
  assumes "root h par ob nd S" and "seg h None (jn_child nd) xs pe (Some a) M1 S1" and "single h pe a x nx M2 S2"
    and "chain h (Some a) nx ys M3 S3" and "par \<notin> M1 \<union> M2 \<union> M3" and "M1 \<inter> M2 = {}" and "M1 \<inter> M3 = {}" and "M2 \<inter> M3 = {}"
  shows "\<exists>na. placed h par nd a na \<and> jn_prev na = pe \<and> jn_next na = nx \<and> a \<in> M2 \<and> set_option pe \<subseteq> M1 \<and> set_option nx \<subseteq> M3"
proof -
  from assms(3) obtain na where na: "jn h a = Some na" "jn_prev na = pe" "jn_next na = nx" "a \<in> M2"
    by (auto simp: single_def split: if_splits)
  have l: "set_option pe \<subseteq> M1 \<and> (pe = None \<longleftrightarrow> jn_child nd = Some a)"
  proof (cases "xs = []")
    case True
    with assms(2) show ?thesis by auto
  next
    case False
    from seg_last [OF assms(2) False] obtain l where l: "pe = Some l" "l \<in> M1" by blast
    from assms(2) False obtain y zs c ny K1 R1 where k: "jn_child nd = Some c" "single h None c y ny K1 R1" "K1 \<subseteq> M1"
      by (cases xs) auto
    from single_node [OF k(2)] have "c \<in> K1" by blast
    then have "c \<noteq> a" using k(3) assms(6) na(4) by blast
    then show ?thesis using k(1) l by simp
  qed
  have b: "set_option nx \<subseteq> M3" using assms(4) chain_prev by (cases nx) fastforce+
  have "M1 \<subseteq> dom (jn h)" "M3 \<subseteq> dom (jn h)" using seg_nodes [OF assms(2)] chain_allocated [OF assms(4)] by auto
  then have "placed h par nd a na" unfolding placed_def na(2,3)
    using assms(1,5-8) na l b by (auto simp: root_def)
  then show ?thesis using na l b by blast
qed

section \<open>The operations on the nodes\<close>

lemma detach_nodes:
  assumes "placed h par nd a na" and "jn_prev na = pe" and "jn_next na = nx"
  shows "\<exists>h'. heap_DetachItemViaPointer (Some par) (Some a) h = Inr (Some a, h') \<and>
    jn h' a = Some (na\<lparr>jn_next := None, jn_prev := None\<rparr>) \<and> left_ok h par nd pe nx h' \<and> right_ok h nx pe h' \<and>
    others h ({a, par} \<union> set_option pe \<union> set_option nx) h'"
  using assms
  by (cases pe; cases nx)
    (auto simp: heap_DetachItemViaPointer_def upd_opt_def upd_def node_def placed_def left_ok_def right_ok_def others_def)

lemma insert_nodes:
  assumes "placed h par nd a na" and "jn_prev na = pe" and "jn h n = Some nn" and "n \<noteq> a" and "n \<noteq> par" and "pe \<noteq> Some n"
    and "heap_get_array_item (Some par) k h = Inr (Some a)"
  shows "\<exists>h'. heap_InsertItemInArray (Some par) (int k) (Some n) h = Some (Inr h') \<and>
    jn h' n = Some (nn\<lparr>jn_next := Some a, jn_prev := pe\<rparr>) \<and> left_ok h par nd pe (Some n) h' \<and> right_ok h (Some a) (Some n) h' \<and>
    others h ({a, par, n} \<union> set_option pe) h'"
  using assms
  by (cases pe)
    (auto simp: heap_InsertItemInArray_def upd_opt_def upd_def node_def placed_def left_ok_def right_ok_def others_def)

text \<open>Replacing, up to \<open>cJSON_Delete\<close>.\<close>

lemma replace_nodes:
  assumes "placed h par nd a na" and "jn_prev na = pe" and "jn_next na = nx" and "jn h r = Some rn" and "r \<noteq> a" and "r \<noteq> par"
    and "pe \<noteq> Some r" and "nx \<noteq> Some r"
  shows "\<exists>h'. heap_ReplaceItemViaPointer (Some par) (Some a) (Some r) h =
      map_option (\<lambda>x. res_bind x (\<lambda>h''. Inr (True, h''))) (heap_Delete (Some a) h') \<and>
    jn h' a = Some (na\<lparr>jn_next := None, jn_prev := None\<rparr>) \<and> jn h' r = Some (rn\<lparr>jn_next := nx, jn_prev := pe\<rparr>) \<and>
    left_ok h par nd pe (Some r) h' \<and> right_ok h nx (Some r) h' \<and>
    others h ({a, par, r} \<union> set_option pe \<union> set_option nx) h'"
  using assms
  by (cases pe; cases nx)
    (auto simp: heap_ReplaceItemViaPointer_def upd_opt_def upd_def node_def placed_def left_ok_def right_ok_def others_def)

section \<open>The operations on the values\<close>

text \<open>The parent after its children were relinked around the place of an item: \<open>zs\<close> is what is there now.\<close>

lemma root_relinked:
  assumes "root h par ob nd S" and "seg h' None (if pe = None then e' else jn_child nd) xs pe e' M1 S1"
    and "chain h' pe e' zs M4 S4" and "left_ok h par nd pe e' h'" and "jt h' = jt h" and "jl h' = jl h"
    and "par \<notin> M1 \<union> M4" and "M1 \<inter> M4 = {}" and "S1 \<inter> S4 = {}" and "S \<inter> (S1 \<union> S4) = {}"
  shows "chain h' None (Some par) [with_child (xs @ zs) ob] (insert par (M1 \<union> M4)) (S \<union> (S1 \<union> S4))"
proof -
  have "jn h' par = Some (nd\<lparr>jn_child := (if pe = None then e' else jn_child nd)\<rparr>)" using assms(4) by (simp add: left_ok_def)
  from root_close [OF assms(1) this _ assms(6) chain_join [OF assms(2,3,8,9)] assms(7,10)] assms(5) show ?thesis by simp
qed

lemma detach_chain:
  assumes "chain h None (Some par) [ob] N T" and "cj_type ob AND cJSON_IsReference = 0" and "cj_child ob = xs @ x # ys"
  shows "\<exists>a h' N2 T2. heap_get_array_item (Some par) (length xs) h = Inr (Some a) \<and>
    heap_DetachItemFromArray (Some par) (int (length xs)) h = Inr (Some a, h') \<and> N2 \<subseteq> N \<and> T2 \<subseteq> T \<and>
    chain h' None (Some par) [with_child (xs @ ys) ob] (N - N2) (T - T2) \<and> chain h' None (Some a) [x] N2 T2 \<and>
    agree (- N) UNIV h h'"
proof -
  obtain nd S pe a nx M1 S1 M2 S2 M3 S3 where c: "root h par ob nd S" "seg h None (jn_child nd) xs pe (Some a) M1 S1"
    "single h pe a x nx M2 S2" "chain h (Some a) nx ys M3 S3" and N: "N = insert par (M1 \<union> M2 \<union> M3)" "T = S \<union> S1 \<union> S2 \<union> S3"
    and d: "par \<notin> M1 \<union> M2 \<union> M3" "M1 \<inter> M2 = {}" "M1 \<inter> M3 = {}" "M2 \<inter> M3 = {}"
    "S \<inter> (S1 \<union> S2 \<union> S3) = {}" "S1 \<inter> S2 = {}" "S1 \<inter> S3 = {}" "S2 \<inter> S3 = {}" by (rule root_at [OF assms])
  from placed_at [OF c d(1-4)] obtain na where na: "placed h par nd a na" "jn_prev na = pe" "jn_next na = nx" "a \<in> M2"
    "set_option pe \<subseteq> M1" "set_option nx \<subseteq> M3" by blast
  let ?A = "{a, par} \<union> set_option pe \<union> set_option nx"
  from detach_nodes [OF na(1-3)] obtain h' where h': "heap_DetachItemViaPointer (Some par) (Some a) h = Inr (Some a, h')"
    "jn h' a = Some (na\<lparr>jn_next := None, jn_prev := None\<rparr>)" "left_ok h par nd pe nx h'" "right_ok h nx pe h'" "others h ?A h'" by blast
  note get = heap_get_array_item_at [OF c(1,2)]
  have "seg h' None (if pe = None then nx else jn_child nd) xs pe nx M1 S1"
    by (rule seg_left [OF c(2) h'(3,5)]) (use d na in auto)
  moreover have "chain h' pe nx ys M3 S3" by (rule chain_right [OF c(4) h'(4,5)]) (use d na in auto)
  ultimately have "chain h' None (Some par) [with_child (xs @ ys) ob] (insert par (M1 \<union> M3)) (S \<union> (S1 \<union> S3))"
    by (rule root_relinked [OF c(1) _ _ h'(3)]) (use d h'(5) in \<open>auto simp: others_def\<close>)
  moreover have "insert par (M1 \<union> M3) = N - M2" "S \<union> (S1 \<union> S3) = T - S2" using N d by auto
  moreover have "chain h' None (Some a) [x] M2 S2"
    unfolding chain_one
    by (rule single_moved [OF c(3) others_agree [OF h'(5)] _ h'(2)]) (use d na in \<open>simp_all add: placed_def\<close>, blast)
  moreover have "agree (- N) UNIV h h'" by (rule others_agree [OF h'(5)]) (use N(1) na(4-6) in blast)
  moreover have "heap_DetachItemFromArray (Some par) (int (length xs)) h = Inr (Some a, h')"
    using get h'(1) by (simp add: heap_DetachItemFromArray_def)
  moreover have "M2 \<subseteq> N" "S2 \<subseteq> T" using N by blast+
  ultimately show ?thesis using get by (metis (no_types, lifting))
qed

lemma insert_chain:
  assumes "chain h None (Some par) [ob] N T" and "cj_type ob AND cJSON_IsReference = 0" and "cj_child ob = xs @ x # ys"
    and "chain h None (Some n) [y] N' T'" and "N \<inter> N' = {}" and "T \<inter> T' = {}"
  shows "\<exists>h'. heap_InsertItemInArray (Some par) (int (length xs)) (Some n) h = Some (Inr h') \<and>
    chain h' None (Some par) [with_child (xs @ y # x # ys) ob] (N \<union> N') (T \<union> T') \<and> agree (- (N \<union> N')) UNIV h h'"
proof -
  obtain nd S pe a nx M1 S1 M2 S2 M3 S3 where c: "root h par ob nd S" "seg h None (jn_child nd) xs pe (Some a) M1 S1"
    "single h pe a x nx M2 S2" "chain h (Some a) nx ys M3 S3" and N: "N = insert par (M1 \<union> M2 \<union> M3)" "T = S \<union> S1 \<union> S2 \<union> S3"
    and d: "par \<notin> M1 \<union> M2 \<union> M3" "M1 \<inter> M2 = {}" "M1 \<inter> M3 = {}" "M2 \<inter> M3 = {}"
    "S \<inter> (S1 \<union> S2 \<union> S3) = {}" "S1 \<inter> S2 = {}" "S1 \<inter> S3 = {}" "S2 \<inter> S3 = {}" by (rule root_at [OF assms(1-3)])
  from placed_at [OF c d(1-4)] obtain na where na: "placed h par nd a na" "jn_prev na = pe" "jn_next na = nx" "a \<in> M2"
    "set_option pe \<subseteq> M1" "set_option nx \<subseteq> M3" by blast
  have sy: "single h None n y None N' T'" using assms(4) by (simp add: chain_one)
  from single_node [OF sy] obtain nn where nn: "n \<in> N'" "jn h n = Some nn" by blast
  have ne: "n \<notin> N" using nn(1) assms(5) by auto
  let ?A = "{a, par, n} \<union> set_option pe"
  have ineq: "n \<noteq> a" "n \<noteq> par" "pe \<noteq> Some n" using ne N(1) na(4,5) by auto
  from insert_nodes [OF na(1,2) nn(2) ineq heap_get_array_item_at [OF c(1,2)]] obtain h' where
    h': "heap_InsertItemInArray (Some par) (int (length xs)) (Some n) h = Some (Inr h')"
    "jn h' n = Some (nn\<lparr>jn_next := Some a, jn_prev := pe\<rparr>)" "left_ok h par nd pe (Some n) h'"
    "right_ok h (Some a) (Some n) h'" "others h ?A h'" by blast
  have dis: "M1 \<inter> N' = {}" "M2 \<inter> N' = {}" "M3 \<inter> N' = {}" "par \<notin> N'" "S \<inter> T' = {}" "S1 \<inter> T' = {}" "S2 \<inter> T' = {}" "S3 \<inter> T' = {}"
    using assms(5,6) N by auto
  have tail: "chain h pe (Some a) (x # ys) (M2 \<union> M3) (S2 \<union> S3)" by (rule chain_single [OF c(3,4) d(4,8)])
  have "chain h' (Some n) (Some a) (x # ys) (M2 \<union> M3) (S2 \<union> S3)"
    by (rule chain_right [OF tail h'(4,5)]) (use d na dis nn(1) in auto)
  moreover have "single h' pe n y (Some a) N' T'"
    by (rule single_moved [OF sy others_agree [OF h'(5)] nn(2) h'(2)]) (use dis na(4-6) in blast)
  ultimately have "chain h' pe (Some n) (y # x # ys) (N' \<union> (M2 \<union> M3)) (T' \<union> (S2 \<union> S3))"
    using dis by (intro chain_single) auto
  moreover have "seg h' None (if pe = None then Some n else jn_child nd) xs pe (Some n) M1 S1"
    by (rule seg_left [OF c(2) h'(3,5)]) (use d na dis nn(1) in auto)
  ultimately have "chain h' None (Some par) [with_child (xs @ y # x # ys) ob] (insert par (M1 \<union> (N' \<union> (M2 \<union> M3)))) (S \<union> (S1 \<union> (T' \<union> (S2 \<union> S3))))"
    using d dis h'(5) by (intro root_relinked [OF c(1) _ _ h'(3)]) (auto simp: others_def)
  moreover have "insert par (M1 \<union> (N' \<union> (M2 \<union> M3))) = N \<union> N'" "S \<union> (S1 \<union> (T' \<union> (S2 \<union> S3))) = T \<union> T'" using N by auto
  moreover have "agree (- (N \<union> N')) UNIV h h'" using h'(5) N(1) na(4,5) nn(1) by (auto simp: others_def agree_def)
  ultimately show ?thesis using h'(1) by (intro exI [of _ h']) simp
qed

text \<open>Behind the end an insertion appends.\<close>

lemma insert_end_chain:
  assumes "chain h None (Some par) [ob] N T" and "cj_type ob AND cJSON_IsReference = 0" and "length (cj_child ob) \<le> k"
    and "chain h None (Some n) [y] N' T'" and "N \<inter> N' = {}" and "T \<inter> T' = {}"
  shows "\<exists>h'. heap_InsertItemInArray (Some par) (int k) (Some n) h = Some (Inr h') \<and>
    chain h' None (Some par) [with_child (cj_child ob @ [y]) ob] (N \<union> N') (T \<union> T') \<and> agree (- (N \<union> N')) UNIV h h'"
proof -
  from heap_add_item_chain [OF assms(1,4-6,2)] obtain h' where h': "heap_add_item (Some par) (Some n) h = Some (Inr (True, h'))"
    "agree (- (N \<union> N')) UNIV h h'" "chain h' None (Some par) [with_child (cj_child ob @ [y]) ob] (N \<union> N') (T \<union> T')" by blast
  with heap_get_array_item_beyond [OF assms(1-3)] show ?thesis
    by (intro exI [of _ h']) (simp add: heap_InsertItemInArray_def)
qed

lemma replace_chain:
  assumes "chain h None (Some par) [ob] N T" and "cj_type ob AND cJSON_IsReference = 0" and "cj_child ob = xs @ x # ys"
    and "chain h None (Some n) [y] N' T'" and "N \<inter> N' = {}" and "T \<inter> T' = {}"
  shows "\<exists>h' N2 T2. heap_ReplaceItemInArray (Some par) (int (length xs)) (Some n) h = Some (Inr h') \<and> N2 \<subseteq> N \<and> T2 \<subseteq> T \<and> N2 \<noteq> {} \<and>
    chain h' None (Some par) [with_child (xs @ y # ys) ob] (N - N2 \<union> N') (T - T2 \<union> T') \<and>
    (\<forall>z \<in> N2. jn h' z = None) \<and> (\<forall>z \<in> T2. jt h' z = None) \<and> agree (- (N \<union> N')) (- T2) h h'"
proof -
  obtain nd S pe a nx M1 S1 M2 S2 M3 S3 where c: "root h par ob nd S" "seg h None (jn_child nd) xs pe (Some a) M1 S1"
    "single h pe a x nx M2 S2" "chain h (Some a) nx ys M3 S3" and N: "N = insert par (M1 \<union> M2 \<union> M3)" "T = S \<union> S1 \<union> S2 \<union> S3"
    and d: "par \<notin> M1 \<union> M2 \<union> M3" "M1 \<inter> M2 = {}" "M1 \<inter> M3 = {}" "M2 \<inter> M3 = {}"
    "S \<inter> (S1 \<union> S2 \<union> S3) = {}" "S1 \<inter> S2 = {}" "S1 \<inter> S3 = {}" "S2 \<inter> S3 = {}" by (rule root_at [OF assms(1-3)])
  from placed_at [OF c d(1-4)] obtain na where na: "placed h par nd a na" "jn_prev na = pe" "jn_next na = nx" "a \<in> M2"
    "set_option pe \<subseteq> M1" "set_option nx \<subseteq> M3" by blast
  have sy: "single h None n y None N' T'" using assms(4) by (simp add: chain_one)
  from single_node [OF sy] obtain nn where nn: "n \<in> N'" "jn h n = Some nn" by blast
  have ne: "n \<notin> N" using nn(1) assms(5) by auto
  let ?A = "{a, par, n} \<union> set_option pe \<union> set_option nx"
  have ineq: "n \<noteq> a" "n \<noteq> par" "pe \<noteq> Some n" "nx \<noteq> Some n" using ne N(1) na(4-6) by auto
  from replace_nodes [OF na(1-3) nn(2) ineq] obtain h1 where
    h1: "heap_ReplaceItemViaPointer (Some par) (Some a) (Some n) h =
      map_option (\<lambda>x. res_bind x (\<lambda>h''. Inr (True, h''))) (heap_Delete (Some a) h1)"
    "jn h1 a = Some (na\<lparr>jn_next := None, jn_prev := None\<rparr>)" "jn h1 n = Some (nn\<lparr>jn_next := nx, jn_prev := pe\<rparr>)"
    "left_ok h par nd pe (Some n) h1" "right_ok h nx (Some n) h1" "others h ?A h1" by blast
  have dis: "M1 \<inter> N' = {}" "M2 \<inter> N' = {}" "M3 \<inter> N' = {}" "par \<notin> N'" "S \<inter> T' = {}" "S1 \<inter> T' = {}" "S2 \<inter> T' = {}" "S3 \<inter> T' = {}"
    using assms(5,6) N by auto
  have "chain h1 (Some n) nx ys M3 S3" by (rule chain_right [OF c(4) h1(5,6)]) (use d na dis nn(1) in auto)
  moreover have "single h1 pe n y nx N' T'"
    by (rule single_moved [OF sy others_agree [OF h1(6)] nn(2) h1(3)]) (use dis na(4-6) in blast)
  ultimately have "chain h1 pe (Some n) (y # ys) (N' \<union> M3) (T' \<union> S3)" using dis by (intro chain_single) auto
  moreover have "seg h1 None (if pe = None then Some n else jn_child nd) xs pe (Some n) M1 S1"
    by (rule seg_left [OF c(2) h1(4,6)]) (use d na dis nn(1) in auto)
  ultimately have new: "chain h1 None (Some par) [with_child (xs @ y # ys) ob] (insert par (M1 \<union> (N' \<union> M3))) (S \<union> (S1 \<union> (T' \<union> S3)))"
    using d dis h1(6) by (intro root_relinked [OF c(1) _ _ h1(4)]) (auto simp: others_def)
  have "(M2 - {a}) \<inter> ?A = {}" using d(1-4) na(5,6) dis(2) nn(1) by blast
  then have "agree (M2 - {a}) S2 h h1" by (rule others_agree [OF h1(6)])
  then have "single h1 None a x None M2 S2"
    by (rule single_moved [OF c(3) _ _ h1(2)]) (use na(1) in \<open>simp add: placed_def\<close>)
  then have del: "heap_Delete (Some a) h1 = Some (Inr (without M2 S2 h1))"
    by (intro heap_Delete_chain [where h = h1 and N = M2 and T = S2 and xs = "[x]" and prev = None]) (simp_all add: chain_one agree_def)
  let ?h2 = "without M2 S2 h1"
  have "chain ?h2 None (Some par) [with_child (xs @ y # ys) ob] (insert par (M1 \<union> (N' \<union> M3))) (S \<union> (S1 \<union> (T' \<union> S3)))"
    by (rule chain_frame [OF new], rule agree_without) (use d dis in \<open>auto simp: agree_def\<close>)
  moreover have "insert par (M1 \<union> (N' \<union> M3)) = N - M2 \<union> N'" "S \<union> (S1 \<union> (T' \<union> S3)) = T - S2 \<union> T'" using N d dis by auto
  moreover have "agree (- (N \<union> N')) (- S2) h ?h2"
    using h1(6) N(1) na(4-6) nn(1) by (auto simp: others_def agree_def restrict_map_def)
  moreover have "heap_ReplaceItemInArray (Some par) (int (length xs)) (Some n) h = Some (Inr ?h2)"
    using heap_get_array_item_at [OF c(1,2)] h1(1) del by (simp add: heap_ReplaceItemInArray_def)
  ultimately show ?thesis using N na(4)
    by (intro exI [of _ ?h2] exI [of _ M2] exI [of _ S2]) (auto simp: restrict_map_def)
qed

section \<open>Names\<close>

definition key_text :: "'d jnode \<Rightarrow> 'd jheap \<Rightarrow> bytes option res" where
  "key_text nd h =
     (case jn_string nd of None \<Rightarrow> Inr None
      | Some x \<Rightarrow> (case (if jn_type nd AND cJSON_StringIsConst = 0 then jt h x else jl h x) of
                     None \<Rightarrow> Inl UseAfterFree | Some t \<Rightarrow> Inr (Some t)))"

partial_function (option) heap_find_name :: "bytes \<Rightarrow> bool \<Rightarrow> nat option \<Rightarrow> 'd jheap \<Rightarrow> nat option res option" where
  "heap_find_name name sens child h =
     (case child of None \<Rightarrow> Some (Inr None)
      | Some a \<Rightarrow>
          (case res_bind (node h a) (\<lambda>nd. res_bind (key_text nd h) (\<lambda>t.
                  if sens then (case t of None \<Rightarrow> Inl NullDeref | Some s \<Rightarrow> Inr (s = name, jn_next nd))
                  else Inr (case_insensitive_strcmp (Some name) t = 0, jn_next nd))) of
             Inl e \<Rightarrow> Some (Inl e)
           | Inr (found, nx) \<Rightarrow> if found then Some (Inr (Some a)) else heap_find_name name sens nx h))"

definition heap_get_object_item :: "nat option \<Rightarrow> bytes option \<Rightarrow> bool \<Rightarrow> 'd jheap \<Rightarrow> nat option res option" where
  "heap_get_object_item obj name sens h =
     (case (obj, name) of
        (Some a, Some n) \<Rightarrow> (case node h a of Inl e \<Rightarrow> Some (Inl e) | Inr nd \<Rightarrow> heap_find_name n sens (jn_child nd) h)
      | _ \<Rightarrow> Some (Inr None))"

definition heap_DetachItemFromObject :: "nat option \<Rightarrow> bytes option \<Rightarrow> bool \<Rightarrow> 'd jheap \<Rightarrow> (nat option \<times> 'd jheap) res option" where
  "heap_DetachItemFromObject obj name sens h =
     map_option (\<lambda>r. res_bind r (\<lambda>i. heap_DetachItemViaPointer obj i h)) (heap_get_object_item obj name sens h)"

lemma find_name_ge: "find_name name sens xs j = Inr (Some k) \<Longrightarrow> j \<le> k \<and> k < j + length xs"
  by (induction xs arbitrary: j) (fastforce split: if_splits option.splits)+

lemma single_key:
  assumes "single h prev a x nx N T"
  shows "\<exists>nd. jn h a = Some nd \<and> jn_next nd = nx \<and> key_text nd h = Inr (cj_string x)"
proof -
  from assms obtain nd vs nm cs T2 where nd: "jn h a = Some nd" "jn_next nd = nx"
    "x = CJ (jn_type nd) vs (jn_valueint nd) (jn_valuedouble nd) nm cs"
    "text_at h (jn_type nd AND cJSON_StringIsConst = 0) (jn_string nd) nm T2" unfolding single_def by blast
  then show ?thesis by (auto simp: key_text_def text_at_def split: option.splits if_splits)
qed

text \<open>The walk over the nodes finds the node of the member that the search over the values finds.\<close>

lemma heap_find_name_chain:
  "chain h prev p xs N T \<Longrightarrow> heap_find_name name sens p h =
     Some (res_bind (find_name name sens xs j) (\<lambda>r. case r of None \<Rightarrow> Inr None | Some k \<Rightarrow> walk (k - j) p h))"
proof (induction xs arbitrary: prev p N T j)
  case Nil
  then show ?case by (simp add: heap_find_name.simps)
next
  case (Cons x xs)
  then obtain a where p: "p = Some a" by (cases p) auto
  from Cons.prems [unfolded p] obtain nx N1 T1 N2 T2 where f: "single h prev a x nx N1 T1" "chain h (Some a) nx xs N2 T2"
    by (auto elim: chain_first)
  from single_key [OF f(1)] obtain nd where nd: "jn h a = Some nd" "jn_next nd = nx" "key_text nd h = Inr (cj_string x)" by blast
  have shift: "(case r of None \<Rightarrow> Inr None | Some k \<Rightarrow> walk (k - Suc j) nx h) = (case r of None \<Rightarrow> Inr None | Some k \<Rightarrow> walk (k - j) p h)"
    if "find_name name sens xs (Suc j) = Inr r" for r
  proof (cases r)
    case (Some k)
    then have "Suc j \<le> k" using find_name_ge [of name sens xs "Suc j" k] that by simp
    then have "k - j = Suc (k - Suc j)" by simp
    then show ?thesis using Some p nd by (simp add: node_def)
  qed simp
  have rest: "heap_find_name name sens nx h =
      Some (res_bind (find_name name sens xs (Suc j)) (\<lambda>r. case r of None \<Rightarrow> Inr None | Some k \<Rightarrow> walk (k - j) p h))"
    unfolding Cons.IH [OF f(2), of "Suc j"] using shift by (cases "find_name name sens xs (Suc j)") simp_all
  have p0: "walk 0 p h = Inr (Some a)" using p by simp
  show ?case
    unfolding p
    by (subst heap_find_name.simps) (use nd rest p in \<open>auto simp: node_def split: option.splits\<close>)
qed

lemma heap_get_object_item_value:
  assumes "chain h None (Some par) [ob] N T" and "cj_type ob AND cJSON_IsReference = 0"
  shows "heap_get_object_item (Some par) (Some name) sens h =
    Some (res_bind (get_object_item (Some ob) (Some name) sens) (\<lambda>r. case r of None \<Rightarrow> Inr None
      | Some k \<Rightarrow> heap_get_array_item (Some par) k h))"
proof -
  obtain nd S M S' where r: "root h par ob nd S" "chain h None (jn_child nd) (cj_child ob) M S'"
    by (rule root_open [OF assms])
  from heap_find_name_chain [OF r(2), of name sens 0] r(1) show ?thesis
    by (simp add: heap_get_object_item_def get_object_item_def root_def node_def heap_get_array_item_def cong: option.case_cong)
qed

text \<open>Detaching by name.\<close>

lemma detach_by_name:
  assumes "chain h None (Some par) [ob] N T" and "cj_type ob AND cJSON_IsReference = 0"
    and "get_object_item (Some ob) (Some name) sens = Inr (Some k)"
  shows "\<exists>a h' N2 T2. heap_DetachItemFromObject (Some par) (Some name) sens h = Some (Inr (Some a, h')) \<and> N2 \<subseteq> N \<and> T2 \<subseteq> T \<and>
    chain h' None (Some par) [with_child (take k (cj_child ob) @ drop (Suc k) (cj_child ob)) ob] (N - N2) (T - T2) \<and>
    chain h' None (Some a) [cj_child ob ! k] N2 T2 \<and> agree (- N) UNIV h h'"
proof -
  have k: "k < length (cj_child ob)" using assms(3) find_name_ge by (fastforce simp: get_object_item_def)
  from detach_chain [OF assms(1,2) id_take_nth_drop [OF k]] k obtain a h' N2 T2 where
    d: "heap_get_array_item (Some par) k h = Inr (Some a)" "heap_DetachItemFromArray (Some par) (int k) h = Inr (Some a, h')"
    "N2 \<subseteq> N" "T2 \<subseteq> T" "chain h' None (Some par) [with_child (take k (cj_child ob) @ drop (Suc k) (cj_child ob)) ob] (N - N2) (T - T2)"
    "chain h' None (Some a) [cj_child ob ! k] N2 T2" "agree (- N) UNIV h h'" by auto
  from d(1,2) have "heap_DetachItemViaPointer (Some par) (Some a) h = Inr (Some a, h')" by (simp add: heap_DetachItemFromArray_def)
  with d(1) heap_get_object_item_value [OF assms(1,2), of name sens] assms(3)
  have "heap_DetachItemFromObject (Some par) (Some name) sens h = Some (Inr (Some a, h'))"
    by (simp add: heap_DetachItemFromObject_def)
  with d(3-7) show ?thesis by blast
qed

section \<open>References\<close>

text \<open>\<open>r\<close> is the address of the new node; a reference shares the texts and the children of the item.\<close>

definition heap_create_reference :: "nat option \<Rightarrow> nat option \<Rightarrow> 'd jheap \<Rightarrow> (nat option \<times> 'd jheap) res" where
  "heap_create_reference r item h =
     (case item of None \<Rightarrow> Inr (None, h)
      | Some a \<Rightarrow>
          (case r of None \<Rightarrow> Inr (None, h)
           | Some b \<Rightarrow> res_bind (node h a) (\<lambda>nd. Inr (Some b, h\<lparr>jn := (jn h)(b \<mapsto>
               nd\<lparr>jn_string := None, jn_type := jn_type nd OR cJSON_IsReference, jn_next := None, jn_prev := None\<rparr>)\<rparr>))))"

lemma reference_bit: "(t OR (256::int)) AND 256 \<noteq> 0"
proof
  assume "(t OR 256) AND (256::int) = 0"
  then have "bit ((t OR 256) AND (256::int)) 8 = False" by simp
  then show False by (simp add: bit_simps)
qed

text \<open>The reference is an item of one node that owns no text: deleting it frees that node and leaves the store as it was.\<close>

lemma reference_owns_nothing:
  assumes "chain h None (Some a) [x] N T" and "jn h b = None"
  shows "\<exists>h'. heap_create_reference (Some b) (Some a) h = Inr (Some b, h') \<and>
    chain h' None (Some b) [the (create_reference (Some x))] {b} {} \<and> chain h' None (Some a) [x] N T \<and>
    heap_Delete (Some b) h' = Some (Inr h)"
proof -
  have "single h None a x None N T" using assms(1) by (simp add: chain_one)
  then obtain nd vs nm cs where nd: "jn h a = Some nd" "x = CJ (jn_type nd) vs (jn_valueint nd) (jn_valuedouble nd) nm cs"
    unfolding single_def by blast
  let ?r = "nd\<lparr>jn_string := None, jn_type := jn_type nd OR cJSON_IsReference, jn_next := None, jn_prev := None\<rparr>"
  let ?h = "h\<lparr>jn := (jn h)(b \<mapsto> ?r)\<rparr>"
  have c: "heap_create_reference (Some b) (Some a) h = Inr (Some b, ?h)"
    using nd(1) by (simp add: heap_create_reference_def node_def)
  have "single ?h None b (the (create_reference (Some x))) None {b} {}"
    unfolding single_def using nd(2) reference_bit
    by (intro exI [of _ ?r] exI [of _ vs] exI [of _ None] exI [of _ cs] exI [of _ "{}"])
      (simp add: create_reference_def with_string_def with_type_def text_at_def)
  then have r: "chain ?h None (Some b) [the (create_reference (Some x))] {b} {}" by (simp add: chain_one)
  have "b \<notin> N" using chain_allocated [OF assms(1)] assms(2) by auto
  then have i: "chain ?h None (Some a) [x] N T" by (intro chain_frame [OF assms(1)]) (auto simp: agree_def)
  have "without {b} {} ?h = h" using assms(2) by (auto simp: without_def fun_eq_iff restrict_map_def intro!: jheap.equality)
  with heap_Delete_chain [OF r, of ?h] have "heap_Delete (Some b) ?h = Some (Inr h)" by (simp add: agree_def)
  with c r i show ?thesis by blast
qed

section \<open>Property\<close>

text \<open>
  Property C25: The pointer code edits the values.  For an array or object in memory, an index inside it and another item in memory,
  the pointer code of detaching, inserting and replacing does what the operations on values do: detaching gives
  the nodes of the item and of the parent without it, inserting and replacing those of the parent with the new
  item, every node being used once; what replacing takes out is freed, whole; no other node or text changes.
\<close>
theorem json_memory_edit:
  assumes "chain h None (Some par) [ob] N T" and "cj_type ob AND cJSON_IsReference = 0" and "k < length (cj_child ob)"
    and "chain h None (Some n) [y] N' T'" and "N \<inter> N' = {}" and "T \<inter> T' = {}"
  shows "(\<exists>a h' v ob' N2 T2. heap_DetachItemFromArray (Some par) (int k) h = Inr (Some a, h') \<and>
      cJSON_DetachItemFromArray (Some ob) (int k) = (Some v, Some ob') \<and> N2 \<subseteq> N \<and> T2 \<subseteq> T \<and>
      chain h' None (Some par) [ob'] (N - N2) (T - T2) \<and> chain h' None (Some a) [v] N2 T2 \<and> agree (- N) UNIV h h') \<and>
    (\<exists>h' ob'. heap_InsertItemInArray (Some par) (int k) (Some n) h = Some (Inr h') \<and>
      cJSON_InsertItemInArray (Some ob) (int k) (Some y) = Inr (Some ob') \<and>
      chain h' None (Some par) [ob'] (N \<union> N') (T \<union> T') \<and> agree (- (N \<union> N')) UNIV h h') \<and>
    (\<exists>h' ob' N2 T2. heap_ReplaceItemInArray (Some par) (int k) (Some n) h = Some (Inr h') \<and>
      cJSON_ReplaceItemInArray (Some ob) (int k) (Some y) = Some ob' \<and> N2 \<subseteq> N \<and> T2 \<subseteq> T \<and> N2 \<noteq> {} \<and>
      chain h' None (Some par) [ob'] (N - N2 \<union> N') (T - T2 \<union> T') \<and>
      (\<forall>z \<in> N2. jn h' z = None) \<and> (\<forall>z \<in> T2. jt h' z = None) \<and> agree (- (N \<union> N')) (- T2) h h')"
proof -
  let ?xs = "take k (cj_child ob)" and ?x = "cj_child ob ! k" and ?ys = "drop (Suc k) (cj_child ob)"
  have c: "cj_child ob = ?xs @ ?x # ?ys" using assms(3) by (rule id_take_nth_drop)
  have k: "length ?xs = k" using assms(3) by simp
  have v: "cJSON_DetachItemFromArray (Some ob) (int k) = (Some ?x, Some (with_child (?xs @ ?ys) ob))"
    "cJSON_InsertItemInArray (Some ob) (int k) (Some y) = Inr (Some (with_child (?xs @ y # ?x # ?ys) ob))"
    "cJSON_ReplaceItemInArray (Some ob) (int k) (Some y) = Some (with_child (?xs @ y # ?ys) ob)"
    using assms(3) c
    by (simp_all add: cJSON_DetachItemFromArray_def cJSON_DetachItemViaPointer_def cJSON_InsertItemInArray_def
        cJSON_ReplaceItemInArray_def cJSON_ReplaceItemViaPointer_def get_array_item_def Cons_nth_drop_Suc upd_conv_take_nth_drop)
  from detach_chain [OF assms(1,2) c] insert_chain [OF assms(1,2) c assms(4-6)] replace_chain [OF assms(1,2) c assms(4-6)]
  show ?thesis unfolding k v by blast
qed

theorem json_memory_edit_witness:
  "(\<exists>a h' N2 T2. heap_DetachItemFromArray (Some 1) (int 0) ex_heap = Inr (Some a, h') \<and>
      chain h' None (Some 1) [CJ 64 None 0 0 None []] ({1, 2} - N2) ({5} - T2) \<and>
      chain h' None (Some a) [CJ 528 (Some ''rf'') 0 0 (Some ''dst'') []] N2 T2) \<and>
   (\<exists>h'. heap_InsertItemInArray (Some 1) (int 0) (Some 3) ex_heap = Some (Inr h') \<and>
      chain h' None (Some 1) [CJ 64 None 0 0 None [CJ 8 None 3 3 (Some ''n'') [], CJ 528 (Some ''rf'') 0 0 (Some ''dst'') []]]
        ({1, 2} \<union> {3}) ({5} \<union> {6})) \<and>
   (\<exists>h' N2 T2. heap_ReplaceItemInArray (Some 1) (int 0) (Some 3) ex_heap = Some (Inr h') \<and> N2 \<noteq> {} \<and>
      chain h' None (Some 1) [CJ 64 None 0 0 None [CJ 8 None 3 3 (Some ''n'') []]] ({1, 2} - N2 \<union> {3}) ({5} - T2 \<union> {6}) \<and>
      (\<forall>z \<in> N2. jn h' z = None))"
proof -
  let ?ob = "CJ 64 None 0 0 None [CJ 528 (Some ''rf'') 0 0 (Some ''dst'') []] :: int cJSON" and ?y = "CJ 8 None 3 3 (Some ''n'') [] :: int cJSON"
  have v: "cJSON_DetachItemFromArray (Some ?ob) (int 0) = (Some (CJ 528 (Some ''rf'') 0 0 (Some ''dst'') []), Some (CJ 64 None 0 0 None []))"
    "cJSON_InsertItemInArray (Some ?ob) (int 0) (Some ?y) = Inr (Some (CJ 64 None 0 0 None [?y, CJ 528 (Some ''rf'') 0 0 (Some ''dst'') []]))"
    "cJSON_ReplaceItemInArray (Some ?ob) (int 0) (Some ?y) = Some (CJ 64 None 0 0 None [?y])"
    by (simp_all add: cJSON_DetachItemFromArray_def cJSON_DetachItemViaPointer_def cJSON_InsertItemInArray_def
        cJSON_ReplaceItemInArray_def cJSON_ReplaceItemViaPointer_def get_array_item_def with_child_CJ)
  note e = json_memory_edit [OF ex_heap_chains(1) _ _ ex_heap_chains(2), of 0, unfolded v]
  show ?thesis using e by (simp only: prod.inject sum.inject option.inject) auto
qed

end
