(* ===== verification/GW_Mon.thy ===== *)
theory GW_Mon
  imports GW_Prelude
begin

text \<open>
  The processes of the monitor (\<open>src/code/example/mon.c\<close>): starting them from a table, noticing which have ended, and
  ending all of them.

  The header with the table's structure (\<open>mon.h\<close>) and \<open>kill_process\<close> are not in the repository: an entry has the members
  \<open>mon.c\<close> uses, the function is a parameter.  The kernel's side is the documented behaviour of \<open>vfork\<close>, \<open>waitpid\<close> and \<open>kill\<close>.
\<close>

unbundle bit_operations_syntax

section \<open>The processes\<close>

record excel_s =
  ex_pid :: int
  ex_command :: bytes

text \<open>
  The monitor's children: the process and whether it has ended and waits to be collected.  Where \<open>waitpid\<close> may choose a child it takes the
  first of the list.  All children are in the monitor's process group (\<open>setsid\<close> is commented out).
\<close>

type_synonym kids = "(int \<times> bool) list"

definition reap :: "int \<Rightarrow> kids \<Rightarrow> kids" where
  "reap p ks = filter (\<lambda>k. fst k \<noteq> p) ks"

definition waitpid_nohang :: "int \<Rightarrow> kids \<Rightarrow> int \<times> kids" where
  "waitpid_nohang p ks =
     (if p = - 1 \<or> p = 0 then
        (case filter snd ks of
           k # _ \<Rightarrow> (fst k, reap (fst k) ks)
         | [] \<Rightarrow> (if ks = [] then - 1 else 0, ks))
      else case map_of ks p of
             None \<Rightarrow> (- 1, ks)
           | Some ended \<Rightarrow> if ended then (p, reap p ks) else (0, ks))"

text \<open>Without \<open>WNOHANG\<close> the call blocks, which is \<open>None\<close>, while there are children and none has ended.\<close>

definition waitpid_any :: "bool \<Rightarrow> kids \<Rightarrow> (int \<times> kids) option" where
  "waitpid_any nohang ks =
     (if \<not> nohang \<and> ks \<noteq> [] \<and> filter snd ks = [] then None else Some (waitpid_nohang (- 1) ks))"

fun mark_terminated :: "int \<Rightarrow> excel_s list \<Rightarrow> kids \<Rightarrow> int \<times> excel_s list \<times> kids" where
  "mark_terminated pid [] ks = (0, [], ks)"
| "mark_terminated pid (r # rs) ks =
     (let (hit, ks1) = (if ex_pid r = pid then (True, ks)
                        else let (w, ks') = waitpid_nohang (ex_pid r) ks in (ex_pid r = w, ks'));
          (n, rs', ks2) = mark_terminated pid rs ks1
      in if hit then (n + 1, r\<lparr>ex_pid := - 1\<rparr> # rs', ks2) else (n, r # rs', ks2))"

definition process_mon :: "bool \<Rightarrow> excel_s list \<Rightarrow> kids \<Rightarrow> (int \<times> excel_s list \<times> kids) option" where
  "process_mon nohang rs ks =
     map_option (\<lambda>(wpid, ks1). if wpid > 0 then mark_terminated wpid rs ks1 else (0, rs, ks1)) (waitpid_any nohang ks)"

text \<open>\<open>kill\<close> is what the call of that name answers for a process; the processes signalled are the last result.\<close>

fun kill_loop :: "(int \<Rightarrow> int) \<Rightarrow> int \<Rightarrow> excel_s list \<Rightarrow> int \<times> excel_s list \<times> int list" where
  "kill_loop kill ret [] = (ret, [], [])"
| "kill_loop kill ret (r # rs) =
     (if ex_pid r > 0 then
        (let (ret', rs', ps) = kill_loop kill (ret OR kill (ex_pid r)) rs
         in (ret', r\<lparr>ex_pid := - 1\<rparr> # rs', ex_pid r # ps))
      else (let (ret', rs', ps) = kill_loop kill ret rs in (ret', r # rs', ps)))"

text \<open>Children that end in the 100 milliseconds \<open>kill_all\<close> sleeps, or while another call waits: \<open>dies\<close>.\<close>

definition end_children :: "int list \<Rightarrow> kids \<Rightarrow> kids" where
  "end_children dies ks = map (\<lambda>(p, e). (p, e \<or> p \<in> set dies)) ks"

definition kill_all :: "(int \<Rightarrow> int) \<Rightarrow> int list \<Rightarrow> excel_s list \<Rightarrow> kids \<Rightarrow> (int \<times> int list \<times> excel_s list \<times> kids) option" where
  "kill_all kill dies rs ks =
     (let (ret, rs1, ps) = kill_loop kill 0 rs
      in map_option (\<lambda>(_, rs2, ks2). (ret, ps, rs2, ks2)) (process_mon True rs1 (end_children dies ks)))"

text \<open>
  What starting a process meets: the answer of \<open>vfork\<close> in the parent, the children that end until \<open>waite_client_running\<close>
  returns, and its result.  \<open>kp\<close> is \<open>kill_process\<close>, which is not in the repository.
\<close>

record fork_env =
  fe_pid :: int
  fe_dies :: "int list"
  fe_waite :: int

text \<open>
  The loop stops at the first failure.  The failure is logged with the result of a call of \<open>process_mon\<close> on the whole table, \<open>pre\<close>
  being the part in front; it may take the child that \<open>kill_process\<close> is then given.
\<close>

fun run_actions ::
    "(int \<Rightarrow> bytes \<Rightarrow> kids \<Rightarrow> int \<times> kids) \<Rightarrow> fork_env list \<Rightarrow> excel_s list \<Rightarrow> excel_s list \<Rightarrow> kids \<Rightarrow>
      (int \<times> excel_s list \<times> kids) option" where
  "run_actions kp es pre [] ks = Some (0, pre, ks)"
| "run_actions kp es pre (r # rs) ks =
     (if ex_pid r \<le> 0 then
        (case es of
           [] \<Rightarrow> None
         | e # es' \<Rightarrow>
             if fe_pid e < 0 then Some (fe_pid e, pre @ r\<lparr>ex_pid := fe_pid e\<rparr> # rs, ks)
             else (let ks1 = end_children (fe_dies e) (ks @ [(fe_pid e, False)]);
                       r1 = r\<lparr>ex_pid := fe_pid e\<rparr>
                   in if fe_waite e \<noteq> 0 then
                        map_option (\<lambda>(_, tb, ks2).
                            let (p, ks3) = kp (ex_pid (tb ! length pre)) (ex_command r) ks2
                            in (fe_waite e, tb[length pre := (tb ! length pre)\<lparr>ex_pid := p\<rparr>], ks3))
                          (process_mon True (pre @ r1 # rs) ks1)
                      else run_actions kp es' (pre @ [r1]) rs ks1))
      else run_actions kp es (pre @ [r]) rs ks)"

section \<open>Supervision\<close>

text \<open>Every process of the table runs or has just ended, and the monitor has no other child.\<close>

definition all_run :: "excel_s list \<Rightarrow> kids \<Rightarrow> bool" where
  "all_run rs ks \<longleftrightarrow> (\<forall>r \<in> set rs. 0 < ex_pid r) \<and> distinct (map ex_pid rs) \<and> distinct (map fst ks) \<and>
     ex_pid ` set rs = fst ` set ks"

definition mark_ended :: "kids \<Rightarrow> excel_s \<Rightarrow> excel_s" where
  "mark_ended ks r = (if (ex_pid r, True) \<in> set ks then r\<lparr>ex_pid := - 1\<rparr> else r)"

lemma ended_unique:
  assumes "distinct (map fst ks)" and "(p, e) \<in> set ks" and "k \<in> set ks" and "fst k = p"
  shows "k = (p, e)"
  using eq_key_imp_eq_value [OF assms(1,2), of "snd k"] assms(3,4) by (metis prod.collapse)

lemma waitpid_process:
  assumes "0 < p" and "distinct (map fst ks)"
  shows "waitpid_nohang p ks = (if (p, True) \<in> set ks then (p, reap p ks) else (if p \<in> fst ` set ks then 0 else - 1, ks))"
proof -
  have m: "map_of ks p = Some e \<longleftrightarrow> (p, e) \<in> set ks" for e using assms(2) by simp
  show ?thesis
  proof (cases "map_of ks p")
    case None
    then have "p \<notin> fst ` set ks" by (simp add: map_of_eq_None_iff)
    moreover from this have "(p, True) \<notin> set ks" by (auto simp: image_iff)
    ultimately show ?thesis using None assms(1) by (simp add: waitpid_nohang_def)
  next
    case (Some e)
    then have "(p, e) \<in> set ks" using m by simp
    then have "p \<in> fst ` set ks" "(p, True) \<in> set ks \<longleftrightarrow> e" using m [of True] Some by (force, auto)
    then show ?thesis using Some assms(1) by (simp add: waitpid_nohang_def)
  qed
qed

lemma mark_terminated_ended:
  assumes "\<forall>r \<in> set rs. 0 < ex_pid r" and "distinct (map ex_pid rs)" and "distinct (map fst ks)" and "pid \<notin> fst ` set ks"
  shows "mark_terminated pid rs ks =
    (int (length (filter (\<lambda>r. ex_pid r = pid \<or> (ex_pid r, True) \<in> set ks) rs)),
     map (mark_ended ((pid, True) # ks)) rs, filter (\<lambda>k. \<not> (snd k \<and> fst k \<in> ex_pid ` set rs)) ks)"
  using assms
proof (induction rs arbitrary: ks)
  case (Cons r rs)
  show ?case
  proof (cases "ex_pid r \<noteq> pid \<and> (ex_pid r, True) \<in> set ks")
    case True
    let ?ks = "reap (ex_pid r) ks"
    have sub: "set ?ks \<subseteq> set ks" by (auto simp: reap_def)
    have "ex_pid r \<notin> ex_pid ` set rs" using Cons.prems(2) by simp
    then have mem: "(ex_pid q, True) \<in> set ?ks \<longleftrightarrow> (ex_pid q, True) \<in> set ks" if "q \<in> set rs" for q
      using that imageI [of q "set rs" ex_pid] by (auto simp: reap_def simp del: image_eqI)
    have marks: "map (mark_ended ((pid, True) # ?ks)) rs = map (mark_ended ((pid, True) # ks)) rs"
      using mem by (auto simp: mark_ended_def)
    have one: "snd k" if "k \<in> set ks" "fst k = ex_pid r" for k
      using ended_unique [OF Cons.prems(3), of "ex_pid r" True k] True that by simp
    have left: "filter (\<lambda>k. \<not> (snd k \<and> fst k \<in> ex_pid ` set rs)) ?ks =
        filter (\<lambda>k. \<not> (snd k \<and> fst k \<in> ex_pid ` set (r # rs))) ks"
      unfolding reap_def filter_filter
      by (rule filter_cong) (use one in \<open>fastforce+\<close>)
    have "distinct (map fst ?ks)" "pid \<notin> fst ` set ?ks"
      using Cons.prems(3,4) sub by (auto simp: reap_def distinct_map_filter)
    from Cons.IH [OF _ _ this] Cons.prems(1,2) marks left
    have "mark_terminated pid rs ?ks = (int (length (filter (\<lambda>q. ex_pid q = pid \<or> (ex_pid q, True) \<in> set ks) rs)),
        map (mark_ended ((pid, True) # ks)) rs, filter (\<lambda>k. \<not> (snd k \<and> fst k \<in> ex_pid ` set (r # rs))) ks)"
      using mem by (simp cong: filter_cong)
    then show ?thesis using True Cons.prems(1,3) by (simp add: waitpid_process mark_ended_def)
  next
    case False
    have "\<not> (snd k \<and> fst k = ex_pid r)" if "k \<in> set ks" for k
      using False Cons.prems(4) that by (cases k) force
    then have left: "filter (\<lambda>k. \<not> (snd k \<and> fst k \<in> ex_pid ` set rs)) ks =
        filter (\<lambda>k. \<not> (snd k \<and> fst k \<in> ex_pid ` set (r # rs))) ks"
      by (intro filter_cong) auto
    from Cons.IH [OF _ _ Cons.prems(3,4)] Cons.prems(1,2) left
    have "mark_terminated pid rs ks = (int (length (filter (\<lambda>q. ex_pid q = pid \<or> (ex_pid q, True) \<in> set ks) rs)),
        map (mark_ended ((pid, True) # ks)) rs, filter (\<lambda>k. \<not> (snd k \<and> fst k \<in> ex_pid ` set (r # rs))) ks)"
      by simp
    then show ?thesis using False Cons.prems(1,3) by (auto simp: waitpid_process mark_ended_def Let_def)
  qed
qed simp

lemma process_mon_ended:
  assumes "all_run rs ks" and "process_mon nohang rs ks = Some (n, rs1, ks1)"
  shows "n = int (length (filter (\<lambda>r. (ex_pid r, True) \<in> set ks) rs)) \<and> rs1 = map (mark_ended ks) rs \<and>
    ks1 = filter (\<lambda>k. \<not> snd k) ks"
proof (cases "filter snd ks")
  case Nil
  then have none: "(p, True) \<notin> set ks" for p by (force simp: filter_empty_conv)
  have "filter (\<lambda>k. \<not> snd k) ks = ks" using Nil by (simp add: filter_empty_conv)
  then show ?thesis using assms(2) Nil none
    by (auto simp: process_mon_def waitpid_any_def waitpid_nohang_def mark_ended_def map_idI split: if_splits)
next
  case (Cons k z)
  then have "k \<in> set (filter snd ks)" by simp
  then have k: "k \<in> set ks" "snd k" by auto
  then have kt: "(fst k, True) \<in> set ks" by (metis prod.collapse)
  from assms(1) have run: "\<forall>r \<in> set rs. 0 < ex_pid r" "distinct (map ex_pid rs)" "distinct (map fst ks)"
    "ex_pid ` set rs = fst ` set ks" by (simp_all add: all_run_def)
  then have pos: "0 < fst k" using k(1) by (metis imageE imageI)
  have mem: "(p, True) \<in> set ((fst k, True) # reap (fst k) ks) \<longleftrightarrow> (p, True) \<in> set ks" for p
    using kt by (auto simp: reap_def)
  have d: "distinct (map fst (reap (fst k) ks))" "fst k \<notin> fst ` set (reap (fst k) ks)"
    using run(3) by (auto simp: reap_def distinct_map_filter)
  have "process_mon nohang rs ks = Some (mark_terminated (fst k) rs (reap (fst k) ks))"
    using Cons pos by (simp add: process_mon_def waitpid_any_def waitpid_nohang_def)
  also have "\<dots> = Some (int (length (filter (\<lambda>r. (ex_pid r, True) \<in> set ks) rs)), map (mark_ended ks) rs,
      filter (\<lambda>c. \<not> (snd c \<and> fst c \<in> ex_pid ` set rs)) (reap (fst k) ks))"
    using mem by (simp add: mark_terminated_ended [OF run(1,2) d] mark_ended_def cong: filter_cong)
  also have "filter (\<lambda>c. \<not> (snd c \<and> fst c \<in> ex_pid ` set rs)) (reap (fst k) ks) = filter (\<lambda>c. \<not> snd c) ks"
    unfolding reap_def filter_filter run(4)
    by (rule filter_cong) (use ended_unique [OF run(3) kt] in \<open>fastforce+\<close>)
  finally show ?thesis using assms(2) by simp
qed

text \<open>Starting: what the kernel answers when every \<open>vfork\<close> gives a new process that reports in time.\<close>

definition starts_well :: "fork_env list \<Rightarrow> kids \<Rightarrow> bool" where
  "starts_well es ks \<longleftrightarrow> (\<forall>e \<in> set es. 0 < fe_pid e \<and> fe_waite e = 0) \<and> distinct (map fe_pid es) \<and>
     fe_pid ` set es \<inter> fst ` set ks = {}"

lemma end_children_fst [simp]: "map fst (end_children d ks) = map fst ks" "fst ` set (end_children d ks) = fst ` set ks"
  by (auto simp: end_children_def case_prod_unfold image_image)

lemma run_actions_starts:
  assumes "\<forall>r \<in> set pre. 0 < ex_pid r" and "distinct (map ex_pid (pre @ filter (\<lambda>r. 0 < ex_pid r) rs))"
    and "distinct (map fst ks)" and "ex_pid ` set (pre @ filter (\<lambda>r. 0 < ex_pid r) rs) = fst ` set ks"
    and "starts_well es ks" and "length (filter (\<lambda>r. ex_pid r \<le> 0) rs) \<le> length es"
  shows "\<exists>rs2 ks2. run_actions kp es pre rs ks = Some (0, pre @ rs2, ks2) \<and> all_run (pre @ rs2) ks2 \<and>
    list_all2 (\<lambda>r r2. ex_command r2 = ex_command r \<and> (0 < ex_pid r \<longrightarrow> r2 = r)) rs rs2"
  using assms
proof (induction rs arbitrary: es pre ks)
  case Nil
  then show ?case by (simp add: all_run_def)
next
  case (Cons r rs)
  show ?case
  proof (cases "0 < ex_pid r")
    case True
    with Cons.IH [of "pre @ [r]" ks es] Cons.prems obtain rs2 ks2 where
      "run_actions kp es (pre @ [r]) rs ks = Some (0, (pre @ [r]) @ rs2, ks2)" "all_run ((pre @ [r]) @ rs2) ks2"
      "list_all2 (\<lambda>r r2. ex_command r2 = ex_command r \<and> (0 < ex_pid r \<longrightarrow> r2 = r)) rs rs2" by auto
    with True show ?thesis by (intro exI [of _ "r # rs2"] exI [of _ ks2]) simp
  next
    case False
    with Cons.prems(6) obtain e es' where es: "es = e # es'" by (cases es) auto
    let ?r = "r\<lparr>ex_pid := fe_pid e\<rparr>" and ?ks = "end_children (fe_dies e) (ks @ [(fe_pid e, False)])"
    have e: "0 < fe_pid e" "fe_waite e = 0" "fe_pid e \<notin> fst ` set ks" "starts_well es' ?ks"
      using Cons.prems(5) es by (auto simp: starts_well_def)
    have "\<forall>q \<in> set (pre @ [?r]). 0 < ex_pid q" using Cons.prems(1) e(1) by auto
    moreover have "fe_pid e \<notin> ex_pid ` set (pre @ filter (\<lambda>r. 0 < ex_pid r) (r # rs))" using Cons.prems(4) e(3) by blast
    then have "distinct (map ex_pid ((pre @ [?r]) @ filter (\<lambda>r. 0 < ex_pid r) rs))"
      using Cons.prems(2) False by auto
    moreover have "distinct (map fst ?ks)" using Cons.prems(3) e(3) by simp
    moreover have "ex_pid ` set ((pre @ [?r]) @ filter (\<lambda>r. 0 < ex_pid r) rs) = fst ` set ?ks"
      using Cons.prems(4) False by auto
    moreover have "length (filter (\<lambda>r. ex_pid r \<le> 0) rs) \<le> length es'" using Cons.prems(6) False es by simp
    ultimately obtain rs2 ks2 where
      "run_actions kp es' (pre @ [?r]) rs ?ks = Some (0, (pre @ [?r]) @ rs2, ks2)" "all_run ((pre @ [?r]) @ rs2) ks2"
      "list_all2 (\<lambda>r r2. ex_command r2 = ex_command r \<and> (0 < ex_pid r \<longrightarrow> r2 = r)) rs rs2"
      using Cons.IH [of "pre @ [?r]" ?ks es'] e(4) by blast
    with False es e show ?thesis by (intro exI [of _ "?r # rs2"] exI [of _ ks2]) simp
  qed
qed

text \<open>
  Property C16: Processes that end are restarted, and no others.  When every process of the table runs or has just ended, the monitor's
  check marks exactly the entries whose process has ended, returns their number and collects exactly the ended
  children; then \<open>run_actions\<close>, when the new processes report in time, starts one for each marked entry, leaves the
  others as they are, and again every entry has a process of its own.
\<close>
theorem ended_processes_restart:
  assumes "all_run rs ks" and "process_mon nohang rs ks = Some (n, rs1, ks1)" and "starts_well es ks1" and "n \<le> int (length es)"
  shows "n = int (length (filter (\<lambda>r. (ex_pid r, True) \<in> set ks) rs)) \<and> rs1 = map (mark_ended ks) rs \<and>
    ks1 = filter (\<lambda>k. \<not> snd k) ks \<and>
    (\<exists>rs2 ks2. run_actions kp es [] rs1 ks1 = Some (0, rs2, ks2) \<and> all_run rs2 ks2 \<and>
      list_all2 (\<lambda>r r2. ex_command r2 = ex_command r \<and> ((ex_pid r, True) \<notin> set ks \<longrightarrow> r2 = r)) rs rs2)"
proof -
  from process_mon_ended [OF assms(1,2)] have
    n: "n = int (length (filter (\<lambda>r. (ex_pid r, True) \<in> set ks) rs))" and rs1: "rs1 = map (mark_ended ks) rs" and
    ks1: "ks1 = filter (\<lambda>k. \<not> snd k) ks" by simp_all
  from assms(1) have run: "\<forall>r \<in> set rs. 0 < ex_pid r" "distinct (map ex_pid rs)" "distinct (map fst ks)"
    "ex_pid ` set rs = fst ` set ks" by (simp_all add: all_run_def)
  have live: "filter (\<lambda>r. 0 < ex_pid r) rs1 = filter (\<lambda>r. (ex_pid r, True) \<notin> set ks) rs"
    unfolding rs1 using run(1) by (induction rs) (auto simp: mark_ended_def)
  have dead: "length (filter (\<lambda>r. ex_pid r \<le> 0) rs1) = length (filter (\<lambda>r. (ex_pid r, True) \<in> set ks) rs)"
    unfolding rs1 using run(1) by (induction rs) (auto simp: mark_ended_def)
  have pids: "ex_pid ` set (filter (\<lambda>r. (ex_pid r, True) \<notin> set ks) rs) = fst ` set ks1"
  proof (intro equalityI subsetI)
    fix p assume "p \<in> ex_pid ` set (filter (\<lambda>r. (ex_pid r, True) \<notin> set ks) rs)"
    then have p: "p \<in> ex_pid ` set rs" "(p, True) \<notin> set ks" by auto
    from p(1) obtain k where k: "k \<in> set ks" "p = fst k" unfolding run(4) by blast
    with p(2) have "\<not> snd k" by (cases k) auto
    with k show "p \<in> fst ` set ks1" unfolding ks1 by auto
  next
    fix p assume "p \<in> fst ` set ks1"
    then have f: "(p, False) \<in> set ks" unfolding ks1 by auto
    then have "(p, True) \<notin> set ks" using ended_unique [OF run(3) f, of "(p, True)"] by auto
    moreover have "p \<in> ex_pid ` set rs" using f run(4) by force
    ultimately show "p \<in> ex_pid ` set (filter (\<lambda>r. (ex_pid r, True) \<notin> set ks) rs)" by auto
  qed
  have "\<exists>rs2 ks2. run_actions kp es [] rs1 ks1 = Some (0, [] @ rs2, ks2) \<and> all_run ([] @ rs2) ks2 \<and>
      list_all2 (\<lambda>r r2. ex_command r2 = ex_command r \<and> (0 < ex_pid r \<longrightarrow> r2 = r)) rs1 rs2"
    using run assms(3,4) pids n dead
    by (intro run_actions_starts) (simp_all add: live ks1 distinct_map_filter)
  then obtain rs2 ks2 where r: "run_actions kp es [] rs1 ks1 = Some (0, rs2, ks2)" "all_run rs2 ks2"
      "list_all2 (\<lambda>r r2. ex_command r2 = ex_command r \<and> (0 < ex_pid r \<longrightarrow> r2 = r)) rs1 rs2" by auto
  from r(3) have "list_all2 (\<lambda>r r2. ex_command r2 = ex_command r \<and> ((ex_pid r, True) \<notin> set ks \<longrightarrow> r2 = r)) rs rs2"
    unfolding rs1 list.rel_map using run(1) by (auto simp: mark_ended_def elim!: list.rel_mono_strong)
  with r n rs1 ks1 show ?thesis by blast
qed

text \<open>Two of three processes have ended; their entries get the processes 21 and 22.\<close>

theorem ended_processes_restart_witness:
  "\<exists>rs2 ks2. run_actions (\<lambda>p c ks. (- 1, ks)) [\<lparr>fe_pid = 21, fe_dies = [], fe_waite = 0\<rparr>, \<lparr>fe_pid = 22, fe_dies = [], fe_waite = 0\<rparr>] []
      [\<lparr>ex_pid = - 1, ex_command = ''rf''\<rparr>, \<lparr>ex_pid = 12, ex_command = ''mf''\<rparr>, \<lparr>ex_pid = - 1, ex_command = ''gpio''\<rparr>] [(12, False)] =
      Some (0, rs2, ks2) \<and> all_run rs2 ks2 \<and> rs2 ! 1 = \<lparr>ex_pid = 12, ex_command = ''mf''\<rparr>"
proof -
  let ?rs = "[\<lparr>ex_pid = 11, ex_command = ''rf''\<rparr>, \<lparr>ex_pid = 12, ex_command = ''mf''\<rparr>, \<lparr>ex_pid = 13, ex_command = ''gpio''\<rparr>]"
  let ?ks = "[(13, True), (12, False), (11, True)]"
  let ?rs1 = "[\<lparr>ex_pid = - 1, ex_command = ''rf''\<rparr>, \<lparr>ex_pid = 12, ex_command = ''mf''\<rparr>, \<lparr>ex_pid = - 1, ex_command = ''gpio''\<rparr>]"
  let ?es = "[\<lparr>fe_pid = 21, fe_dies = [], fe_waite = 0\<rparr>, \<lparr>fe_pid = 22, fe_dies = [], fe_waite = 0\<rparr>]"
  have 1: "all_run ?rs ?ks" by (auto simp: all_run_def)
  have 2: "process_mon True ?rs ?ks = Some (2, ?rs1, [(12, False)])"
    by (simp add: process_mon_def waitpid_any_def waitpid_nohang_def reap_def)
  have "starts_well ?es [(12, False)]" by (simp add: starts_well_def)
  from ended_processes_restart [OF 1 2 this, of "\<lambda>p c ks. (- 1, ks)", THEN conjunct2, THEN conjunct2, THEN conjunct2]
  obtain rs2 ks2 where r: "run_actions (\<lambda>p c ks. (- 1, ks)) ?es [] ?rs1 [(12, False)] = Some (0, rs2, ks2)" "all_run rs2 ks2"
      "list_all2 (\<lambda>r r2. ex_command r2 = ex_command r \<and> ((ex_pid r, True) \<notin> set ?ks \<longrightarrow> r2 = r)) ?rs rs2" by auto
  from r(3) have "rs2 ! 1 = \<lparr>ex_pid = 12, ex_command = ''mf''\<rparr>" by (auto simp: list_all2_Cons1)
  with r(1,2) show ?thesis by blast
qed

lemma mark_terminated_entries:
  "mark_terminated pid rs ks = (n, rs', ks') \<Longrightarrow> list_all2 (\<lambda>r r'. r' = r \<or> r' = r\<lparr>ex_pid := - 1\<rparr>) rs rs'"
  by (induction rs arbitrary: ks n rs' ks') (auto simp: Let_def split: if_splits prod.splits)

lemma kill_loop_signals:
  "kill_loop kill ret rs = (ret', rs', ps) \<Longrightarrow>
     ps = map ex_pid (filter (\<lambda>r. 0 < ex_pid r) rs) \<and> map ex_command rs' = map ex_command rs \<and> (\<forall>r \<in> set rs'. ex_pid r \<le> 0)"
  by (induction kill ret rs arbitrary: ret' rs' ps rule: kill_loop.induct) (auto split: if_splits prod.splits)

text \<open>At the end every process of the table is signalled once, and no entry has a process.\<close>

lemma kill_all_stops:
  assumes "kill_all kill dies rs ks = Some (ret, ps, rs', ks')"
  shows "ps = map ex_pid (filter (\<lambda>r. 0 < ex_pid r) rs) \<and> (\<forall>r \<in> set rs'. ex_pid r \<le> 0)"
proof -
  obtain ret1 rs1 ps1 where k: "kill_loop kill 0 rs = (ret1, rs1, ps1)" by (metis prod_cases3)
  with assms obtain n where m: "process_mon True rs1 (end_children dies ks) = Some (n, rs', ks')" "ps = ps1"
    by (auto simp: kill_all_def)
  then have "list_all2 (\<lambda>r r'. r' = r \<or> r' = r\<lparr>ex_pid := - 1\<rparr>) rs1 rs'"
    by (auto simp: process_mon_def list_all2_refl split: if_splits dest: mark_terminated_entries)
  then have "\<forall>r' \<in> set rs'. \<exists>r \<in> set rs1. ex_pid r' \<le> 0 \<or> ex_pid r' = ex_pid r"
    by (induction rule: list_all2_induct) auto
  with kill_loop_signals [OF k] m(2) show ?thesis by fastforce
qed

text \<open>
  An entry that has been marked makes \<open>mark_terminated\<close> call \<open>waitpid (- 1)\<close>, which takes any ended child.  Here it takes
  process 5, whose entry then keeps its number: it is not restarted, and \<open>kill_all\<close> signals a process of somebody else.
\<close>

lemma marked_entry_takes_child:
  "process_mon True [\<lparr>ex_pid = - 1, ex_command = ''rf''\<rparr>, \<lparr>ex_pid = 5, ex_command = ''mf''\<rparr>] [(4, True), (5, True)] =
     Some (0, [\<lparr>ex_pid = - 1, ex_command = ''rf''\<rparr>, \<lparr>ex_pid = 5, ex_command = ''mf''\<rparr>], [])"
  by (simp add: process_mon_def waitpid_any_def waitpid_nohang_def reap_def)

end
