(* ===== verification/GW_MonExec.thy ===== *)
theory GW_MonExec
  imports GW_Prelude
begin

text \<open>
  \<open>init_exec\<close> of \<open>src/code/example/mon.c\<close>: how the monitor turns the command line of a process into the arguments of \<open>execvp\<close>.
  The text is cut in place, in an array on the stack, as \<open>strsep\<close> does it.
\<close>

section \<open>Running a command\<close>

text \<open>The characters \<open>strpbrk\<close> looks for: a command with one of them is given to a shell.\<close>

definition shell_chars :: bytes where
  "shell_chars = ''~`!$^&*()=|'' @ [CHR 0x5C] @ ''{}[];'' @ [CHR 0x22, CHR 0x27] @ ''<>?''"

definition is_blank :: "byte \<Rightarrow> bool" where
  "is_blank c \<longleftrightarrow> c = CHR '' '' \<or> c = CHR 0x09"

text \<open>
  \<open>strsep(&next, " \t")\<close> on the text that starts at \<open>i\<close>: the next delimiter is overwritten with a zero, and \<open>next\<close> is behind it,
  or null when the text ends.
\<close>

definition strsep :: "bytes \<Rightarrow> nat \<Rightarrow> (nat option \<times> bytes) res" where
  "strsep b i =
     (let j = i + length (takeWhile (\<lambda>c. \<not> is_blank c \<and> c \<noteq> NUL) (drop i b))
      in if j \<ge> length b then Inl OutOfBounds
         else if b ! j = NUL then Inr (None, b)
         else Inr (Some (Suc j), b[j := NUL]))"

text \<open>The loop of \<open>init_exec\<close>: \<open>cmd\<close> holds the places of the words, in an array of \<open>n\<close> pointers.\<close>

function split_words :: "nat \<Rightarrow> bytes \<Rightarrow> nat \<Rightarrow> nat list \<Rightarrow> (bytes \<times> nat list) res" where
  "split_words n b i cmd =
     res_bind (strsep b i) (\<lambda>(next, b').
     res_bind (if b' ! i = NUL then Inr cmd else if length cmd < n then Inr (cmd @ [i]) else Inl OutOfBounds) (\<lambda>cmd'.
     case next of None \<Rightarrow> Inr (b', cmd') | Some j \<Rightarrow> split_words n b' j cmd'))"
  by pat_completeness auto

termination
  by (relation "measure (\<lambda>(n, b, i, cmd). length b - i)") (auto simp: strsep_def Let_def split: if_splits)

declare split_words.simps [simp del]

text \<open>
  \<open>shell\<close> is \<open>DEFAULT_LOGIN_SHELL\<close>, which has a leading dash; \<open>junk\<close> is the uninitialised \<open>buf\<close>.  The result is what \<open>execvp\<close> is
  called with; \<open>- EINVAL\<close> is returned if that fails.
\<close>

definition init_exec :: "bytes \<Rightarrow> bytes \<Rightarrow> bytes \<Rightarrow> ((bytes \<times> bytes list) \<times> int) res" where
  "init_exec shell junk command =
     (let command_size = length command + 8;
          buf = take command_size junk;
          n = command_size div 2;
          dash = (if take 1 command = ''-'' then 1 else 0 :: nat);
          com = drop dash command
      in if \<exists>c \<in> set com. c \<in> set shell_chars then
           res_bind (wr buf 0 (''exec '' @ com @ [NUL])) (\<lambda>b.
           if 3 < n then Inr ((drop 1 shell, [drop (1 - dash) shell, ''-c'', cstr b]), - EINVAL) else Inl OutOfBounds)
         else
           res_bind (wr buf 0 (command @ [NUL])) (\<lambda>b.
           res_bind (split_words n b 0 []) (\<lambda>(b', cmd).
           if length cmd < n then Inr ((cstr (drop dash b'), map (\<lambda>p. cstr (drop p b')) cmd), - EINVAL)
           else Inl OutOfBounds)))"

text \<open>The words of a command, abstractly.\<close>

fun split_blank :: "bytes \<Rightarrow> bytes list" where
  "split_blank [] = [[]]"
| "split_blank (c # cs) =
     (if is_blank c then [] # split_blank cs
      else (case split_blank cs of [] \<Rightarrow> [[c]] | w # ws \<Rightarrow> (c # w) # ws))"

definition command_words :: "bytes \<Rightarrow> bytes list" where
  "command_words s = filter (\<lambda>w. w \<noteq> []) (split_blank s)"

definition first_word :: "bytes \<Rightarrow> bytes" where
  "first_word s = takeWhile (\<lambda>c. \<not> is_blank c) s"

lemma split_blank_unfold:
  "split_blank s = first_word s # (case dropWhile (\<lambda>c. \<not> is_blank c) s of [] \<Rightarrow> [] | d # t \<Rightarrow> split_blank t)"
  by (induction s) (simp_all add: first_word_def)

lemma command_words_unfold:
  "command_words s = (if first_word s = [] then [] else [first_word s]) @
     (case dropWhile (\<lambda>c. \<not> is_blank c) s of [] \<Rightarrow> [] | d # t \<Rightarrow> command_words t)"
  unfolding command_words_def
  by (subst split_blank_unfold) (cases "dropWhile (\<lambda>c. \<not> is_blank c) s"; simp only: list.case filter.simps append.simps if_True if_False; simp)

lemma first_word_split:
  "s = first_word s @ dropWhile (\<lambda>c. \<not> is_blank c) s"
  by (simp add: first_word_def)

text \<open>A word and the blank behind it take two characters.\<close>

lemma command_words_length: "2 * length (command_words s) \<le> length s + 1"
proof (induction s rule: length_induct)
  case (1 s)
  show ?case
  proof (cases "dropWhile (\<lambda>c. \<not> is_blank c) s")
    case Nil
    then have "length s = length (first_word s)" using arg_cong [OF first_word_split [of s], of length] by simp
    then show ?thesis by (subst command_words_unfold) (use Nil in \<open>cases s; simp\<close>)
  next
    case (Cons d t)
    then have s: "length s = length (first_word s) + Suc (length t)"
      using arg_cong [OF first_word_split [of s], of length] by simp
    then have "2 * length (command_words t) \<le> length t + 1" using 1 by simp
    then show ?thesis using s Cons by (subst command_words_unfold) (cases "first_word s"; simp)
  qed
qed

lemma takeWhile_word:
  assumes "NUL \<notin> set s"
  shows "takeWhile (\<lambda>c. \<not> is_blank c \<and> c \<noteq> NUL) (s @ NUL # r) = first_word s"
  using assms by (induction s) (auto simp: first_word_def)

lemma is_blank_NUL [simp]: "\<not> is_blank NUL"
  by (simp add: is_blank_def)

lemma strsep_last:
  assumes "NUL \<notin> set s" and "dropWhile (\<lambda>c. \<not> is_blank c) s = []"
  shows "strsep (pre @ s @ NUL # r) (length pre) = Inr (None, pre @ s @ NUL # r)"
proof -
  have "first_word s = s" using first_word_split [of s] assms(2) by simp
  then show ?thesis using takeWhile_word [OF assms(1), of r]
    by (simp add: strsep_def Let_def nth_append)
qed

lemma strsep_next:
  assumes "NUL \<notin> set s" and "dropWhile (\<lambda>c. \<not> is_blank c) s = d # t"
  shows "strsep (pre @ s @ NUL # r) (length pre) =
    Inr (Some (length (pre @ first_word s @ [NUL])), pre @ first_word s @ NUL # t @ NUL # r)"
proof -
  obtain w where w: "first_word s = w" by blast
  with first_word_split [of s] assms(2) have s: "s = w @ d # t" by simp
  have "d \<noteq> NUL" using assms(1) s by auto
  moreover have "takeWhile (\<lambda>c. \<not> is_blank c \<and> c \<noteq> NUL) (w @ d # t @ NUL # r) = w"
    using takeWhile_word [OF assms(1), of r] w s by simp
  ultimately show ?thesis unfolding w unfolding s by (simp add: strsep_def Let_def nth_append list_update_append)
qed

text \<open>
  The loop on a text \<open>s\<close> with its terminating zero, behind \<open>pre\<close>: it stays in the buffer, finds the words, and the
  text at its start ends behind its first word.
\<close>

lemma split_words_text:
  assumes "NUL \<notin> set s" and "length cmd + length (command_words s) \<le> n"
  shows "\<exists>q ps. split_words n (pre @ s @ NUL # r) (length pre) cmd = Inr (pre @ q @ NUL # r, cmd @ ps) \<and>
    length q = length s \<and> map (\<lambda>p. cstr (drop p (pre @ q @ NUL # r))) ps = command_words s \<and>
    (\<exists>z. q @ NUL # r = first_word s @ NUL # z)"
  using assms
proof (induction s arbitrary: pre cmd rule: length_induct)
  case (1 s)
  have fw: "NUL \<notin> set (first_word s)" using 1(2) by (auto simp: first_word_def dest: set_takeWhileD)
  show ?case
  proof (cases "dropWhile (\<lambda>c. \<not> is_blank c) s")
    case Nil
    then have s: "first_word s = s" by (simp add: first_word_def)
    then have w: "command_words s = (if s = [] then [] else [s])" 
      unfolding command_words_unfold [of s] Nil list.case by simp
    show ?thesis
    proof (cases s)
      case Nil
      then show ?thesis using strsep_last [OF 1(2) \<open>dropWhile _ s = []\<close>, of pre r] w s
        by (subst split_words.simps) simp
    next
      case (Cons c cs)
      then have "c \<noteq> NUL" "cstr (c # cs @ NUL # r) = c # cs" using 1(2) cstr_NUL [of "c # cs" r] by auto
      then show ?thesis using strsep_last [OF 1(2) \<open>dropWhile _ s = []\<close>, of pre r] w s 1(2,3) Cons
        by (subst split_words.simps) (auto intro!: exI [of _ "c # cs"])
    qed
  next
    case (Cons d t)
    obtain w where w: "first_word s = w" by blast
    with first_word_split [of s] Cons have s: "s = w @ d # t" by simp
    have cw: "command_words s = (if w = [] then [] else [w]) @ command_words t"
      using Cons w by (subst command_words_unfold) simp
    let ?pre = "pre @ w @ [NUL]" and ?cmd = "if w = [] then cmd else cmd @ [length pre]"
    have "length t < length s" "NUL \<notin> set t" "length ?cmd + length (command_words t) \<le> n"
      using s 1(2,3) cw by auto
    with 1(1) obtain q ps where q: "split_words n (?pre @ t @ NUL # r) (length ?pre) ?cmd = Inr (?pre @ q @ NUL # r, ?cmd @ ps)"
      "length q = length t" "map (\<lambda>p. cstr (drop p (?pre @ q @ NUL # r))) ps = command_words t" by blast
    have b: "(pre @ w @ NUL # t @ NUL # r) ! length pre = NUL \<longleftrightarrow> w = []"
      using fw w by (cases w) (auto simp: nth_append)
    have "split_words n (pre @ s @ NUL # r) (length pre) cmd = split_words n (?pre @ t @ NUL # r) (length ?pre) ?cmd"
      using strsep_next [OF 1(2) Cons, of pre r] b 1(3) cw w by (subst split_words.simps) (simp split: if_splits)
    moreover have "cstr (w @ NUL # q @ NUL # r) = w" using fw w by simp
    ultimately show ?thesis using q s cw w
      by (intro exI [of _ "w @ NUL # q"] exI [of _ "(if w = [] then [] else [length pre]) @ ps"]) (simp split: if_splits)
  qed
qed

text \<open>
  Property C34: A command line becomes the right arguments without leaving the arrays that are sized for it.  For
  every command, a C string, with a character special to the shell, the shell is given the command behind \<open>exec\<close> and without its
  leading dash; any other command is split at blanks and tabs: the arguments are its words, and the program is the first
  word without the dash, which is the empty name when the command starts with a blank.
\<close>
theorem init_exec_splits:
  assumes "NUL \<notin> set command" and "length junk = length command + 8" and "shell = CHR ''-'' # sh"
    and "dash = (if take 1 command = ''-'' then 1 else 0)"
  shows "init_exec shell junk command = Inr
    (if \<exists>c \<in> set (drop dash command). c \<in> set shell_chars
     then (sh, [if dash = 1 then CHR ''-'' # sh else sh, ''-c'', ''exec '' @ drop dash command])
     else (drop dash (first_word command), command_words command), - EINVAL)"
proof (cases "\<exists>c \<in> set (drop dash command). c \<in> set shell_chars")
  case True
  have "NUL \<notin> set (drop dash command)" using assms(1) by (auto dest: in_set_dropD)
  then have "cstr ((''exec '' @ drop dash command) @ NUL # r) = ''exec '' @ drop dash command" for r
    by (intro cstr_NUL) auto
  then show ?thesis using True assms unfolding init_exec_def Let_def
    by (auto simp: wr_def)
next
  case False
  have n: "length (command_words command) < (length command + 8) div 2"
    using command_words_length [of command] by linarith
  obtain r where w: "wr junk 0 (command @ [NUL]) = Inr (command @ NUL # r)" using assms(2) by (simp add: wr_def)
  have "length ([] :: nat list) + length (command_words command) \<le> (length command + 8) div 2" using n by simp
  from split_words_text [OF assms(1) this, of "[]" r] obtain q ps z where
    q: "split_words ((length command + 8) div 2) (command @ NUL # r) 0 [] = Inr (q @ NUL # r, ps)"
      "map (\<lambda>p. cstr (drop p (q @ NUL # r))) ps = command_words command" "q @ NUL # r = first_word command @ NUL # z"
    unfolding append_Nil list.size by blast
  have "length ps < (length command + 8) div 2" using n arg_cong [OF q(2), of length] by simp
  moreover have "cstr (drop dash (q @ NUL # r)) = drop dash (first_word command)"
  proof -
    have "dash \<le> length (first_word command)"
      using assms(4) by (cases command) (auto simp: first_word_def is_blank_def split: if_splits)
    then have "drop dash (q @ NUL # r) = drop dash (first_word command) @ NUL # z" unfolding q(3) by simp
    moreover have "NUL \<notin> set (drop dash (first_word command))"
      using assms(1) by (auto simp: first_word_def dest!: in_set_dropD set_takeWhileD)
    ultimately show ?thesis by simp
  qed
  ultimately show ?thesis using False assms(2,4) w q(1,2)
    unfolding init_exec_def Let_def by simp
qed

theorem init_exec_splits_witness:
  "init_exec ''-/bin/sh'' (replicate 20 NUL) ''rf -v   50 x'' = Inr ((''rf'', [''rf'', ''-v'', ''50'', ''x'']), - EINVAL)"
  using init_exec_splits [of "''rf -v   50 x''" "replicate 20 NUL" "''-/bin/sh''" "''/bin/sh''" 0]
  by (simp add: first_word_def command_words_def is_blank_def shell_chars_def)

end
