(* ===== verification/GW_MonMain.thy ===== *)
theory GW_MonMain
  imports GW_Broker GW_Utility GW_Mon GW_MonExec
begin

text \<open>
  The monitor's other half (\<open>src/code/example/mon.c\<close>): configuring the devices over the broker and checking what they
  report (\<open>send_cmd2dev\<close>, \<open>compare_ret_val\<close>), its threads, and \<open>main\<close>.

  The headers it includes (\<open>mon.h\<close>, \<open>mon_cf_parse.h\<close> and others) are not in the repository.  The structures have
  the members \<open>mon.c\<close> uses; the states \<open>ST_M_\<close> are different flags; the functions defined elsewhere are
  parameters: what they return is an input, what they are given is recorded.
\<close>

section \<open>Comparing a device's state\<close>

record ret_s =
  rs_reg :: int
  rs_mask :: int
  rs_rt :: int

record stat_s =
  st_dst :: bytes
  st_item_exp :: int
  st_ret_exp :: "ret_s list"
  st_item :: int
  st_ret :: "ret_s list"

text \<open>The loops over \<open>j\<close> and \<open>i\<close>; the result says whether a value is wrong.  The counter \<open>k\<close> of matches is never used.\<close>

fun compare_inner :: "ret_s \<Rightarrow> ret_s list \<Rightarrow> nat list \<Rightarrow> bool res" where
  "compare_inner e rt [] = Inr False"
| "compare_inner e rt (j # js) =
     (if length rt \<le> j then Inl OutOfBounds
      else if rs_reg (rt ! j) = rs_reg e \<and> rs_mask e AND rs_rt (rt ! j) \<noteq> rs_rt e then Inr True
      else compare_inner e rt js)"

fun compare_outer :: "ret_s list \<Rightarrow> ret_s list \<Rightarrow> nat list \<Rightarrow> nat list \<Rightarrow> bool res" where
  "compare_outer es rt js [] = Inr False"
| "compare_outer es rt js (i # is) =
     (if length es \<le> i then Inl OutOfBounds
      else res_bind (compare_inner (es ! i) rt js) (\<lambda>bad. if bad then Inr True else compare_outer es rt js is))"

definition compare_ret_val :: "stat_s \<Rightarrow> int res" where
  "compare_ret_val st =
     res_bind (compare_outer (st_ret_exp st) (st_ret st) [0..<nat (st_item st)] [0..<nat (st_item_exp st)])
       (\<lambda>bad. Inr (if bad then - EINVAL else 0))"

section \<open>A round of configuration\<close>

record run_s =
  rn_dst :: bytes
  rn_con_file :: bytes
  rn_st_file_tk :: "bytes list"
  rn_stat_tb :: "stat_s list"

datatype mon_state = ST_M_INIT | ST_M_PARSE_RUN | ST_M_FORK | ST_M_DONE | ST_M_QUIT | ST_M_EXIT

datatype mon_call = System bytes | Transfer bytes bytes

text \<open>
  What a round meets: \<open>read_config_file\<close> (the length, or a negative error, and the text), \<open>get_return_stat\<close>,
  \<open>get_return_json_data\<close>, the word that marks a shell command, and what \<open>dev_transfer\<close> returns in the \<open>k\<close>-th call: its result and \<open>stat_buf\<close>.
\<close>

record mon_env =
  mn_read :: "bytes \<Rightarrow> int \<times> bytes"
  mn_get_stat :: "bytes \<Rightarrow> int"
  mn_get_json :: "bytes option \<Rightarrow> stat_s \<Rightarrow> int \<times> stat_s"
  mn_shell :: bytes
  mn_answer :: "nat \<Rightarrow> int \<times> bytes option"

definition send_file :: "int \<Rightarrow> bytes \<Rightarrow> bytes \<Rightarrow> mon_call" where
  "send_file n buf dst = Transfer (take (nat n) buf) dst"

text \<open>The inner loop.  The results are \<open>ret\<close>, whether the function is left, the table and the calls.\<close>

fun send_stats ::
    "mon_env \<Rightarrow> bytes list \<Rightarrow> nat \<Rightarrow> int \<Rightarrow> stat_s list \<Rightarrow> mon_call list \<Rightarrow> (int \<times> bool \<times> stat_s list \<times> mon_call list) res" where
  "send_stats E fs i ret [] cs = Inr (ret, False, [], cs)"
| "send_stats E fs i ret (st # sts) cs =
     (if length fs \<le> i then Inl OutOfBounds
      else let (n, buf) = mn_read E (fs ! i)
      in if n < 0 then Inr (n, True, st # sts, cs)
      else let (t, stat_buf) = mn_answer E (length cs); cs1 = cs @ [send_file n buf (st_dst st)]
      in if t \<noteq> 0 then Inr (t, True, st # sts, cs1)
      else let (g, st1) = mn_get_json E stat_buf st
      in if g < 0 then Inr (g, True, st1 # sts, cs1)
      else res_bind (compare_ret_val st1) (\<lambda>c.
        if c < 0 then Inr (c, True, st1 # sts, cs1)
        else res_bind (send_stats E fs (Suc i) c sts cs1) (\<lambda>(ret', left, sts', cs'). Inr (ret', left, st1 # sts', cs'))))"

text \<open>The configuration file of an item; one that cannot be read is passed over, and \<open>ret\<close> keeps the error.\<close>

definition send_conf :: "mon_env \<Rightarrow> run_s \<Rightarrow> mon_call list \<Rightarrow> int \<times> bool \<times> mon_call list" where
  "send_conf E r cs =
     (let (n, buf) = mn_read E (rn_con_file r)
      in if n < 0 then (n, False, cs)
      else let (t, stat_buf) = mn_answer E (length cs); cs1 = cs @ [send_file n buf (rn_dst r)]
      in if t \<noteq> 0 then (t, True, cs1)
      else let ret = (case stat_buf of None \<Rightarrow> t | Some b \<Rightarrow> mn_get_stat E b) in (ret, ret < 0, cs1))"

fun send_runs :: "mon_env \<Rightarrow> int \<Rightarrow> run_s list \<Rightarrow> mon_call list \<Rightarrow> (int \<times> run_s list \<times> mon_call list) res" where
  "send_runs E ret [] cs = Inr (ret, [], cs)"
| "send_runs E ret (r # rs) cs =
     (if rn_dst r = mn_shell E then
        res_bind (send_runs E ret rs (cs @ [System (rn_con_file r)])) (\<lambda>(ret', rs', cs'). Inr (ret', r # rs', cs'))
      else let (ret1, left, cs1) = send_conf E r cs
      in if left then Inr (ret1, r # rs, cs1)
      else res_bind (send_stats E (rn_st_file_tk r) 0 ret1 (rn_stat_tb r) cs1) (\<lambda>(ret2, left2, sts, cs2).
        if left2 then Inr (ret2, r\<lparr>rn_stat_tb := sts\<rparr> # rs, cs2)
        else res_bind (send_runs E ret2 rs cs2) (\<lambda>(ret', rs', cs'). Inr (ret', r\<lparr>rn_stat_tb := sts\<rparr> # rs', cs'))))"

definition send_cmd2dev :: "mon_env \<Rightarrow> mon_state \<Rightarrow> run_s list \<Rightarrow> (int \<times> run_s list \<times> mon_call list) res" where
  "send_cmd2dev E st_m rs = (if st_m = ST_M_DONE then Inr (0, rs, []) else send_runs E 0 rs [])"

section \<open>The threads\<close>

text \<open>\<open>waite_statemachine\<close> is called until it returns 0; the list holds its results.\<close>

fun waited :: "int list \<Rightarrow> bool" where
  "waited [] = False"
| "waited (w # ws) = (w = 0 \<or> waited ws)"

text \<open>
  The attempts of \<open>send_thread\<close>.  \<open>seen i\<close> is the state when attempt \<open>i\<close> tests it and when \<open>send_cmd2dev\<close> reads it, \<open>E i\<close> what the attempt
  meets.  The result is the list of the attempts, each its result and calls, the state set (\<open>ST_M_DONE\<close>, which leaves the thread), \<open>go_on\<close>
  and the table.
\<close>

fun send_tries ::
    "(nat \<Rightarrow> mon_env) \<Rightarrow> (nat \<Rightarrow> mon_state \<times> mon_state) \<Rightarrow> nat \<Rightarrow> nat \<Rightarrow> run_s list \<Rightarrow>
      ((int \<times> mon_call list) list \<times> mon_state option \<times> bool \<times> run_s list) res" where
  "send_tries E seen i 0 rs = Inr ([], None, True, rs)"
| "send_tries E seen i (Suc m) rs =
     (if fst (seen i) = ST_M_FORK then
        res_bind (send_cmd2dev (E i) (snd (seen i)) rs) (\<lambda>(ret, rs1, cs).
        if ret = 0 then Inr ([(ret, cs)], Some ST_M_DONE, True, rs1)
        else res_bind (send_tries E seen (Suc i) m rs1) (\<lambda>(tries, s, go_on, rs2). Inr ((ret, cs) # tries, s, go_on, rs2)))
      else Inr ([], None, False, rs))"

definition send_thread ::
    "int list \<Rightarrow> int \<Rightarrow> (nat \<Rightarrow> mon_env) \<Rightarrow> (nat \<Rightarrow> mon_state \<times> mon_state) \<Rightarrow> run_s list \<Rightarrow>
      ((int \<times> mon_call list) list \<times> mon_state option \<times> run_s list) res option" where
  "send_thread waits retry E seen rs =
     (if \<not> waited waits then None
      else Some (res_bind (send_tries E seen 0 (nat retry) rs) (\<lambda>(tries, s, go_on, rs').
        if s \<noteq> None then Inr (tries, s, rs')
        else if fst (seen (length tries)) \<noteq> ST_M_DONE \<and> go_on then Inr (tries, Some ST_M_EXIT, rs')
        else Inr (tries, None, rs'))))"

text \<open>A turn of \<open>mon_thread\<close>, which waits for a child when the state is one of the two flags; \<open>None\<close>: it is still waiting.\<close>

definition mon_thread :: "int list \<Rightarrow> mon_state \<Rightarrow> excel_s list \<Rightarrow> kids \<Rightarrow> (mon_state option \<times> excel_s list \<times> kids) option" where
  "mon_thread waits st rs ks =
     (if \<not> waited waits then None
      else if st \<in> {ST_M_FORK, ST_M_DONE} then
        map_option (\<lambda>(ret, rs', ks'). (if ret \<noteq> 0 then Some ST_M_EXIT else None, rs', ks')) (process_mon False rs ks)
      else Some (None, rs, ks))"

text \<open>The callbacks: whether the waiting starter is woken, and the state that is set.\<close>

definition client_born :: "bytes \<Rightarrow> bytes \<Rightarrow> bool \<times> int" where
  "client_born buf from = (strstr from ''/pub/born'', 0)"

definition client_exception :: "bytes \<Rightarrow> bytes \<Rightarrow> mon_state \<times> int" where
  "client_exception buf from = (ST_M_EXIT, 0)"

section \<open>What a round checks\<close>

text \<open>Each reported value of a register that has an expected value agrees with it under its mask.\<close>

definition values_ok :: "stat_s \<Rightarrow> bool" where
  "values_ok st \<longleftrightarrow> (\<forall>e \<in> set (take (nat (st_item_exp st)) (st_ret_exp st)). \<forall>v \<in> set (take (nat (st_item st)) (st_ret st)).
     rs_reg v = rs_reg e \<longrightarrow> rs_mask e AND rs_rt v = rs_rt e)"

lemma take_nths_set: "n \<le> length xs \<Longrightarrow> set (take n xs) = (!) xs ` {0..<n}"
  by (auto simp: set_conv_nth image_iff) (metis min.absorb2 nth_take)+

lemma compare_inner_eq:
  "\<forall>j \<in> set js. j < length rt \<Longrightarrow> compare_inner e rt js =
     Inr (\<exists>j \<in> set js. rs_reg (rt ! j) = rs_reg e \<and> rs_mask e AND rs_rt (rt ! j) \<noteq> rs_rt e)"
  by (induction js) auto

lemma compare_outer_eq:
  "\<forall>j \<in> set js. j < length rt \<Longrightarrow> \<forall>i \<in> set is. i < length es \<Longrightarrow> compare_outer es rt js is =
     Inr (\<exists>i \<in> set is. \<exists>j \<in> set js. rs_reg (rt ! j) = rs_reg (es ! i) \<and> rs_mask (es ! i) AND rs_rt (rt ! j) \<noteq> rs_rt (es ! i))"
  by (induction "is") (auto simp: compare_inner_eq)

lemma compare_ret_val_eq:
  assumes "st_item st \<le> int (length (st_ret st))" and "st_item_exp st \<le> int (length (st_ret_exp st))"
  shows "compare_ret_val st = Inr (if values_ok st then 0 else - EINVAL)"
proof -
  have "nat (st_item st) \<le> length (st_ret st)" "nat (st_item_exp st) \<le> length (st_ret_exp st)" using assms by linarith+
  then have "compare_outer (st_ret_exp st) (st_ret st) [0..<nat (st_item st)] [0..<nat (st_item_exp st)] = Inr (\<not> values_ok st)"
    by (subst compare_outer_eq) (auto simp: values_ok_def take_nths_set)
  then show ?thesis by (simp add: compare_ret_val_def)
qed

text \<open>Whatever the sizes say, a passed comparison has looked at everything.\<close>

lemma compare_inner_bounds:
  "compare_inner e rt js = Inr False \<Longrightarrow>
     \<forall>j \<in> set js. j < length rt \<and> (rs_reg (rt ! j) = rs_reg e \<longrightarrow> rs_mask e AND rs_rt (rt ! j) = rs_rt e)"
  by (induction js) (auto split: if_splits)

lemma compare_outer_bounds:
  "compare_outer es rt js is = Inr False \<Longrightarrow>
     \<forall>i \<in> set is. i < length es \<and> (\<forall>j \<in> set js. j < length rt \<and>
       (rs_reg (rt ! j) = rs_reg (es ! i) \<longrightarrow> rs_mask (es ! i) AND rs_rt (rt ! j) = rs_rt (es ! i)))"
  by (induction "is") (auto simp: res_bind_eq_Inr dest!: compare_inner_bounds split: if_splits)

lemma compare_ret_val_passed:
  assumes "compare_ret_val st = Inr c" and "0 \<le> c"
  shows "c = 0" and "values_ok st"
proof -
  from assms have c: "c = 0" and "compare_outer (st_ret_exp st) (st_ret st) [0..<nat (st_item st)] [0..<nat (st_item_exp st)] = Inr False"
    by (auto simp: compare_ret_val_def res_bind_eq_Inr split: if_splits)
  from compare_outer_bounds [OF this(2)] show "values_ok st"
    unfolding values_ok_def in_set_conv_nth by (auto simp: in_set_conv_nth)
  from c show "c = 0" .
qed

text \<open>A register that the device does not report is not missed.\<close>

lemma unreported_register_passes:
  "compare_ret_val \<lparr>st_dst = d, st_item_exp = 1, st_ret_exp = [\<lparr>rs_reg = 7, rs_mask = 255, rs_rt = 1\<rparr>],
     st_item = 0, st_ret = []\<rparr> = Inr 0"
  by (simp add: compare_ret_val_def)

text \<open>The calls a complete round makes for an item.\<close>

definition file_call :: "mon_env \<Rightarrow> bytes \<Rightarrow> bytes \<Rightarrow> mon_call" where
  "file_call E f dst = (case mn_read E f of (n, buf) \<Rightarrow> send_file n buf dst)"

definition item_calls :: "mon_env \<Rightarrow> run_s \<Rightarrow> mon_call list" where
  "item_calls E r =
     (if rn_dst r = mn_shell E then [System (rn_con_file r)]
      else (if fst (mn_read E (rn_con_file r)) < 0 then [] else [file_call E (rn_con_file r) (rn_dst r)]) @
           map (\<lambda>(f, st). file_call E f (st_dst st)) (zip (rn_st_file_tk r) (rn_stat_tb r)))"

definition item_ok :: "mon_env \<Rightarrow> run_s \<Rightarrow> bool" where
  "item_ok E r \<longleftrightarrow> rn_dst r = mn_shell E \<or> list_all values_ok (rn_stat_tb r)"

lemma send_stats_complete:
  assumes "send_stats E fs i ret sts cs = Inr (ret', left, sts', cs')"
  shows "(left \<longrightarrow> ret' \<noteq> 0) \<and> (\<not> left \<longrightarrow> list_all values_ok sts' \<and> i + length sts \<le> max i (length fs) \<and>
    cs' = cs @ map (\<lambda>(f, st). file_call E f (st_dst st)) (zip (drop i fs) sts))"
  using assms
proof (induction sts arbitrary: i ret cs ret' left sts' cs')
  case (Cons st sts)
  obtain n buf where r: "mn_read E (fs ! i) = (n, buf)" by (cases "mn_read E (fs ! i)")
  obtain t sb where a: "mn_answer E (length cs) = (t, sb)" by (cases "mn_answer E (length cs)")
  obtain g st1 where j: "mn_get_json E sb st = (g, st1)" by (cases "mn_get_json E sb st")
  have len: "i < length fs" using Cons.prems by (simp split: if_splits)
  show ?case
  proof (cases "0 \<le> n \<and> t = 0 \<and> 0 \<le> g")
    case False
    then show ?thesis using Cons.prems len r a j by (auto simp: Let_def split: if_splits)
  next
    case True
    with Cons.prems len r a j obtain c where c: "compare_ret_val st1 = Inr c" and
      rest: "(if c < 0 then Inr (c, True, st1 # sts, cs @ [send_file n buf (st_dst st)])
        else res_bind (send_stats E fs (Suc i) c sts (cs @ [send_file n buf (st_dst st)]))
          (\<lambda>(ret', left, sts', cs'). Inr (ret', left, st1 # sts', cs'))) = Inr (ret', left, sts', cs')"
      by (auto simp: Let_def res_bind_eq_Inr)
    show ?thesis
    proof (cases "c < 0")
      case False
      with rest obtain sts2 where s: "send_stats E fs (Suc i) c sts (cs @ [send_file n buf (st_dst st)]) = Inr (ret', left, sts2, cs')"
        "sts' = st1 # sts2" by (auto simp: Let_def res_bind_eq_Inr)
      have d: "drop i fs = fs ! i # drop (Suc i) fs" using len by (simp add: Cons_nth_drop_Suc)
      from Cons.IH [OF s(1)] compare_ret_val_passed [OF c] False s(2) len r show ?thesis
        unfolding d by (auto simp: file_call_def)
    qed (use rest in auto)
  qed
qed simp

lemma send_conf_complete:
  assumes "send_conf E r cs = (ret, left, cs')"
  shows "(left \<longrightarrow> ret \<noteq> 0) \<and> (\<not> left \<longrightarrow>
    cs' = cs @ (if fst (mn_read E (rn_con_file r)) < 0 then [] else [file_call E (rn_con_file r) (rn_dst r)]))"
  using assms by (auto simp: send_conf_def file_call_def Let_def split: prod.splits if_splits option.splits)

lemma send_runs_complete:
  assumes "send_runs E ret rs cs = Inr (0, rs', cs')"
  shows "list_all (item_ok E) rs' \<and> cs' = cs @ concat (map (item_calls E) rs)"
  using assms
proof (induction rs arbitrary: ret cs rs' cs')
  case (Cons r rs)
  show ?case
  proof (cases "rn_dst r = mn_shell E")
    case True
    with Cons.prems obtain rs2 where "send_runs E ret rs (cs @ [System (rn_con_file r)]) = Inr (0, rs2, cs')" "rs' = r # rs2"
      by (auto simp: Let_def res_bind_eq_Inr)
    with Cons.IH [OF this(1)] True show ?thesis by (simp add: item_ok_def item_calls_def)
  next
    case False
    obtain ret1 left cs1 where c: "send_conf E r cs = (ret1, left, cs1)" by (metis prod_cases3)
    with send_conf_complete [OF c] Cons.prems False have "\<not> left" by (auto simp: Let_def)
    with Cons.prems False c obtain ret2 left2 sts cs2 where
      st: "send_stats E (rn_st_file_tk r) 0 ret1 (rn_stat_tb r) cs1 = Inr (ret2, left2, sts, cs2)" and
      rest: "(if left2 then Inr (ret2, r\<lparr>rn_stat_tb := sts\<rparr> # rs, cs2)
        else res_bind (send_runs E ret2 rs cs2) (\<lambda>(ret', rs', cs'). Inr (ret', r\<lparr>rn_stat_tb := sts\<rparr> # rs', cs'))) = Inr (0, rs', cs')"
      by (auto simp: Let_def res_bind_eq_Inr)
    from send_stats_complete [OF st] rest have l2: "\<not> left2" by auto
    with rest obtain rs2 where rs2: "send_runs E ret2 rs cs2 = Inr (0, rs2, cs')" "rs' = r\<lparr>rn_stat_tb := sts\<rparr> # rs2"
      by (auto simp: Let_def res_bind_eq_Inr)
    from Cons.IH [OF rs2(1)] send_stats_complete [OF st] send_conf_complete [OF c] \<open>\<not> left\<close> l2 rs2(2) False
    show ?thesis by (simp add: item_ok_def item_calls_def)
  qed
qed simp

text \<open>The table's destinations and files are never changed, only the values read.\<close>

definition item_files :: "run_s \<Rightarrow> bytes \<times> bytes \<times> bytes list" where
  "item_files r = (rn_dst r, rn_con_file r, rn_st_file_tk r)"

lemma send_runs_files: "send_runs E ret rs cs = Inr (ret', rs', cs') \<Longrightarrow> map item_files rs' = map item_files rs"
proof (induction rs arbitrary: ret cs ret' rs' cs')
  case (Cons r rs)
  obtain ret1 left cs1 where c: "send_conf E r cs = (ret1, left, cs1)" by (metis prod_cases3)
  show ?case
  proof (cases "rn_dst r = mn_shell E \<or> left")
    case True
    with Cons c show ?thesis by (auto simp: res_bind_eq_Inr split: if_splits)
  next
    case False
    with Cons.prems c obtain ret2 left2 sts cs2 where
      rest: "(if left2 then Inr (ret2, r\<lparr>rn_stat_tb := sts\<rparr> # rs, cs2)
        else res_bind (send_runs E ret2 rs cs2) (\<lambda>(ret', rs', cs'). Inr (ret', r\<lparr>rn_stat_tb := sts\<rparr> # rs', cs'))) = Inr (ret', rs', cs')"
      by (auto simp: res_bind_eq_Inr)
    with Cons.IH show ?thesis by (cases left2) (auto simp: res_bind_eq_Inr item_files_def)
  qed
qed simp

text \<open>What the attempts can come to, given the state before each of them.\<close>

lemma send_tries_outcome:
  assumes "send_tries E seen i m rs = Inr (tries, s, go_on, rs')" and "\<forall>i. snd (seen i) \<noteq> ST_M_DONE"
  shows "length tries \<le> m \<and> (\<forall>j < length tries. fst (seen (i + j)) = ST_M_FORK) \<and>
    (case s of
       Some st \<Rightarrow> st = ST_M_DONE \<and> (\<exists>fails cs rs0. tries = fails @ [(0, cs)] \<and> 0 \<notin> fst ` set fails \<and> map item_files rs0 = map item_files rs \<and>
         cs = concat (map (item_calls (E (i + length fails))) rs0) \<and> list_all (item_ok (E (i + length fails))) rs')
     | None \<Rightarrow> 0 \<notin> fst ` set tries \<and>
         (if go_on then length tries = m else length tries < m \<and> fst (seen (i + length tries)) \<noteq> ST_M_FORK))"
  using assms(1)
proof (induction m arbitrary: i rs tries s go_on rs')
  case (Suc m)
  show ?case
  proof (cases "fst (seen i) = ST_M_FORK")
    case True
    with Suc.prems assms(2) obtain ret rs1 cs where c: "send_runs (E i) 0 rs [] = Inr (ret, rs1, cs)" and
      rest: "(if ret = 0 then Inr ([(ret, cs)], Some ST_M_DONE, True, rs1)
        else res_bind (send_tries E seen (Suc i) m rs1) (\<lambda>(tries, s, go_on, rs2). Inr ((ret, cs) # tries, s, go_on, rs2)))
        = Inr (tries, s, go_on, rs')"
      by (auto simp: res_bind_eq_Inr send_cmd2dev_def)
    show ?thesis
    proof (cases "ret = 0")
      case r0: True
      with send_runs_complete c have "list_all (item_ok (E i)) rs1" "cs = concat (map (item_calls (E i)) rs)" by fastforce+
      with rest r0 True show ?thesis by (auto intro!: exI [of _ rs])
    next
      case False
      with rest obtain tries1 where t: "send_tries E seen (Suc i) m rs1 = Inr (tries1, s, go_on, rs')" "tries = (ret, cs) # tries1"
        by (auto simp: res_bind_eq_Inr)
      have fork: "\<forall>j < length tries. fst (seen (i + j)) = ST_M_FORK" if "\<forall>j < length tries1. fst (seen (Suc i + j)) = ST_M_FORK"
        unfolding t(2) using that True by (auto simp: less_Suc_eq_0_disj)
      show ?thesis
      proof (cases s)
        case None
        with Suc.IH [OF t(1)] t(2) False fork show ?thesis by (auto split: if_splits)
      next
        case (Some st)
        with Suc.IH [OF t(1)] obtain fails cs1 rs0 where f: "length tries1 \<le> m" "\<forall>j < length tries1. fst (seen (Suc i + j)) = ST_M_FORK"
          "st = ST_M_DONE" "tries1 = fails @ [(0, cs1)]" "0 \<notin> fst ` set fails" "map item_files rs0 = map item_files rs1"
          "cs1 = concat (map (item_calls (E (Suc i + length fails))) rs0)" "list_all (item_ok (E (Suc i + length fails))) rs'" by auto
        have "map item_files rs0 = map item_files rs" using f(6) send_runs_files [OF c] by simp
        with f Some t(2) False fork show ?thesis
          by (auto intro!: exI [of _ "(ret, cs) # fails"] exI [of _ rs0])
      qed
    qed
  qed (use Suc.prems in auto)
qed simp



text \<open>An item without a configuration file and without states to check makes a round fail, though the error is meant to be passed over.\<close>

lemma missing_configuration_fails:
  assumes "mn_read E f = (- 2, buf)" and "d \<noteq> mn_shell E"
  shows "send_cmd2dev E ST_M_FORK [\<lparr>rn_dst = d, rn_con_file = f, rn_st_file_tk = tk, rn_stat_tb = []\<rparr>] =
    Inr (- 2, [\<lparr>rn_dst = d, rn_con_file = f, rn_st_file_tk = tk, rn_stat_tb = []\<rparr>], [])"
  using assms by (simp add: send_cmd2dev_def send_conf_def)

section \<open>The main function\<close>

text \<open>The log's set-up: the default configuration and the default category stand in for missing ones; \<open>cats\<close> are the categories there are.\<close>

definition mon_log_init :: "(bytes \<Rightarrow> int) \<Rightarrow> bytes list \<Rightarrow> bytes option \<Rightarrow> bytes \<Rightarrow> int \<times> bytes option" where
  "mon_log_init log_init cats conf cat =
     (let ret = log_init (case conf of Some c \<Rightarrow> c | None \<Rightarrow> ''/mnt/env/zlog_default.conf'')
      in if ret < 0 then (ret, None)
         else if cat \<in> set cats then (ret, Some cat)
         else if ''default_cat'' \<in> set cats then (ret, Some ''default_cat'')
         else (- EINVAL, None))"

text \<open>The fields \<open>global_args_init\<close> sets; \<open>retry\<close> is \<open>DEFAULT_RETRY_TIME\<close> of a header.\<close>

record global_arg_s =
  ga_dbg :: int
  ga_prog_name :: "bytes option"
  ga_conf_file :: "bytes option"
  ga_log_file :: "bytes option"
  ga_print_read_val :: int
  ga_reload_cf :: int
  ga_st_m :: mon_state
  ga_retry :: int
  ga_excel_tb :: "excel_s list"
  ga_run_tb :: "run_s list"
  ga_running :: int
  ga_mutexes :: "mutex list"

definition global_args_init :: "int \<Rightarrow> int \<times> global_arg_s" where
  "global_args_init retry =
     (0, \<lparr>ga_dbg = 0, ga_prog_name = None, ga_conf_file = None, ga_log_file = None, ga_print_read_val = 0, ga_reload_cf = 1,
         ga_st_m = ST_M_INIT, ga_retry = retry, ga_excel_tb = [], ga_run_tb = [], ga_running = 0,
         ga_mutexes = [Unlocked, Unlocked, Unlocked]\<rparr>)"

definition global_args_clean :: "global_arg_s \<Rightarrow> global_arg_s" where
  "global_args_clean g = g\<lparr>ga_mutexes := map (\<lambda>m. Destroyed) (ga_mutexes g)\<rparr>"

text \<open>
  The calls of \<open>main\<close> in their order.  What they return is an input: for each round of the loop the creation of the sender,
  \<open>run_actions\<close>, the states seen whenever \<open>waite_statemachine_forever\<close> returns, and the cancellation.  \<open>code\<close> gives the numbers of the
  states, one of which \<open>main\<close> returns.  \<open>None\<close>: it is still running.
\<close>

datatype main_call =
    MC_Init_Broker | MC_Register bytes | MC_Parse | MC_Prctl | MC_Create_Mon | MC_Detach_Mon | MC_Cancel_Mon
  | MC_Create_Sender | MC_Cancel_Sender | MC_Join_Sender | MC_Detach_Sender | MC_Process_Mon | MC_Run_Actions | MC_Set mon_state
  | MC_Unregister bytes | MC_Close_Broker | MC_Kill_All | MC_Clean_Inittab | MC_Clean_Args

record mon_round =
  rd_pcreate :: int
  rd_run :: int
  rd_states :: "mon_state list"
  rd_cancel :: int

record main_in =
  mi_cmdline :: int
  mi_log :: int
  mi_init :: int
  mi_reg_event :: int
  mi_reg_born :: int
  mi_parse :: int
  mi_pcreate_mon :: int
  mi_rounds :: "mon_round list"

definition mon_exit :: "main_call list" where
  "mon_exit = [MC_Kill_All, MC_Clean_Inittab, MC_Clean_Args]"

definition mon_exit1 :: "main_call list" where
  "mon_exit1 = MC_Close_Broker # mon_exit"

definition mon_exit2 :: "main_call list" where
  "mon_exit2 = [MC_Unregister ''born'', MC_Unregister ''event''] @ mon_exit1"

definition mon_exit3 :: "main_call list" where
  "mon_exit3 = [MC_Cancel_Mon, MC_Cancel_Sender, MC_Join_Sender] @ mon_exit2"

fun wait_for_end :: "mon_state list \<Rightarrow> mon_state option" where
  "wait_for_end [] = None"
| "wait_for_end (s # ss) = (if s = ST_M_QUIT \<or> s = ST_M_EXIT then Some s else wait_for_end ss)"

definition ESRCH :: int where [simp]: "ESRCH = 3"
definition EPERM :: int where [simp]: "EPERM = 1"

fun mon_rounds :: "(mon_state \<Rightarrow> int) \<Rightarrow> mon_round list \<Rightarrow> (int \<times> main_call list) option" where
  "mon_rounds code [] = None"
| "mon_rounds code (r # rs) =
     (if rd_pcreate r \<noteq> 0 then Some (rd_pcreate r, MC_Create_Sender # mon_exit2)
      else if rd_run r \<noteq> 0 then Some (rd_run r, [MC_Create_Sender, MC_Process_Mon, MC_Run_Actions] @ mon_exit3)
      else let started = [MC_Create_Sender, MC_Process_Mon, MC_Run_Actions, MC_Set ST_M_FORK]
      in case wait_for_end (rd_states r) of
           None \<Rightarrow> None
         | Some st \<Rightarrow>
             if st = ST_M_EXIT then Some (code st, started @ mon_exit3)
             else if rd_cancel r \<noteq> 0 \<and> rd_cancel r \<noteq> ESRCH
             then Some (rd_cancel r, started @ [MC_Cancel_Sender, MC_Detach_Sender] @ mon_exit2)
             else map_option (\<lambda>(ret, cs). (ret, started @ [MC_Cancel_Sender, MC_Join_Sender, MC_Set ST_M_PARSE_RUN] @ cs))
                    (mon_rounds code rs))"

definition mon_main :: "(mon_state \<Rightarrow> int) \<Rightarrow> main_in \<Rightarrow> (int \<times> main_call list) option" where
  "mon_main code I =
     (if mi_cmdline I = - EPERM then Some (mi_cmdline I, mon_exit)
      else if mi_log I \<noteq> 0 then Some (mi_log I, mon_exit)
      else if mi_init I \<noteq> 0 then Some (mi_init I, MC_Init_Broker # mon_exit)
      else let c1 = [MC_Init_Broker, MC_Register ''event'']
      in if mi_reg_event I \<noteq> 0 then Some (mi_reg_event I, c1 @ mon_exit1)
      else let c2 = c1 @ [MC_Register ''born'']
      in if mi_reg_born I \<noteq> 0 then Some (mi_reg_born I, c2 @ mon_exit2)
      else let c3 = c2 @ [MC_Parse]
      in if mi_parse I < 0 then Some (mi_parse I, c3 @ mon_exit2)
      else let c4 = c3 @ [MC_Prctl, MC_Create_Mon]
      in if mi_pcreate_mon I \<noteq> 0 then Some (mi_pcreate_mon I, c4 @ mon_exit2)
      else map_option (\<lambda>(ret, cs). (ret, c4 @ MC_Detach_Mon # cs)) (mon_rounds code (mi_rounds I)))"

lemma mon_rounds_end: "mon_rounds code rs = Some (ret, cs) \<Longrightarrow> \<exists>ds. cs = ds @ mon_exit2 \<and> MC_Init_Broker \<notin> set ds"
proof (induction rs arbitrary: ret cs)
  case (Cons r rs)
  let ?started = "[MC_Create_Sender, MC_Process_Mon, MC_Run_Actions, MC_Set ST_M_FORK]"
  let ?e3 = "[MC_Cancel_Mon, MC_Cancel_Sender, MC_Join_Sender]"
  from Cons.prems consider "cs = [MC_Create_Sender] @ mon_exit2"
    | "cs = ([MC_Create_Sender, MC_Process_Mon, MC_Run_Actions] @ ?e3) @ mon_exit2"
    | "cs = (?started @ ?e3) @ mon_exit2" | "cs = (?started @ [MC_Cancel_Sender, MC_Detach_Sender]) @ mon_exit2"
    | ret' cs' where "mon_rounds code rs = Some (ret', cs')"
        "cs = (?started @ [MC_Cancel_Sender, MC_Join_Sender, MC_Set ST_M_PARSE_RUN]) @ cs'"
    by (auto simp: mon_exit3_def Let_def split: if_splits option.splits)
  then show ?case
  proof cases
    case 5
    with Cons.IH [OF 5(1)] obtain ds where "cs' = ds @ mon_exit2" "MC_Init_Broker \<notin> set ds" by blast
    with 5(2) show ?thesis
      by (intro exI [of _ "?started @ [MC_Cancel_Sender, MC_Join_Sender, MC_Set ST_M_PARSE_RUN] @ ds"]) simp
  qed (intro exI conjI, assumption, simp)+
qed simp

text \<open>However \<open>main\<close> ends, the processes are ended last, and the broker is closed exactly when \<open>init_broker\<close> was successful.\<close>

lemma mon_main_cleans_up:
  assumes "mon_main code I = Some (ret, cs)"
  shows "(\<exists>ds. cs = ds @ mon_exit) \<and>
    (MC_Close_Broker \<in> set cs \<longleftrightarrow> MC_Init_Broker \<in> set cs \<and> mi_init I = 0)"
proof (cases "mi_cmdline I = - EPERM \<or> mi_log I \<noteq> 0 \<or> mi_init I \<noteq> 0 \<or> mi_reg_event I \<noteq> 0 \<or> mi_reg_born I \<noteq> 0 \<or> mi_parse I < 0 \<or> mi_pcreate_mon I \<noteq> 0")
  case True
  with assms show ?thesis
    by (auto simp: mon_main_def mon_exit2_def mon_exit1_def mon_exit_def Let_def split: if_splits)
next
  case False
  with assms obtain cs1 where r: "mon_rounds code (mi_rounds I) = Some (ret, cs1)"
    "cs = [MC_Init_Broker, MC_Register ''event'', MC_Register ''born'', MC_Parse, MC_Prctl, MC_Create_Mon, MC_Detach_Mon] @ cs1"
    by (auto simp: mon_main_def Let_def)
  from mon_rounds_end [OF r(1)] obtain ds where "cs1 = ds @ mon_exit2" by blast
  with r(2) False show ?thesis by (auto simp: mon_exit2_def mon_exit1_def)
qed

text \<open>
  When the sender cannot be created the monitor's thread is not stopped, and goes on with the mutexes that are destroyed.
\<close>

lemma failed_sender_leaves_thread:
  assumes "mon_rounds code (r # rs) = Some (ret, cs)" and "rd_pcreate r \<noteq> 0"
  shows "MC_Clean_Args \<in> set cs \<and> MC_Cancel_Mon \<notin> set cs"
  using assms by (auto simp: mon_exit2_def mon_exit1_def mon_exit_def)

text \<open>The callbacks are registered under the name \<open>all\<close> and unregistered under the monitor's own: that finds none of them.\<close>

lemma unregister_loop_none:
  "\<forall>d \<in> set ds. topic d \<noteq> t \<Longrightarrow> unregister_loop t aw envs k ret ds b = (ret, ds, b)"
  by (induction ds) auto

lemma monitor_unregisters_nothing:
  assumes "\<forall>d \<in> set (cb_list b). topic d \<in> {topic_of ''all'' (Some ''event''), topic_of ''all'' (Some ''born'')}"
    and "prog \<noteq> ''all''" and "length prog < 200" and "CHR ''/'' \<notin> set prog" and "type = ''born'' \<or> type = ''event''"
  shows "unregister_callback aw envs (Some prog) (Some type) b = (0, b)"
proof -
  have ne: "prog @ CHR ''/'' # x \<noteq> ''all'' @ CHR ''/'' # y" for x y
  proof
    assume e: "prog @ CHR ''/'' # x = ''all'' @ CHR ''/'' # y"
    have "takeWhile (\<lambda>c. c \<noteq> CHR ''/'') (prog @ CHR ''/'' # x) = prog" using assms(4) by (subst takeWhile_append2) auto
    with e assms(2) show False by simp
  qed
  have "topic_of prog (Some type) \<notin> {topic_of ''all'' (Some ''event''), topic_of ''all'' (Some ''born'')}"
    using assms(3,5) ne [of "''pub/'' @ type"] by (auto simp: topic_of_def TOPIC_TYPE_def)
  then have "\<forall>d \<in> set (cb_list b). topic d \<noteq> topic_of prog (Some type)" using assms(1) by auto
  then show ?thesis by (simp add: unregister_callback_def unregister_cb_common_def unregister_loop_none)
qed

end
