(* ===== verification/GW_MonSystem.thy ===== *)
theory GW_MonSystem
  imports GW_MonMain
begin

text \<open>
  The monitor's threads together (\<open>src/code/example/mon.c\<close>): \<open>main\<close> from its loop on, \<open>mon_thread\<close>, \<open>send_thread\<close>, the broker's callback and
  the processes that end, as steps on one state.

  The threads share the state \<open>st_m\<close> and the table of processes.  A step of a thread goes from one access to \<open>st_m\<close> to the next; \<open>run_actions\<close>,
  a check of the children and a round of \<open>send_cmd2dev\<close> are one step each, where the other threads touch nothing of theirs.
  \<open>put\<close> is \<open>set_statemachine\<close>, which is not in the repository, nor is the place that sets \<open>ST_M_QUIT\<close>.
\<close>

section \<open>The threads\<close>

datatype main_pc = P_Create | P_Run | P_Fork | P_Wait | P_Cancel | P_Leave | P_Gone

datatype sender_pc = S_Off | S_Wait | S_Test nat | S_Send nat | S_Announce | S_Last | S_Fail

datatype watch_pc = N_Wait | N_Collect | N_Exit

record mon =
  ms_st :: mon_state
  ms_excel :: "excel_s list"
  ms_kids :: kids
  ms_run :: "run_s list"
  ms_main :: main_pc
  ms_sender :: sender_pc
  ms_watch :: watch_pc
  ms_signalled :: "int list"

datatype thread = Main | Sender | Watch | Outside

text \<open>The children, and those of them that are alive; the kernel's numbers are positive and different.\<close>

definition pids :: "kids \<Rightarrow> int set" where
  "pids ks = fst ` set ks"

definition live :: "kids \<Rightarrow> int set" where
  "live ks = {p. (p, False) \<in> set ks}"

definition good_kids :: "kids \<Rightarrow> bool" where
  "good_kids ks \<longleftrightarrow> distinct (map fst ks) \<and> (\<forall>p \<in> pids ks. 0 < p)"

text \<open>What the kernel and the missing functions do: \<open>vfork\<close> gives a number no child has; \<open>kill_process\<close> starts nothing and keeps the number of a child it leaves alive.\<close>

definition fresh_forks :: "fork_env list \<Rightarrow> kids \<Rightarrow> bool" where
  "fresh_forks es ks \<longleftrightarrow> (\<forall>e \<in> set es. fe_pid e \<noteq> 0) \<and> distinct (map fe_pid (filter (\<lambda>e. 0 < fe_pid e) es)) \<and>
     fe_pid ` set es \<inter> pids ks = {}"

definition kills :: "(int \<Rightarrow> bytes \<Rightarrow> kids \<Rightarrow> int \<times> kids) \<Rightarrow> bool" where
  "kills kp \<longleftrightarrow> (\<forall>p c ks p' ks'. kp p c ks = (p', ks') \<and> good_kids ks \<longrightarrow>
     good_kids ks' \<and> live ks' \<subseteq> live ks \<and> (p \<in> live ks' \<longrightarrow> p' = p))"

definition assigns :: "(mon_state \<Rightarrow> mon_state \<Rightarrow> mon_state) \<Rightarrow> bool" where
  "assigns put \<longleftrightarrow> (\<forall>new old. put new old = new)"

text \<open>\<open>main\<close>: \<open>exit3\<close> and \<open>exit2\<close> come to \<open>kill_all\<close>; the monitor is gone when \<open>main\<close> returns.\<close>

inductive main_step ::
    "(mon_state \<Rightarrow> mon_state \<Rightarrow> mon_state) \<Rightarrow> (int \<Rightarrow> bytes \<Rightarrow> kids \<Rightarrow> int \<times> kids) \<Rightarrow> mon \<Rightarrow> mon \<Rightarrow> bool"
  for put :: "mon_state \<Rightarrow> mon_state \<Rightarrow> mon_state" and kp :: "int \<Rightarrow> bytes \<Rightarrow> kids \<Rightarrow> int \<times> kids" where
  Create: "ms_main s = P_Create \<Longrightarrow> main_step put kp s (s\<lparr>ms_main := P_Run, ms_sender := S_Wait\<rparr>)"
| Create_Fails: "ms_main s = P_Create \<Longrightarrow> main_step put kp s (s\<lparr>ms_main := P_Leave\<rparr>)"
| Run: "ms_main s = P_Run \<Longrightarrow> process_mon True (ms_excel s) (ms_kids s) = Some (n, tb, ks) \<Longrightarrow> fresh_forks es ks \<Longrightarrow>
    run_actions kp es [] tb ks = Some (ret, tb', ks') \<Longrightarrow>
    main_step put kp s (s\<lparr>ms_excel := tb', ms_kids := ks', ms_main := (if ret = 0 then P_Fork else P_Leave)\<rparr>)"
| Fork: "ms_main s = P_Fork \<Longrightarrow> main_step put kp s (s\<lparr>ms_st := put ST_M_FORK (ms_st s), ms_main := P_Wait\<rparr>)"
| See_Quit: "ms_main s = P_Wait \<Longrightarrow> ms_st s = ST_M_QUIT \<Longrightarrow> main_step put kp s (s\<lparr>ms_main := P_Cancel\<rparr>)"
| See_Exit: "ms_main s = P_Wait \<Longrightarrow> ms_st s = ST_M_EXIT \<Longrightarrow> main_step put kp s (s\<lparr>ms_main := P_Leave\<rparr>)"
| Cancel: "ms_main s = P_Cancel \<Longrightarrow>
    main_step put kp s (s\<lparr>ms_sender := S_Off, ms_st := put ST_M_PARSE_RUN (ms_st s), ms_main := P_Create\<rparr>)"
| Cancel_Fails: "ms_main s = P_Cancel \<Longrightarrow> main_step put kp s (s\<lparr>ms_main := P_Leave\<rparr>)"
| Leave: "ms_main s = P_Leave \<Longrightarrow> kill_all kill dies (ms_excel s) (ms_kids s) = Some (ret, ps, tb, ks) \<Longrightarrow>
    main_step put kp s (s\<lparr>ms_main := P_Gone, ms_excel := tb, ms_kids := ks, ms_signalled := ps\<rparr>)"

text \<open>\<open>mon_thread\<close>: it reads the state, collects, and tells.\<close>

inductive watch_step :: "(mon_state \<Rightarrow> mon_state \<Rightarrow> mon_state) \<Rightarrow> mon \<Rightarrow> mon \<Rightarrow> bool" for put :: "mon_state \<Rightarrow> mon_state \<Rightarrow> mon_state" where
  Look: "ms_watch s = N_Wait \<Longrightarrow> ms_st s \<in> {ST_M_FORK, ST_M_DONE} \<Longrightarrow> watch_step put s (s\<lparr>ms_watch := N_Collect\<rparr>)"
| Collect: "ms_watch s = N_Collect \<Longrightarrow> process_mon False (ms_excel s) (ms_kids s) = Some (n, tb, ks) \<Longrightarrow>
    watch_step put s (s\<lparr>ms_excel := tb, ms_kids := ks, ms_watch := (if n \<noteq> 0 then N_Exit else N_Wait)\<rparr>)"
| Tell: "ms_watch s = N_Exit \<Longrightarrow> watch_step put s (s\<lparr>ms_st := put ST_M_EXIT (ms_st s), ms_watch := N_Wait\<rparr>)"

text \<open>\<open>send_thread\<close>; \<open>sh\<close> is the word for shell commands.\<close>

inductive sender_step :: "(mon_state \<Rightarrow> mon_state \<Rightarrow> mon_state) \<Rightarrow> nat \<Rightarrow> bytes \<Rightarrow> mon \<Rightarrow> mon \<Rightarrow> bool"
  for put :: "mon_state \<Rightarrow> mon_state \<Rightarrow> mon_state" and retry :: nat and sh :: bytes where
  Waited: "ms_sender s = S_Wait \<Longrightarrow> sender_step put retry sh s (s\<lparr>ms_sender := S_Test 0\<rparr>)"
| Test: "ms_sender s = S_Test k \<Longrightarrow> sender_step put retry sh s
    (s\<lparr>ms_sender := (if retry \<le> k then S_Last else if ms_st s = ST_M_FORK then S_Send k else S_Off)\<rparr>)"
| Send: "ms_sender s = S_Send k \<Longrightarrow> mn_shell E = sh \<Longrightarrow> send_cmd2dev E (ms_st s) (ms_run s) = Inr (ret, rs, cs) \<Longrightarrow>
    sender_step put retry sh s (s\<lparr>ms_run := rs, ms_sender := (if ret = 0 then S_Announce else S_Test (Suc k))\<rparr>)"
| Announce: "ms_sender s = S_Announce \<Longrightarrow> sender_step put retry sh s (s\<lparr>ms_st := put ST_M_DONE (ms_st s), ms_sender := S_Off\<rparr>)"
| Last: "ms_sender s = S_Last \<Longrightarrow> sender_step put retry sh s (s\<lparr>ms_sender := (if ms_st s \<noteq> ST_M_DONE then S_Fail else S_Off)\<rparr>)"
| Fail: "ms_sender s = S_Fail \<Longrightarrow> sender_step put retry sh s (s\<lparr>ms_st := put ST_M_EXIT (ms_st s), ms_sender := S_Off\<rparr>)"

inductive outside_step :: "(mon_state \<Rightarrow> mon_state \<Rightarrow> mon_state) \<Rightarrow> mon \<Rightarrow> mon \<Rightarrow> bool" for put :: "mon_state \<Rightarrow> mon_state \<Rightarrow> mon_state" where
  Ends: "outside_step put s (s\<lparr>ms_kids := end_children [p] (ms_kids s)\<rparr>)"
| Exception: "outside_step put s (s\<lparr>ms_st := put (fst (client_exception buf from)) (ms_st s)\<rparr>)"
| Quit: "outside_step put s (s\<lparr>ms_st := put ST_M_QUIT (ms_st s)\<rparr>)"

definition mon_step ::
    "(mon_state \<Rightarrow> mon_state \<Rightarrow> mon_state) \<Rightarrow> (int \<Rightarrow> bytes \<Rightarrow> kids \<Rightarrow> int \<times> kids) \<Rightarrow> nat \<Rightarrow> bytes \<Rightarrow> thread \<Rightarrow> mon \<Rightarrow> mon \<Rightarrow> bool" where
  "mon_step put kp retry sh t s s' \<longleftrightarrow> ms_main s \<noteq> P_Gone \<and>
     (case t of
        Main \<Rightarrow> main_step put kp s s'
      | Sender \<Rightarrow> sender_step put retry sh s s'
      | Watch \<Rightarrow> watch_step put s s'
      | Outside \<Rightarrow> outside_step put s s')"

text \<open>The state in front of the loop, with the tables \<open>parse_inittab\<close> has read.\<close>

definition mon_start :: "excel_s list \<Rightarrow> run_s list \<Rightarrow> mon" where
  "mon_start tb rs = \<lparr>ms_st = ga_st_m (snd (global_args_init 0)), ms_excel = tb, ms_kids = [], ms_run = rs, ms_main = P_Create, ms_sender = S_Off,
     ms_watch = N_Wait, ms_signalled = []\<rparr>"

inductive mon_reach ::
    "(mon_state \<Rightarrow> mon_state \<Rightarrow> mon_state) \<Rightarrow> (int \<Rightarrow> bytes \<Rightarrow> kids \<Rightarrow> int \<times> kids) \<Rightarrow> nat \<Rightarrow> bytes \<Rightarrow> mon \<Rightarrow> bool"
  for put :: "mon_state \<Rightarrow> mon_state \<Rightarrow> mon_state" and kp :: "int \<Rightarrow> bytes \<Rightarrow> kids \<Rightarrow> int \<times> kids" and retry :: nat and sh :: bytes where
  Start: "mon_reach put kp retry sh (mon_start tb rs)"
| Step: "mon_reach put kp retry sh s \<Longrightarrow> mon_step put kp retry sh t s s' \<Longrightarrow> mon_reach put kp retry sh s'"

section \<open>No process is lost\<close>

text \<open>The processes that are alive are in the table.\<close>

definition tracked :: "excel_s list \<Rightarrow> kids \<Rightarrow> bool" where
  "tracked rs ks \<longleftrightarrow> good_kids ks \<and> live ks \<subseteq> ex_pid ` set rs"

lemma live_pos: "good_kids ks \<Longrightarrow> p \<in> live ks \<Longrightarrow> 0 < p"
  by (force simp: good_kids_def live_def pids_def)

lemma live_pids: "p \<in> live ks \<Longrightarrow> p \<in> pids ks"
  by (force simp: live_def pids_def)

lemma end_children_kids [simp]:
  "pids (end_children d ks) = pids ks" "live (end_children d ks) = live ks - set d" "good_kids (end_children d ks) = good_kids ks"
proof -
  show p: "pids (end_children d ks) = pids ks" unfolding pids_def by simp
  have mem: "(p, False) \<in> set (end_children d ks) \<longleftrightarrow> (p, False) \<in> set ks \<and> p \<notin> set d" for p
    by (induction ks) (auto simp: end_children_def)
  then show "live (end_children d ks) = live ks - set d" by (auto simp: live_def)
  show "good_kids (end_children d ks) = good_kids ks" unfolding good_kids_def p by simp
qed

lemma reap_kids [simp]:
  "good_kids ks \<Longrightarrow> good_kids (reap p ks)" "live (reap p ks) = live ks - {p}" "pids (reap p ks) = pids ks - {p}"
  by (auto simp: good_kids_def reap_def live_def pids_def distinct_map_filter)

lemma waitpid_good:
  assumes "waitpid_nohang p ks = (w, ks')" and "good_kids ks"
  shows "good_kids ks' \<and> live ks' \<subseteq> live ks \<and> pids ks' \<subseteq> pids ks \<and> (p = w \<longrightarrow> p \<notin> live ks') \<and> (0 < w \<longrightarrow> w \<notin> pids ks')"
proof (cases "p = - 1 \<or> p = 0")
  case True
  then have "p \<notin> live ks" using live_pos [OF assms(2)] by force
  with True assms show ?thesis by (auto simp: waitpid_nohang_def split: list.splits if_splits)
next
  case False
  with assms show ?thesis by (auto simp: waitpid_nohang_def split: option.splits if_splits)
qed

lemma mark_terminated_tracked:
  assumes "mark_terminated pid rs ks = (n, rs', ks')" and "good_kids ks" and "pid \<notin> pids ks"
  shows "good_kids ks' \<and> live ks' \<subseteq> live ks \<and> pids ks' \<subseteq> pids ks \<and> live ks' \<inter> ex_pid ` set rs \<subseteq> ex_pid ` set rs'"
  using assms
proof (induction rs arbitrary: ks n rs' ks')
  case (Cons r rs)
  define hk where "hk = (if ex_pid r = pid then (True, ks) else let (w, ks') = waitpid_nohang (ex_pid r) ks in (ex_pid r = w, ks'))"
  obtain hit ks1 where h: "hk = (hit, ks1)" by (cases hk)
  obtain m rs1 ks2 where m: "mark_terminated pid rs ks1 = (m, rs1, ks2)" by (metis prod_cases3)
  have pid: "pid \<notin> live ks" using Cons.prems(3) live_pids by blast
  have k1: "good_kids ks1 \<and> live ks1 \<subseteq> live ks \<and> pids ks1 \<subseteq> pids ks \<and> (hit \<longrightarrow> ex_pid r \<notin> live ks1)"
    using h Cons.prems(2) pid waitpid_good [OF _ Cons.prems(2), of "ex_pid r"]
    by (auto simp: hk_def Let_def split: if_splits prod.splits)
  with Cons.prems(3) have "pid \<notin> pids ks1" by blast
  with Cons.IH [OF m] k1 have k2: "good_kids ks2 \<and> live ks2 \<subseteq> live ks1 \<and> pids ks2 \<subseteq> pids ks1 \<and>
      live ks2 \<inter> ex_pid ` set rs \<subseteq> ex_pid ` set rs1" by blast
  have "(n, rs', ks') = (if hit then (m + 1, r\<lparr>ex_pid := - 1\<rparr> # rs1, ks2) else (m, r # rs1, ks2))"
    using Cons.prems(1) h m by (simp add: hk_def [symmetric] Let_def)
  with k1 k2 show ?case by (auto split: if_splits)
qed simp

lemma process_mon_tracked:
  assumes "process_mon nohang rs ks = Some (n, rs', ks')" and "good_kids ks"
  shows "good_kids ks' \<and> live ks' \<subseteq> live ks \<and> pids ks' \<subseteq> pids ks \<and> length rs' = length rs \<and> live ks' \<inter> ex_pid ` set rs \<subseteq> ex_pid ` set rs'"
proof -
  obtain w ks1 where w: "waitpid_nohang (- 1) ks = (w, ks1)" by fastforce
  from waitpid_good [OF w assms(2)] have k1: "good_kids ks1" "live ks1 \<subseteq> live ks" "pids ks1 \<subseteq> pids ks" "0 < w \<longrightarrow> w \<notin> pids ks1"
    by simp_all
  show ?thesis
  proof (cases "0 < w")
    case True
    then have m: "mark_terminated w rs ks1 = (n, rs', ks')"
      using assms(1) w by (auto simp: process_mon_def waitpid_any_def split: if_splits)
    from mark_terminated_tracked [OF m k1(1)] mark_terminated_entries [OF m] True k1 show ?thesis
      by (auto dest: list_all2_lengthD)
  next
    case False
    then show ?thesis using assms(1) w k1 by (auto simp: process_mon_def waitpid_any_def split: if_splits)
  qed
qed

lemma tracked_process_mon:
  assumes "process_mon nohang rs ks = Some (n, rs', ks')" and "tracked rs ks"
  shows "tracked rs' ks'"
proof -
  from assms(2) have g: "good_kids ks" and l: "live ks \<subseteq> ex_pid ` set rs" by (simp_all add: tracked_def)
  from process_mon_tracked [OF assms(1) g] have "good_kids ks'" "live ks' \<subseteq> live ks" "live ks' \<inter> ex_pid ` set rs \<subseteq> ex_pid ` set rs'"
    by simp_all
  with l show ?thesis unfolding tracked_def by blast
qed

lemma new_child [simp]:
  "pids (ks @ [(p, b)]) = insert p (pids ks)" "live (ks @ [(p, False)]) = insert p (live ks)"
  "good_kids (ks @ [(p, b)]) \<longleftrightarrow> good_kids ks \<and> 0 < p \<and> p \<notin> pids ks"
  by (auto simp: pids_def live_def good_kids_def)

lemma fresh_forks_next:
  assumes "fresh_forks (e # es) ks" and "0 < fe_pid e"
  shows "fresh_forks es (end_children d (ks @ [(fe_pid e, False)]))"
proof -
  have "fe_pid e \<notin> fe_pid ` set es"
  proof
    assume "fe_pid e \<in> fe_pid ` set es"
    then obtain q where q: "q \<in> set es" "fe_pid q = fe_pid e" by auto
    with assms(2) have "q \<in> set (filter (\<lambda>e. 0 < fe_pid e) es)" by simp
    with q(2) have "fe_pid e \<in> fe_pid ` set (filter (\<lambda>e. 0 < fe_pid e) es)" by (metis imageI)
    with assms show False by (simp add: fresh_forks_def)
  qed
  with assms show ?thesis by (auto simp: fresh_forks_def)
qed

lemma tracked_set: "tracked rs ks \<Longrightarrow> ex_pid ` set rs \<subseteq> ex_pid ` set rs' \<Longrightarrow> tracked rs' ks"
  unfolding tracked_def by blast

lemma killed_tracked:
  assumes "kills kp" and "kp (ex_pid (tb ! i)) c ks = (p, ks')" and "tracked tb ks" and "i < length tb"
  shows "tracked (tb[i := (tb ! i)\<lparr>ex_pid := p\<rparr>]) ks'"
proof -
  from assms(1-3) have k: "good_kids ks'" "live ks' \<subseteq> live ks" "ex_pid (tb ! i) \<in> live ks' \<longrightarrow> p = ex_pid (tb ! i)"
    unfolding kills_def tracked_def by blast+
  have "q \<in> ex_pid ` set (tb[i := (tb ! i)\<lparr>ex_pid := p\<rparr>])" if q: "q \<in> live ks'" for q
  proof -
    from q k(2) assms(3) have "q \<in> ex_pid ` set tb" unfolding tracked_def by blast
    then obtain l where l: "l < length tb" "q = ex_pid (tb ! l)" by (auto simp: in_set_conv_nth)
    then have "ex_pid (tb[i := (tb ! i)\<lparr>ex_pid := p\<rparr>] ! l) = q"
      using k(3) q assms(4) by (cases "l = i") simp_all
    moreover have "tb[i := (tb ! i)\<lparr>ex_pid := p\<rparr>] ! l \<in> set (tb[i := (tb ! i)\<lparr>ex_pid := p\<rparr>])" using l(1) by simp
    ultimately show ?thesis by (metis imageI)
  qed
  with k(1) show ?thesis by (auto simp: tracked_def)
qed

lemma run_actions_tracked:
  assumes "run_actions kp es pre rs ks = Some (ret, tb, ks')" and "kills kp" and "fresh_forks es ks" and "tracked (pre @ rs) ks"
  shows "tracked tb ks'"
  using assms(1,3,4)
proof (induction rs arbitrary: es pre ks)
  case (Cons r rs)
  have good: "good_kids ks" using Cons.prems(3) by (simp add: tracked_def)
  show ?case
  proof (cases "0 < ex_pid r")
    case True
    with Cons show ?thesis by auto
  next
    case False
    with Cons.prems(1) obtain e es' where es: "es = e # es'" by (cases es) auto
    have rest: "live ks \<subseteq> ex_pid ` (set pre \<union> set rs)"
      using Cons.prems(3) False live_pos [OF good] by (fastforce simp: tracked_def)
    let ?r = "r\<lparr>ex_pid := fe_pid e\<rparr>" and ?ks = "end_children (fe_dies e) (ks @ [(fe_pid e, False)])"
    show ?thesis
    proof (cases "fe_pid e < 0")
      case True
      with Cons.prems(1) False es rest good show ?thesis by (auto simp: tracked_def)
    next
      case fork: False
      then have pos: "0 < fe_pid e" and new: "fe_pid e \<notin> pids ks"
        using Cons.prems(2) es by (auto simp: fresh_forks_def order.order_iff_strict)
      have tr: "tracked (pre @ ?r # rs) ?ks" using rest good pos new by (auto simp: tracked_def)
      show ?thesis
      proof (cases "fe_waite e = 0")
        case True
        with Cons.prems(1) False es fork have "run_actions kp es' (pre @ [?r]) rs ?ks = Some (ret, tb, ks')" by simp
        with Cons.IH [OF this] fresh_forks_next [OF _ pos] Cons.prems(2) es tr show ?thesis by simp
      next
        case False
        with Cons.prems(1) \<open>\<not> 0 < ex_pid r\<close> es fork obtain n tb1 ks2 where
          m: "process_mon True (pre @ ?r # rs) ?ks = Some (n, tb1, ks2)" by (auto simp: Let_def)
        obtain p ks3 where k3: "kp (ex_pid (tb1 ! length pre)) (ex_command r) ks2 = (p, ks3)" by fastforce
        with m Cons.prems(1) False \<open>\<not> 0 < ex_pid r\<close> es fork have
          k: "kp (ex_pid (tb1 ! length pre)) (ex_command r) ks2 = (p, ks')" and
          tb: "tb = tb1[length pre := (tb1 ! length pre)\<lparr>ex_pid := p\<rparr>]" by auto
        have "length pre < length tb1" using process_mon_tracked [OF m] tr by (simp add: tracked_def)
        with killed_tracked [OF assms(2) k tracked_process_mon [OF m tr]] tb show ?thesis by simp
      qed
    qed
  qed
qed simp

lemma kill_all_signals_live:
  assumes "kill_all kill dies rs ks = Some (ret, ps, rs', ks')" and "tracked rs ks"
  shows "live ks' \<subseteq> set ps"
proof -
  obtain ret1 rs1 ps1 where k: "kill_loop kill 0 rs = (ret1, rs1, ps1)" by (metis prod_cases3)
  with assms(1) obtain n where m: "process_mon True rs1 (end_children dies ks) = Some (n, rs', ks')" "ps = ps1"
    by (auto simp: kill_all_def)
  from assms(2) have t: "good_kids ks" "live ks \<subseteq> ex_pid ` set rs" by (simp_all add: tracked_def)
  then have "good_kids (end_children dies ks)" by simp
  from process_mon_tracked [OF m(1) this] have "live ks' \<subseteq> live ks" by auto
  moreover have "live ks \<subseteq> set ps"
    using t live_pos [OF t(1)] kill_loop_signals [OF k] m(2) by fastforce
  ultimately show ?thesis by blast
qed

section \<open>The invariant of the monitor\<close>

definition checked :: "bytes \<Rightarrow> run_s list \<Rightarrow> bool" where
  "checked sh rs \<longleftrightarrow> list_all (\<lambda>r. rn_dst r = sh \<or> list_all values_ok (rn_stat_tb r)) rs"

definition mon_inv :: "bytes \<Rightarrow> mon \<Rightarrow> bool" where
  "mon_inv sh s \<longleftrightarrow>
     (if ms_main s = P_Gone then live (ms_kids s) \<subseteq> set (ms_signalled s) else tracked (ms_excel s) (ms_kids s)) \<and>
     (ms_main s = P_Create \<longrightarrow> ms_sender s = S_Off \<and> ms_st s \<noteq> ST_M_DONE) \<and>
     (ms_sender s \<noteq> S_Off \<longrightarrow> ms_st s \<noteq> ST_M_DONE) \<and>
     (ms_sender s = S_Announce \<or> ms_st s = ST_M_DONE \<longrightarrow> checked sh (ms_run s))"

lemma put_assigns: "assigns put \<Longrightarrow> put new old = new"
  by (simp add: assigns_def)

lemma round_checked:
  assumes "send_cmd2dev E st rs = Inr (0, rs', cs)" and "st \<noteq> ST_M_DONE" and "mn_shell E = sh"
  shows "checked sh rs'"
  using assms send_runs_complete [of E 0 rs "[]" rs' cs]
  by (auto simp: send_cmd2dev_def checked_def item_ok_def [abs_def])

lemma main_step_inv:
  assumes "main_step put kp s s'" and "assigns put" and "kills kp" and "ms_main s \<noteq> P_Gone" and "mon_inv sh s"
  shows "mon_inv sh s'"
  using assms
proof (induction rule: main_step.induct)
  case (Run s n tb ks es ret tb' ks')
  then have "tracked (ms_excel s) (ms_kids s)" by (simp add: mon_inv_def)
  then have "tracked ([] @ tb) ks" using tracked_process_mon [OF Run(2)] by simp
  then have "tracked tb' ks'" using run_actions_tracked [OF Run(4)] Run by blast
  with Run show ?case by (simp add: mon_inv_def)
next
  case (Leave s kill dies ret ps tb ks)
  then show ?case using kill_all_signals_live [OF Leave(2)] by (simp add: mon_inv_def)
qed (auto simp: mon_inv_def put_assigns)

lemma watch_step_inv:
  assumes "watch_step put s s'" and "assigns put" and "ms_main s \<noteq> P_Gone" and "mon_inv sh s"
  shows "mon_inv sh s'"
  using assms by (induction rule: watch_step.induct) (auto simp: mon_inv_def put_assigns dest: tracked_process_mon)

lemma sender_step_inv:
  assumes "sender_step put retry sh s s'" and "assigns put" and "mon_inv sh s"
  shows "mon_inv sh s'"
  using assms
proof (induction rule: sender_step.induct)
  case (Send s k E ret rs cs)
  then show ?case using round_checked [of E "ms_st s" "ms_run s" rs cs sh] by (auto simp: mon_inv_def)
qed (auto simp: mon_inv_def put_assigns)

lemma outside_step_inv:
  assumes "outside_step put s s'" and "assigns put" and "ms_main s \<noteq> P_Gone" and "mon_inv sh s"
  shows "mon_inv sh s'"
  using assms by (induction rule: outside_step.induct) (auto simp: mon_inv_def tracked_def client_exception_def put_assigns)


section \<open>A run\<close>

text \<open>Two processes are started and the empty table is sent; then the first of them ends and is collected.\<close>

definition ex_entry :: "int \<Rightarrow> excel_s" where
  "ex_entry p = \<lparr>ex_pid = p, ex_command = ''rf''\<rparr>"

definition ex_late :: mon where
  "ex_late = \<lparr>ms_st = ST_M_FORK, ms_excel = [ex_entry (- 1), ex_entry 12], ms_kids = [(12, False)], ms_run = [], ms_main = P_Wait,
     ms_sender = S_Announce, ms_watch = N_Exit, ms_signalled = []\<rparr>"

abbreviation ex_put :: "mon_state \<Rightarrow> mon_state \<Rightarrow> mon_state" where "ex_put \<equiv> \<lambda>new old. new"
abbreviation ex_kp :: "int \<Rightarrow> bytes \<Rightarrow> kids \<Rightarrow> int \<times> kids" where "ex_kp \<equiv> \<lambda>p c ks. (p, ks)"

lemma ex_assumptions: "assigns ex_put" "kills ex_kp"
  by (simp_all add: assigns_def kills_def)

lemma ex_late_reached: "mon_reach ex_put ex_kp 3 ''sh'' ex_late"
proof -
  let ?R = "mon_reach ex_put ex_kp 3 ''sh''"
  let ?m = "\<lambda>st tb ks m snd w. \<lparr>ms_st = st, ms_excel = tb, ms_kids = ks, ms_run = [], ms_main = m, ms_sender = snd, ms_watch = w, ms_signalled = []\<rparr>"
  let ?tb = "[ex_entry 11, ex_entry 12]" and ?ks = "[(11, False), (12, False)]" and ?ks' = "[(11, True), (12, False)]"
  let ?es = "[\<lparr>fe_pid = 11, fe_dies = [], fe_waite = 0\<rparr>, \<lparr>fe_pid = 12, fe_dies = [], fe_waite = 0\<rparr>]"
  have next_step: "?R s \<Longrightarrow> mon_step ex_put ex_kp 3 ''sh'' t s s' \<Longrightarrow> ?R s'" for s t s' by (rule mon_reach.Step)
  have 0: "?R (?m ST_M_INIT [ex_entry 0, ex_entry 0] [] P_Create S_Off N_Wait)"
    using mon_reach.Start [of ex_put ex_kp 3 "''sh''" "[ex_entry 0, ex_entry 0]" "[]"] by (simp add: mon_start_def global_args_init_def)
  have 1: "?R (?m ST_M_INIT [ex_entry 0, ex_entry 0] [] P_Run S_Wait N_Wait)"
    by (rule next_step [OF 0, of Main]) (use main_step.Create [of "?m ST_M_INIT [ex_entry 0, ex_entry 0] [] P_Create S_Off N_Wait"] in \<open>simp add: mon_step_def\<close>)
  have 2: "?R (?m ST_M_INIT ?tb ?ks P_Fork S_Wait N_Wait)"
    by (rule next_step [OF 1, of Main])
      (use main_step.Run [of "?m ST_M_INIT [ex_entry 0, ex_entry 0] [] P_Run S_Wait N_Wait" 0 "[ex_entry 0, ex_entry 0]" "[]" ?es ex_kp 0 ?tb ?ks]
        in \<open>simp add: mon_step_def process_mon_def waitpid_any_def waitpid_nohang_def fresh_forks_def pids_def ex_entry_def end_children_def\<close>)
  have 3: "?R (?m ST_M_FORK ?tb ?ks P_Wait S_Wait N_Wait)"
    by (rule next_step [OF 2, of Main]) (use main_step.Fork [of "?m ST_M_INIT ?tb ?ks P_Fork S_Wait N_Wait" ex_put] in \<open>simp add: mon_step_def\<close>)
  have 4: "?R (?m ST_M_FORK ?tb ?ks P_Wait (S_Test 0) N_Wait)"
    by (rule next_step [OF 3, of Sender]) (use sender_step.Waited [of "?m ST_M_FORK ?tb ?ks P_Wait S_Wait N_Wait"] in \<open>simp add: mon_step_def\<close>)
  have 5: "?R (?m ST_M_FORK ?tb ?ks P_Wait (S_Send 0) N_Wait)"
    by (rule next_step [OF 4, of Sender])
      (use sender_step.Test [of "?m ST_M_FORK ?tb ?ks P_Wait (S_Test 0) N_Wait" 0 _ 3] in \<open>simp add: mon_step_def\<close>)
  have 6: "?R (?m ST_M_FORK ?tb ?ks P_Wait S_Announce N_Wait)"
    by (rule next_step [OF 5, of Sender])
      (use sender_step.Send [of "?m ST_M_FORK ?tb ?ks P_Wait (S_Send 0) N_Wait" 0
          "\<lparr>mn_read = \<lambda>f. (0, []), mn_get_stat = \<lambda>b. 0, mn_get_json = \<lambda>b st. (0, st), mn_shell = ''sh'', mn_answer = \<lambda>k. (0, None)\<rparr>" "''sh''" 0 "[]" "[]"]
        in \<open>simp add: mon_step_def send_cmd2dev_def\<close>)
  have 7: "?R (?m ST_M_FORK ?tb ?ks' P_Wait S_Announce N_Wait)"
    by (rule next_step [OF 6, of Outside])
      (use outside_step.Ends [of _ "?m ST_M_FORK ?tb ?ks P_Wait S_Announce N_Wait" 11] in \<open>simp add: mon_step_def end_children_def\<close>)
  have 8: "?R (?m ST_M_FORK ?tb ?ks' P_Wait S_Announce N_Collect)"
    by (rule next_step [OF 7, of Watch]) (use watch_step.Look [of "?m ST_M_FORK ?tb ?ks' P_Wait S_Announce N_Wait"] in \<open>simp add: mon_step_def\<close>)
  have "?R (?m ST_M_FORK [ex_entry (- 1), ex_entry 12] [(12, False)] P_Wait S_Announce N_Exit)"
    by (rule next_step [OF 8, of Watch])
      (use watch_step.Collect [of "?m ST_M_FORK ?tb ?ks' P_Wait S_Announce N_Collect" 1 "[ex_entry (- 1), ex_entry 12]" "[(12, False)]"]
        in \<open>simp add: mon_step_def process_mon_def waitpid_any_def waitpid_nohang_def reap_def ex_entry_def\<close>)
  then show ?thesis by (simp add: ex_late_def)
qed


section \<open>An exit that is lost\<close>

text \<open>When no process of the monitor ends, the state \<open>ST_M_DONE\<close> is final: \<open>main\<close> waits for another one, the watcher for a child.\<close>

definition settled :: "excel_s list \<Rightarrow> kids \<Rightarrow> mon \<Rightarrow> bool" where
  "settled tb ks s \<longleftrightarrow> ms_main s = P_Wait \<and> ms_st s = ST_M_DONE \<and> ms_sender s = S_Off \<and> ms_watch s \<in> {N_Wait, N_Collect} \<and>
     ms_excel s = tb \<and> ms_kids s = ks"

lemma settled_step:
  assumes "mon_step put kp retry sh t s s'" and "t \<noteq> Outside" and "settled tb ks s" and "ks \<noteq> []" and "filter snd ks = []"
  shows "settled tb ks s'"
  using assms
  by (cases t) (auto simp: mon_step_def settled_def process_mon_def waitpid_any_def
      elim: main_step.cases watch_step.cases sender_step.cases)



end
