(* ===== verification/GW_Examples.thy ===== *)
theory GW_Examples
  imports GW_ProcBroker
begin

text \<open>
  The trial programs under \<open>src/code/example\<close>: \<open>receiver.c\<close>, a client that sends one message; \<open>server_temp.c\<close>, which
  stands in for the adapter and sends a file to its client again and again; \<open>mosquitto_test/publish.c\<close> and
  \<open>mosquitto_test/subsrciber.c\<close>, which try the broker.  They speak the wire format of \<open>GW_Stream\<close>.

  What the system calls return is an input; what they are given is the result.
\<close>

section \<open>The client\<close>

text \<open>\<open>junk\<close> is the uninitialised array \<open>sendMessage\<close>; four bytes more are sent than were written.\<close>

definition receiver_message :: "bytes \<Rightarrow> bytes res" where
  "receiver_message junk =
     (let sendbuf = ''1'' @ replicate 1023 NUL; messageLen = 1024 + 4
      in res_bind (wr (take 1500 junk) 0 (le32 messageLen)) (\<lambda>m1.
         res_bind (wr m1 4 sendbuf) (\<lambda>m2. rd m2 0 (messageLen + 4))))"

text \<open>\<open>main\<close>: the exit code, or the message, after which it receives for ever.\<close>

definition receiver_main :: "int \<Rightarrow> int \<Rightarrow> bytes \<Rightarrow> (int + bytes) res" where
  "receiver_main sock conn junk =
     (if sock < 0 then Inr (Inl 1)
      else if conn < 0 then Inr (Inl 2)
      else res_bind (receiver_message junk) (\<lambda>m. Inr (Inr m)))"

lemma header_then_data:
  assumes "length h = 4" and "4 + length d \<le> length b"
  shows "res_bind (wr b 0 h) (\<lambda>m1. res_bind (wr m1 4 d) k) = k (h @ d @ drop (4 + length d) b)"
  using assms by (simp add: wr_def add.commute)

lemma sendbuf_split: "''1'' @ replicate 1023 NUL = le32 49 @ replicate 1020 NUL"
proof -
  have s: "replicate 1023 NUL = replicate 3 NUL @ replicate 1020 NUL" by (simp flip: replicate_add)
  have "char_of (49 :: int) = CHR ''1''" "char_of (0 :: int) = NUL" by (simp_all add: char_of_def)
  then show ?thesis unfolding s by (simp add: le32_def numeral_3_eq_3)
qed

lemma receiver_message_frame:
  assumes "length junk = 1500"
  shows "receiver_message junk = Inr (mk_frame (49, replicate 1020 NUL @ take 4 (drop 1028 junk)))"
proof -
  let ?d = "''1'' @ replicate 1023 NUL"
  have j: "take 1500 junk = junk" "4 + length ?d \<le> length junk" using assms by simp_all
  have "receiver_message junk = rd (le32 1028 @ ?d @ drop 1028 junk) 0 1032"
    unfolding receiver_message_def Let_def j(1)
    by (subst header_then_data [OF length_le32 j(2)]) simp
  also have "\<dots> = rd ([] @ (le32 1028 @ ?d @ take 4 (drop 1028 junk)) @ drop 4 (drop 1028 junk)) 0 1032"
    by (simp del: drop_drop)
  also have "\<dots> = Inr (le32 1028 @ ?d @ take 4 (drop 1028 junk))"
    by (rule rd_mid) (use assms in simp_all)
  finally show ?thesis using assms by (simp add: mk_frame_def sendbuf_split [simplified])
qed

text \<open>The adapter takes the message for one complete frame of a type it has no event for.\<close>

lemma receiver_message_ignored:
  assumes "length junk = 1500"
  shows "\<exists>p. receiver_message junk = Inr (stream [(49, p)]) \<and> frame_ok 2001 (49, p) \<and> frame_msgs mem (49, p) = []"
  using receiver_message_frame [OF assms] assms by (auto simp: frame_ok_def frame_msgs_def frame_event_def)

section \<open>The server that stands in for the adapter\<close>

text \<open>\<open>sendMessage\<close> is a block of \<open>BUFFER_SIZE\<close> bytes; the number of the round stands in the place of the type.\<close>

definition temp_fill :: "bytes \<Rightarrow> int \<Rightarrow> bytes \<Rightarrow> bytes res" where
  "temp_fill b send_num file =
     res_bind (chk32 (int (length file) + 4)) (\<lambda>messageLen.
     res_bind (wr b 0 (le32 messageLen)) (\<lambda>b1.
     res_bind (wr b1 4 (le32 send_num)) (\<lambda>b2. wr b2 8 file)))"

text \<open>
  A round of the loop; \<open>st k\<close> is what \<open>send\<close> returns in the round with number \<open>k\<close>, \<open>rv k\<close> what the following \<open>recv\<close> stores (every fifth time),
  which is then printed as a string.  The state is the block, \<open>error\<close>, \<open>counter\<close> and what was handed to \<open>send\<close>.
\<close>

type_synonym temp_state = "bytes \<times> int \<times> int \<times> bytes list"

definition temp_round :: "(int \<Rightarrow> int) \<Rightarrow> (int \<Rightarrow> bytes) \<Rightarrow> bytes \<Rightarrow> int \<Rightarrow> temp_state \<Rightarrow> temp_state res" where
  "temp_round st rv file send_num s =
     (case s of (b, error, counter, sent) \<Rightarrow>
        res_bind (temp_fill b send_num file) (\<lambda>b1.
        res_bind (rd b1 0 (int (length file) + 4 + 4)) (\<lambda>m.
          let error' = (if st send_num \<noteq> int (length file) + 4 + 4 then error + 1 else error);
              counter' = counter + 1
          in if counter' = 5 then
               res_bind (wr b1 0 (take 10240 (rv send_num))) (\<lambda>b2.
               res_bind (c_string b2) (\<lambda>_. Inr (b2, error', 0, sent @ [m])))
             else Inr (b1, error', counter', sent @ [m]))))"

text \<open>\<open>while(send_num--)\<close>: the body sees the numbers below the start value.\<close>

fun temp_loop :: "(int \<Rightarrow> int) \<Rightarrow> (int \<Rightarrow> bytes) \<Rightarrow> bytes \<Rightarrow> nat \<Rightarrow> temp_state \<Rightarrow> temp_state res" where
  "temp_loop st rv file 0 s = Inr s"
| "temp_loop st rv file (Suc n) s = res_bind (temp_round st rv file (int n) s) (temp_loop st rv file n)"

text \<open>
  \<open>main\<close>: a file that cannot be opened ends the program; the trial request's \<open>dst\<close> is printed; a socket call that fails returns 0; and
  after the loop the program stays in \<open>stop\<close>.  The results of the broker calls are not looked at.  \<open>mem\<close> is the fresh block.
\<close>

datatype temp_end = Exits | Returns int | Stops temp_state

definition temp_main ::
    "'d dbl \<Rightarrow> (bytes \<Rightarrow> bytes option) \<Rightarrow> int \<Rightarrow> int \<Rightarrow> int \<Rightarrow> int \<Rightarrow> (int \<Rightarrow> int) \<Rightarrow> (int \<Rightarrow> bytes) \<Rightarrow> bytes \<Rightarrow> temp_end res" where
  "temp_main D fs sock bnd lstn conn st rv mem =
     (case readfile fs ''/home/gyl/liqingSpace/code/labwindows/code/cst_upload_to_arm.dat'' of
        None \<Rightarrow> Inr Exits
      | Some file_buf \<Rightarrow>
          (case readfile fs ''/home/gyl/liqingSpace/code/labwindows/code/gpio_stat.json'' of
             None \<Rightarrow> Inr Exits
           | Some json_file \<Rightarrow>
               res_bind (json_of D (cstr json_file)) (\<lambda>root.
               res_bind (member_text root ''dst'') (\<lambda>dst.
               res_bind (need dst) (\<lambda>_.
               if sock = - 1 \<or> bnd = - 1 \<or> lstn = - 1 \<or> conn = - 1 then Inr (Returns 0)
               else res_bind (temp_loop st rv (cstr file_buf) 100000 (take 10240 mem, 0, 0, [])) (\<lambda>s. Inr (Stops s)))))))"

lemma temp_fill_frame:
  assumes "length file + 8 \<le> length b" and "length file < 2147483640"
  shows "temp_fill b k file = Inr (mk_frame (k, file) @ drop (length file + 8) b)"
  using assms by (simp add: temp_fill_def wr_def mk_frame_def)

lemma temp_round_frame:
  assumes "length file + 8 \<le> length b" and "length b = 10240" and "\<forall>k. NUL \<in> set (rv k) \<and> length (rv k) \<le> 10240"
  shows "\<exists>b' e' c'. temp_round st rv file k (b, e, c, sent) = Inr (b', e', c', sent @ [mk_frame (k, file)]) \<and> length b' = 10240"
proof -
  obtain b1 where b1: "b1 = mk_frame (k, file) @ drop (length file + 8) b" by blast
  have f: "temp_fill b k file = Inr b1" using temp_fill_frame assms(1,2) b1 by simp
  have m: "rd b1 0 (int (length file) + 4 + 4) = Inr (mk_frame (k, file))" by (simp add: rd_def b1)
  have len: "length b1 = 10240" "length (rv k) \<le> 10240" "take 10240 (rv k) = rv k" using assms by (simp_all add: b1)
  then have "wr b1 0 (rv k) = Inr (rv k @ drop (length (rv k)) b1)" by (simp add: wr_def)
  moreover have "c_string (rv k @ drop (length (rv k)) b1) = Inr (cstr (rv k @ drop (length (rv k)) b1))"
    using assms(3) by (simp add: c_string_def)
  ultimately show ?thesis using f m len by (simp add: temp_round_def Let_def)
qed

text \<open>A file that fits is sent as it is in every round, framed, the rounds counted down; one that does not fit overruns the block.\<close>

lemma temp_loop_frames:
  assumes "length file + 8 \<le> 10240" and "\<forall>k. NUL \<in> set (rv k) \<and> length (rv k) \<le> 10240" and "length b = 10240"
  shows "\<exists>b' e' c'. temp_loop st rv file n (b, e, c, sent) =
    Inr (b', e', c', sent @ map (\<lambda>k. mk_frame (int k, file)) (rev [0..<n]))"
  using assms(3)
proof (induction n arbitrary: b e c sent)
  case (Suc n)
  have "length file + 8 \<le> length b" using assms(1) Suc.prems by simp
  from temp_round_frame [OF this Suc.prems assms(2)] obtain b1 e1 c1 where
    r: "temp_round st rv file (int n) (b, e, c, sent) = Inr (b1, e1, c1, sent @ [mk_frame (int n, file)])" "length b1 = 10240"
    by blast
  with Suc.IH [OF r(2), of e1 c1 "sent @ [mk_frame (int n, file)]"] show ?case by auto
qed simp

lemma temp_loop_overrun:
  assumes "10240 < length file + 8" and "length file < 2147483640" and "length b = 10240"
  shows "temp_loop st rv file (Suc n) (b, e, c, sent) = Inl OutOfBounds"
  using assms by (simp add: temp_round_def temp_fill_def wr_def)

section \<open>The broker's trial programs\<close>

text \<open>\<open>fgets\<close> with an array of \<open>n\<close> bytes: at most \<open>n - 1\<close> characters, up to and with a line's end; \<open>None\<close> at the end of the input.\<close>

fun take_line :: "nat \<Rightarrow> bytes \<Rightarrow> bytes" where
  "take_line 0 s = []"
| "take_line (Suc n) [] = []"
| "take_line (Suc n) (c # s) = (if c = CHR 0x0A then [c] else c # take_line n s)"

definition fgets :: "nat \<Rightarrow> bytes \<Rightarrow> (bytes \<times> bytes) option" where
  "fgets n inp = (if inp = [] then None else let l = take_line (n - 1) inp in Some (l, drop (length l) inp))"

lemma take_line_prefix: "take (length (take_line n s)) s = take_line n s"
  by (induction n s rule: take_line.induct) simp_all

lemma take_line_length: "length (take_line n s) \<le> n"
  by (induction n s rule: take_line.induct) simp_all

lemma take_line_nonempty: "0 < n \<Longrightarrow> s \<noteq> [] \<Longrightarrow> take_line n s \<noteq> []"
  by (cases "(n, s)" rule: take_line.cases) auto

text \<open>What is published for an input: each piece with its terminating zero, under the topic \<open>jjl/message\<close>.\<close>

function publish_loop :: "bytes \<Rightarrow> mosq_call list" where
  "publish_loop inp =
     (case fgets 512 inp of
        None \<Rightarrow> []
      | Some (buff, rest) \<Rightarrow> Mq_Publish ''jjl/message'' (cstr buff @ [NUL]) # publish_loop rest)"
  by pat_completeness auto

termination
proof (relation "measure length", simp)
  fix inp p buff rest
  assume "fgets 512 inp = Some p" "(buff, rest) = p"
  then show "(rest, inp) \<in> measure length"
    using take_line_nonempty [of 511 inp] by (auto simp: fgets_def Let_def split: if_splits)
qed

declare publish_loop.simps [simp del]

text \<open>\<open>main\<close>: the exit code and the calls; the results of the library are inputs.\<close>

definition publish_main :: "bool \<Rightarrow> int \<Rightarrow> int \<Rightarrow> bytes \<Rightarrow> int \<times> mosq_call list" where
  "publish_main mosq_ok conn loop inp =
     (if \<not> mosq_ok then (1, [Mq_Cleanup])
      else if conn \<noteq> 0 then (1, [])
      else if loop \<noteq> 0 then (1, [])
      else (0, publish_loop inp @ [Mq_Destroy, Mq_Cleanup]))"

fun published_text :: "mosq_call \<Rightarrow> bytes" where
  "published_text (Mq_Publish t d) = cstr d"
| "published_text _ = []"

lemma publish_loop_text:
  "NUL \<notin> set inp \<Longrightarrow> concat (map published_text (publish_loop inp)) = inp \<and>
     (\<forall>c \<in> set (publish_loop inp). \<exists>d. c = Mq_Publish ''jjl/message'' d \<and> length d \<le> 512)"
proof (induction inp rule: publish_loop.induct)
  case (1 inp)
  show ?case
  proof (cases "inp = []")
    case True
    then show ?thesis by (subst (1 2) publish_loop.simps) (simp add: fgets_def)
  next
    case False
    let ?l = "take_line 511 inp"
    have g: "fgets 512 inp = Some (?l, drop (length ?l) inp)" using False by (simp add: fgets_def Let_def)
    have l: "?l @ drop (length ?l) inp = inp" using take_line_prefix [of 511 inp] by (metis append_take_drop_id)
    then have z: "NUL \<notin> set ?l" "NUL \<notin> set (drop (length ?l) inp)" using 1(2) by (metis Un_iff set_append)+
    then have c: "cstr ?l = ?l" by (simp add: cstr_def takeWhile_eq_all_conv) metis
    have p: "publish_loop inp = Mq_Publish ''jjl/message'' (?l @ [NUL]) # publish_loop (drop (length ?l) inp)"
      by (subst publish_loop.simps) (simp add: g c)
    show ?thesis using 1(1) [OF g refl z(2)] take_line_length [of 511 inp] l z(1) unfolding p by simp
  qed
qed

text \<open>The subscriber: it subscribes when the connection is there, and prints each message; the result is what is printed.\<close>

definition my_connect_callback :: "int \<Rightarrow> mosq_call list \<times> bytes" where
  "my_connect_callback result = (if result = 0 then ([Mq_Subscribe ''jjl/message''], []) else ([], ''Connect failed'' @ [CHR 0x0A]))"

definition my_message_callback :: "bytes \<Rightarrow> bytes \<Rightarrow> bytes res" where
  "my_message_callback t payload =
     (if payload \<noteq> [] then res_bind (c_string payload) (\<lambda>s. Inr (t @ '' '' @ s)) else Inr (t @ '' (null)'' @ [CHR 0x0A]))"

definition subscriber_main :: "bool \<Rightarrow> int \<Rightarrow> int \<times> mosq_call list" where
  "subscriber_main mosq_ok conn =
     (if \<not> mosq_ok then (1, [Mq_Cleanup]) else if conn \<noteq> 0 then (1, []) else (0, [Mq_Destroy, Mq_Cleanup]))"

text \<open>A published line is printed behind its topic; a payload without a zero is read beyond its end.\<close>

lemma published_line_is_printed:
  assumes "NUL \<notin> set inp" and "Mq_Publish t d \<in> set (publish_loop inp)"
  shows "my_message_callback t d = Inr (''jjl/message '' @ cstr d)"
proof -
  have "\<exists>b. Mq_Publish t d = Mq_Publish ''jjl/message'' (b @ [NUL])"
    using assms(2)
  proof (induction inp rule: publish_loop.induct)
    case (1 inp)
    show ?case
    proof (cases "fgets 512 inp")
      case None
      with 1(2) show ?thesis by (subst (asm) publish_loop.simps) simp
    next
      case (Some p)
      obtain l r where p: "p = (l, r)" by fastforce
      with 1(2) Some have "Mq_Publish t d = Mq_Publish ''jjl/message'' (cstr l @ [NUL]) \<or> Mq_Publish t d \<in> set (publish_loop r)"
        by (subst (asm) publish_loop.simps) simp
      with 1(1) [of p l r] Some p show ?thesis by blast
    qed
  qed
  then show ?thesis by (auto simp: my_message_callback_def c_string_def)
qed

end
