(* ===== verification/Spec2Isabelle.thy ===== *)
theory Spec2Isabelle
  imports GW_System GW_RegDev GW_Socket GW_Common GW_JsonTypes GW_JsonHeapEdit GW_MonSystem GW_Examples
begin

text \<open>
  A verification development for the device adapter of \<open>src/code\<close> (C, ARM Linux, little endian).

  \<^bold>\<open>The program.\<close>  The adapter connects one control program (the client, over TCP) with the processes of a
  radio gateway (over an MQTT broker), the FPGA's registers and a DMA channel of samples.  \<open>main\<close> (\<open>devAdapter.c\<close>) opens
  a System V message queue, starts a timer thread and a server thread, connects to the broker, opens the
  DMA driver, and runs \<open>eventLoop\<close>.  The server thread accepts a client and starts a receive thread for it;
  that thread cuts the TCP stream into frames and posts an event for each.  The loop takes the events one by one: it
  forwards JSON requests to the process they name and sends the reply to the client, switches the sample streams, and
  supervises the client by the timer's timeouts and the client's heart beats.  The broker's thread and the
  driver's thread call back with published states and samples, which are forwarded to the client.

  \<^bold>\<open>The theories\<close>, in the order of their imports (file names under \<open>src/code\<close>).

  \<^item> \<open>GW_Prelude\<close>: undefined behaviour as a value (\<open>ub\<close>, \<open>'a res\<close>), 32-bit \<open>int\<close> with checked overflow, byte buffers with
    checked accesses, little-endian integers, C strings.
  \<^item> \<open>GW_Utility\<close>: \<open>src/utility.c\<close>.  \<open>GW_MsgQueue\<close>: \<open>src/msg_queue.c\<close>; its contract is the locale \<open>mailbox\<close>.
  \<^item> \<open>GW_Stream\<close>: the wire format, an abstract specification.  \<open>GW_Receive\<close>: \<open>receive_thread\<close>, \<open>receive\<close>, \<open>processMessage\<close>, \<open>postMsg\<close> of
    \<open>src/server.c\<close>, refined to it.  \<open>GW_Server\<close>: the rest of \<open>src/server.c\<close> (\<open>runServer\<close>, \<open>sendToPc\<close>, \<open>stopReceThread\<close>); the
    receiver objects live in a store, so that the pointer the threads share can dangle; the contract of sending is the locale \<open>pc_link\<close>.
  \<^item> \<open>GW_Latch\<close>: \<open>src/countDownLatch.c\<close>.  \<open>GW_Timer\<close>: \<open>src/gw_timer.c\<close>.  Both as steps of threads.
  \<^item> \<open>GW_Dma\<close>: \<open>src/dma_handler.c\<close>.  \<open>GW_RegDev\<close>: \<open>src/gw_control.c\<close>, \<open>dependence/gw_regdev/regdev_common.c\<close>.
  \<^item> \<open>GW_List\<close>: \<open>dependence/broker/list.h\<close>, pointer code refined to lists (locale \<open>registry\<close>).  \<open>GW_Broker\<close>:
    \<open>dependence/broker/broker.c\<close> and \<open>broker.h\<close>.
  \<^item> \<open>GW_Json\<close>, \<open>GW_JsonParse\<close>, \<open>GW_JsonPrint\<close>, \<open>GW_JsonRoundTrip\<close>, \<open>GW_JsonTypes\<close>: \<open>dependence/cjson/cJSON.c\<close>: the tree (locale
    \<open>dict\<close>), the parser, the printer, both together, and the types of parsed documents.  \<open>GW_JsonHeap\<close>: the tree in memory,
    appending and \<open>cJSON_Delete\<close> as pointer code, related to the values by \<open>chain\<close>; \<open>GW_JsonHeapEdit\<close>: counting, finding,
    detaching, inserting, replacing and referencing items as pointer code, refined to the operations on lists of \<open>GW_Json\<close>.
  \<^item> \<open>GW_ProcBroker\<close>: \<open>src/procBroker.c\<close>.  \<open>GW_EventLoop\<close>: \<open>src/event_process.c\<close>.  \<open>GW_System\<close>: \<open>devAdapter.c\<close> with the log's set-up and
    end, and all threads together (\<open>prog\<close>, \<open>sys_step\<close>, \<open>sys_reach\<close>).
  \<^item> \<open>GW_Socket\<close>: the options \<open>src/server.c\<close> sets on a connection.  \<open>GW_Common\<close>: the helpers of \<open>dependence/broker/common.h\<close>.
  \<^item> \<open>GW_MonExec\<close>, \<open>GW_Mon\<close>, \<open>GW_MonMain\<close>: \<open>example/mon.c\<close>, the monitor of the gateway's processes, a program of its own on the same
    broker library: command lines; starting and supervising processes; configuring the devices, its threads and \<open>main\<close>.
    \<open>GW_MonSystem\<close>: these threads together (\<open>mon_step\<close>, \<open>mon_reach\<close>), with the processes outside that end by themselves.
  \<^item> \<open>GW_Examples\<close>: the trial programs \<open>example/receiver.c\<close>, \<open>server_temp.c\<close>, \<open>publish.c\<close>, \<open>subsrciber.c\<close>.
  \<^item> This theory: a request from the client's socket through all of them and back.

  \<^bold>\<open>State and operations.\<close>  Each C structure is a record of the same name and (up to a prefix) the same fields; each C function is a
  definition of its name that takes the state and returns it changed.  A function that can run into undefined
  behaviour returns \<open>'a res\<close>: \<open>Inl\<close> names what happened (null pointer, access out of bounds, overlapping copy, use after
  free, overflow, misused mutex), \<open>Inr\<close> is the regular result with the C function's return value.
  The record \<open>sys\<close> of \<open>GW_EventLoop\<close> puts the components together: queue, timer, broker with the server it points to, DMA.
  The record \<open>prog\<close> of \<open>GW_System\<close> adds the server's thread and the callbacks whose threads still run.  \<open>sys_step\<close> interleaves the
  threads: a turn of the loop, a call of the server's set-up, a client that connects, a round of the receive thread, the timer,
  an event of the MQTT library or its end, a callback's thread, a block of samples; a handler of the loop, a round of the
  receive thread, one call of a callback are atomic there.  The places where finer interleavings matter are modelled finer: the timer and the latch
  by statement, \<open>sendToPc\<close> by its entry and its rest (\<open>stop_during_send\<close>), the RSSI callback by filling its static frame and sending it
  (\<open>rssi_callbacks_race\<close>), stopping a receive thread by what that thread is doing.

  \<^bold>\<open>What comes from outside\<close> is a parameter: what \<open>recv\<close> and \<open>send\<close> do, what the kernel's queue holds at the start, the answers of
  libmosquitto and what its thread delivers while a caller waits (\<open>ack_env\<close>, \<open>xfer\<close>), its topic matching,
  the driver's handle, fresh memory (the arguments called \<open>junk\<close>), the bytes behind a block (\<open>e_tail\<close>), the
  allocator of cJSON (\<open>internal_hooks\<close>), the type \<open>double\<close> with \<open>strtod\<close> and \<open>sprintf\<close> (\<open>dbl\<close>).  Other allocations succeed.

  \<^bold>\<open>What the lemmas show.\<close>  The receiver delivers exactly the frames of the stream, however it is cut into chunks, within its buffer
  sizes; the queue is first-in first-out; frames sent by several threads go out whole and in order, or the link is
  disabled; the server, the DMA object and the whole program keep their invariants under any
  interleaving; the loop implements the abstract supervision \<open>supervise\<close> of a client; requests are answered; the list code
  refines lists; a request published by one broker object is answered to the caller that waits for it; a state that
  a process publishes reaches the client; when the broker's connection fails, that is final; the JSON parser is safe
  on every text, ends, and returns well-typed items; the printer stays in its block and its text is read back;
  the monitor's command lines are cut into their words within their arrays, ended processes and no others are restarted, and a
  configuration is announced only when all of it was sent and checked; no process of the monitor drops out of its table,
  whatever its threads do and in whatever order, but an exit that is collected before the table has the new number is lost;
  a JSON tree in memory is edited as the lists of its values are, and freed completely and once.
  Where the code lets go of a promise, a lemma states what happens instead: the frames that overrun
  or underrun the buffer, the events behind a drop, the responses that cross, two RSSI callbacks that share one frame, the second
  run of the timer.

  \<^bold>\<open>Bounds.\<close>  \<open>parse_value\<close> takes the depth of the recursion as its first argument; the entry points give it
  \<open>CJSON_NESTING_LIMIT + 1\<close>, and \<open>parse_safe_and_total\<close> proves that it is enough; the loops over elements and members
  take the length of the text, enough for the same reason.  \<open>cJSON_Compare\<close> recurses over the sizes of both items.
  The receive loop has no bound (\<open>partial_function\<close>), and is proved to end on frames of a non-negative length and to
  diverge on a frame of length -4.  \<open>event_turns\<close> runs as many turns as it is given.

  \<^bold>\<open>Not modelled.\<close>  What is written to the log: the set-up and the end of the log are calls that \<open>main\<close> records, the \<open>zlog_\<close> macros
  and \<open>printbuf_temp\<close> only write.  \<open>user_wait\<close> sleeps for ever and is never called, \<open>print_gettid\<close> and \<open>log_callback\<close> print.
  cJSON's memory beyond \<open>GW_JsonHeap\<close> and \<open>GW_JsonHeapEdit\<close>: elsewhere an item is a value that owns its children, references are
  copies of values, and \<open>cJSON_GetErrorPtr\<close> (its position is a result of the parser) and \<open>cJSON_Version\<close> have no
  counterpart.  Of the monitor, the functions its missing headers declare (\<open>mon.h\<close>, \<open>mon_cf_parse.h\<close>, \<open>cf_ops.h\<close> and others): reading the
  tables and files, interpreting answers, the state machine; they are parameters.  Of the trial programs, the callbacks
  that only print (\<open>my_subscribe_callback\<close>, \<open>my_log_callback\<close>).  The tests under \<open>test\<close>: trial clients with fixed paths and
  addresses, part of no program.  The libraries zlog, libmosquitto and axidma, which are not in the repository.
\<close>

section \<open>A request from end to end\<close>

lemma json_event:
  assumes "length p \<le> 2040" and "length junk = 2048" and "mq_ev m = mq_ev (the_elem (set (frame_msgs junk (1, p))))"
  shows "msg_type m = MSG_INQUIRY_STATE" "msg_len m = int (length p)" "\<exists>r. msg_json m = p @ r"
proof -
  have ev: "mq_ev m = (11, int (length p), take 2040 (p @ drop (length p) junk))"
    using assms(3) by (simp add: frame_msgs_def frame_event_def mq_ev_def)
  then show "msg_type m = MSG_INQUIRY_STATE" "msg_len m = int (length p)" by (simp_all add: mq_ev_def)
  from ev have "take 2040 (msg_json m) = p @ take (2040 - length p) (drop (length p) junk)"
    using assms(1) by (simp add: mq_ev_def)
  then have "msg_json m = (p @ take (2040 - length p) (drop (length p) junk)) @ drop 2040 (msg_json m)"
    by (metis append_take_drop_id)
  then show "\<exists>r. msg_json m = p @ r" by auto
qed

lemma forwarded_wire:
  assumes "forwarded fd f s s'" and "wire s0 = wire s"
  shows "forwarded fd f s0 s'"
proof -
  have "sent_on fd s0 = sent_on fd s" using assms(2) by (simp add: sent_on_def)
  with assms(1) show ?thesis by (simp add: forwarded_def)
qed

text \<open>The receive thread: the frame of a request becomes one event in the empty queue.\<close>

lemma request_received:
  assumes "rx_inv r []" and "mq_ready 1 q0" and "mq_evs q0 = []" and "length junk = 2048" and "length req \<le> 1993"
  shows "\<exists>r' q. receive ovl junk (Some (mk_frame (1, req))) (r, q0) = Some (Inr (r', q)) \<and> connfd r' = connfd r \<and>
    mq_ready 0 q \<and> mq_evs q = [mq_ev (the_elem (set (frame_msgs junk (1, req))))]"
proof -
  let ?f = "(1, req)"
  have f: "frame_ok 2001 ?f" using assms(5) by (simp add: frame_ok_def)
  from post_frames [of "[?f]" junk 0 q0] f assms(2,4) obtain q where
    q: "post_list postMsgQueue (concat (map (frame_msgs junk) [?f])) q0 = Inr q" "mq_ready 0 q"
      "mq_evs q = mq_evs q0 @ map mq_ev (concat (map (frame_msgs junk) [?f]))" by auto
  have ne: "mk_frame ?f \<noteq> []" "length (mk_frame ?f) \<le> 8240" using assms(5) by (simp_all add: mk_frame_def le32_def)
  have frames: "\<forall>g \<in> set [?f]. rx_frame_ok g" using frame_ok_rx [OF f] by simp
  obtain r' where "receive ovl junk (Some (mk_frame ?f)) (r, q0) = Some (Inr (r', q))" "connfd r' = connfd r"
    using receive_chunk [OF assms(1) ne _ frames _ _ assms(4) _ q(1), of "[]" ovl] receive_connfd by fastforce
  with q(2,3) assms(3) show ?thesis by (auto simp: frame_msgs_def frame_event_def)
qed

text \<open>The event's text is the printed request, and parses to it.\<close>

lemma request_text:
  assumes "msg_json m = render D fmt 0 item @ [NUL] @ rest" and "printable D item" and "reads_back D item"
    and "nesting item \<le> CJSON_NESTING_LIMIT"
  shows "json_of D (cstr (msg_json m)) = Inr (Some (canon D None item))"
proof -
  have "cstr (msg_json m) = render D fmt 0 item"
    using render_no_zero [OF assms(2), of fmt 0] unfolding assms(1) by simp
  then show ?thesis unfolding json_of_def using cJSON_Parse_rendered [OF assms(3,4), of fmt] by simp
qed




end
